(* ===== verification/Ledger_Prelude.thy ===== *)
theory Ledger_Prelude
  imports
    Main
    "HOL-Library.Char_ord"
    "HOL-Library.List_Lexorder"
    "HOL-Library.Option_ord"
    "HOL-Library.Product_Lexorder"
    "HOL-Library.FSet"
    "HOL-Library.Finite_Map"
    "HOL-Library.Word"
begin

text \<open>
  Shared vocabulary of the development: the Rust language and standard-library notions that the
  ledger's crates use, each as an executable HOL function.

  \<^item> \<open>Result\<close>: a sum, \<open>Inl\<close> the error; \<open>rbind\<close> is the question-mark operator, \<open>traverse_r\<close> and
    \<open>for_r\<close> are the fallible \<open>collect\<close> and the fallible \<open>for\<close> loop.
  \<^item> Bytes are HOL's \<open>char\<close> (exactly the 256 byte values); a Rust \<open>str\<close> is the list of its UTF-8
    bytes, and \<open>utf8\<close> is the invariant every Rust \<open>String\<close> has. The order on byte lists is the
    library's lexicographic order, which is the bytewise order of Rust's \<open>str\<close> and \<open>[u8]\<close>.
  \<^item> \<open>BTreeSet\<close> is a finite set read in ascending order (\<open>sorted_list_of_fset\<close>), \<open>BTreeMap\<close> and
    \<open>HashMap\<close> are finite maps (\<open>sorted_list_of_fset\<close> of the domain gives the ordered iteration).
  \<^item> \<open>usize\<close> is \<open>nat\<close>; \<open>u32\<close> is a 32-bit word with its big-endian byte form.
\<close>

section \<open>Simplification collections\<close>

named_theorems result_simps \<open>how a fallible computation can have succeeded\<close>
named_theorems codec_simps \<open>a reader applied to what its writer produced\<close>

section \<open>Results\<close>

fun rbind :: "'e + 'a \<Rightarrow> ('a \<Rightarrow> 'e + 'b) \<Rightarrow> 'e + 'b" where
  "rbind (Inl e) f = Inl e"
| "rbind (Inr x) f = f x"

lemma rbind_cong [fundef_cong]:
  "m = m' \<Longrightarrow> (\<And>x. m' = Inr x \<Longrightarrow> f x = g x) \<Longrightarrow> rbind m f = rbind m' g"
  by (cases m') auto

lemma rbind_eq_Inr [result_simps]:
  "rbind m f = Inr y \<longleftrightarrow> (\<exists>x. m = Inr x \<and> f x = Inr y)"
  by (cases m) auto

lemma rbind_eq_Inl [result_simps]:
  "rbind m f = Inl e \<longleftrightarrow> m = Inl e \<or> (\<exists>x. m = Inr x \<and> f x = Inl e)"
  by (cases m) auto

lemma rbind_assoc: "rbind (rbind m f) g = rbind m (\<lambda>x. rbind (f x) g)"
  by (cases m) auto

fun map_err :: "('e \<Rightarrow> 'd) \<Rightarrow> 'e + 'a \<Rightarrow> 'd + 'a" where
  "map_err f (Inl e) = Inl (f e)"
| "map_err f (Inr x) = Inr x"

lemma map_err_eq_Inr [result_simps]: "map_err f m = Inr x \<longleftrightarrow> m = Inr x"
  by (cases m) auto

fun ok_or :: "'e \<Rightarrow> 'a option \<Rightarrow> 'e + 'a" where
  "ok_or e None = Inl e"
| "ok_or e (Some x) = Inr x"

lemma ok_or_eq_Inr [result_simps]: "ok_or e m = Inr x \<longleftrightarrow> m = Some x"
  by (cases m) auto

text \<open>A guard that returns early: \<open>if cond { return Err(e) }\<close>.\<close>

definition fail_if :: "bool \<Rightarrow> 'e \<Rightarrow> 'e + unit" where
  "fail_if b e = (if b then Inl e else Inr ())"

lemma fail_if_simps [simp]:
  "fail_if True e = Inl e" "fail_if False e = Inr ()"
  by (simp_all add: fail_if_def)

lemma fail_if_eq_Inr [result_simps]: "fail_if b e = Inr u \<longleftrightarrow> \<not> b"
  by (simp add: fail_if_def)

lemma fail_if_eq_Inl [result_simps]: "fail_if b e = Inl e' \<longleftrightarrow> b \<and> e = e'"
  by (simp add: fail_if_def)

fun for_r :: "('a \<Rightarrow> 'e + unit) \<Rightarrow> 'a list \<Rightarrow> 'e + unit" where
  "for_r f [] = Inr ()"
| "for_r f (x # xs) = rbind (f x) (\<lambda>_. for_r f xs)"

lemma for_r_eq_Inr [result_simps]: "for_r f xs = Inr u \<longleftrightarrow> (\<forall>x \<in> set xs. f x = Inr ())"
  by (induction xs) (auto simp: result_simps)

fun traverse_r :: "('a \<Rightarrow> 'e + 'b) \<Rightarrow> 'a list \<Rightarrow> 'e + 'b list" where
  "traverse_r f [] = Inr []"
| "traverse_r f (x # xs) = rbind (f x) (\<lambda>y. rbind (traverse_r f xs) (\<lambda>ys. Inr (y # ys)))"

lemma traverse_r_eq_Inr [result_simps]:
  "traverse_r f xs = Inr ys \<longleftrightarrow> list_all2 (\<lambda>x y. f x = Inr y) xs ys"
  by (induction xs arbitrary: ys) (auto simp: result_simps list_all2_Cons1)

lemma traverse_r_total: "(\<And>x. x \<in> set xs \<Longrightarrow> f x = Inr (g x)) \<Longrightarrow> traverse_r f xs = Inr (map g xs)"
  by (induction xs) auto

section \<open>Bytes, prefixes and UTF-8\<close>

type_synonym byte = char
type_synonym bytes = "char list"

fun strip_prefix :: "'a list \<Rightarrow> 'a list \<Rightarrow> 'a list option" where
  "strip_prefix [] xs = Some xs"
| "strip_prefix (p # ps) [] = None"
| "strip_prefix (p # ps) (x # xs) = (if p = x then strip_prefix ps xs else None)"

definition starts_with :: "'a list \<Rightarrow> 'a list \<Rightarrow> bool" where
  "starts_with p xs \<longleftrightarrow> take (length p) xs = p"

lemma strip_prefix_append [simp]: "strip_prefix p (p @ xs) = Some xs"
  by (induction p) auto

lemma strip_prefix_eq_Some [result_simps]: "strip_prefix p xs = Some ys \<longleftrightarrow> xs = p @ ys"
  by (induction p xs rule: strip_prefix.induct) auto

lemma starts_with_append [simp]: "starts_with p (p @ xs)"
  by (simp add: starts_with_def)

lemma starts_with_iff: "starts_with p xs \<longleftrightarrow> (\<exists>ys. xs = p @ ys)"
  by (metis append_eq_conv_conj append_take_drop_id starts_with_def)

definition strip_suffix :: "'a list \<Rightarrow> 'a list \<Rightarrow> 'a list option" where
  "strip_suffix s xs = map_option rev (strip_prefix (rev s) (rev xs))"

lemma strip_suffix_append [simp]: "strip_suffix s (xs @ s) = Some xs"
  by (simp add: strip_suffix_def)

lemma strip_suffix_eq_Some [result_simps]: "strip_suffix s xs = Some ys \<longleftrightarrow> xs = ys @ s"
  by (auto simp: strip_suffix_def strip_prefix_eq_Some) (metis rev_append rev_rev_ident)

abbreviation code :: "byte \<Rightarrow> nat" where
  "code b \<equiv> of_char b"

abbreviation byte_of :: "nat \<Rightarrow> byte" where
  "byte_of n \<equiv> char_of n"

lemma code_less [simp]: "code b < 256"
  by (metis (no_types) char_of_char of_char_of mod_less_divisor zero_less_numeral)

lemma byte_of_code [simp]: "byte_of (code b) = b"
  by simp

lemma code_byte_of: "n < 256 \<Longrightarrow> code (byte_of n) = n"
  by simp

text \<open>The byte classes of \<open>u8\<close> and \<open>char\<close>.\<close>

definition is_ascii_digit :: "byte \<Rightarrow> bool" where
  "is_ascii_digit b \<longleftrightarrow> 48 \<le> code b \<and> code b \<le> 57"

definition is_ascii_uppercase :: "byte \<Rightarrow> bool" where
  "is_ascii_uppercase b \<longleftrightarrow> 65 \<le> code b \<and> code b \<le> 90"

definition is_ascii_lowercase :: "byte \<Rightarrow> bool" where
  "is_ascii_lowercase b \<longleftrightarrow> 97 \<le> code b \<and> code b \<le> 122"

definition is_ascii_alphanumeric :: "byte \<Rightarrow> bool" where
  "is_ascii_alphanumeric b \<longleftrightarrow> is_ascii_digit b \<or> is_ascii_uppercase b \<or> is_ascii_lowercase b"

definition is_ascii_hexdigit :: "byte \<Rightarrow> bool" where
  "is_ascii_hexdigit b \<longleftrightarrow>
     is_ascii_digit b \<or> (65 \<le> code b \<and> code b \<le> 70) \<or> (97 \<le> code b \<and> code b \<le> 102)"

definition is_ascii_graphic :: "byte \<Rightarrow> bool" where
  "is_ascii_graphic b \<longleftrightarrow> 33 \<le> code b \<and> code b \<le> 126"

definition is_ascii :: "string \<Rightarrow> bool" where
  "is_ascii s \<longleftrightarrow> list_all (\<lambda>b. code b < 128) s"

lemmas byte_class_defs =
  is_ascii_digit_def is_ascii_uppercase_def is_ascii_lowercase_def is_ascii_alphanumeric_def
  is_ascii_hexdigit_def is_ascii_graphic_def

text \<open>
  \<open>std::str::from_utf8\<close>: the well-formed byte sequences of the Unicode standard (no overlong
  forms, no surrogates, nothing beyond U+10FFFF). \<open>utf8_next\<close> reads one scalar value and says how
  many bytes it took.
\<close>

definition is_cont :: "byte \<Rightarrow> bool" where
  "is_cont b \<longleftrightarrow> 128 \<le> code b \<and> code b \<le> 191"

definition cont_bits :: "byte \<Rightarrow> nat" where
  "cont_bits b = code b - 128"

fun utf8_next :: "bytes \<Rightarrow> (nat \<times> nat) option" where
  "utf8_next [] = None"
| "utf8_next (a # r) =
    (let x = code a in
     if x < 128 then Some (x, 1)
     else if 194 \<le> x \<and> x \<le> 223 then
       (case r of
          b # _ \<Rightarrow> if is_cont b then Some ((x - 192) * 64 + cont_bits b, 2) else None
        | _ \<Rightarrow> None)
     else if 224 \<le> x \<and> x \<le> 239 then
       (case r of
          b # c # _ \<Rightarrow>
            if is_cont b \<and> is_cont c \<and> (x = 224 \<longrightarrow> 160 \<le> code b) \<and> (x = 237 \<longrightarrow> code b \<le> 159)
            then Some ((x - 224) * 4096 + cont_bits b * 64 + cont_bits c, 3) else None
        | _ \<Rightarrow> None)
     else if 240 \<le> x \<and> x \<le> 244 then
       (case r of
          b # c # d # _ \<Rightarrow>
            if is_cont b \<and> is_cont c \<and> is_cont d
               \<and> (x = 240 \<longrightarrow> 144 \<le> code b) \<and> (x = 244 \<longrightarrow> code b \<le> 143)
            then Some ((x - 240) * 262144 + cont_bits b * 4096 + cont_bits c * 64 + cont_bits d, 4)
            else None
        | _ \<Rightarrow> None)
     else None)"

lemma utf8_next_len: "utf8_next bs = Some (c, n) \<Longrightarrow> 0 < n \<and> n \<le> length bs"
  by (cases bs) (auto simp: Let_def split: if_splits list.splits)

function utf8_chars :: "bytes \<Rightarrow> nat list option" where
  "utf8_chars bs =
     (if bs = [] then Some []
      else case utf8_next bs of
             None \<Rightarrow> None
           | Some (c, n) \<Rightarrow> map_option (Cons c) (utf8_chars (drop n bs)))"
  by pat_completeness auto
termination
  by (relation "measure length") (auto dest: utf8_next_len)

declare utf8_chars.simps [simp del]

definition utf8 :: "bytes \<Rightarrow> bool" where
  "utf8 bs \<longleftrightarrow> utf8_chars bs \<noteq> None"

text \<open>\<open>char::is_control\<close>: the Unicode general category Cc.\<close>

definition is_control :: "nat \<Rightarrow> bool" where
  "is_control c \<longleftrightarrow> c < 32 \<or> (127 \<le> c \<and> c < 160)"

text \<open>\<open>value.chars().any(char::is_control)\<close> on a string; a \<open>String\<close> is always valid UTF-8.\<close>

definition any_control :: "string \<Rightarrow> bool" where
  "any_control s = (case utf8_chars s of None \<Rightarrow> False | Some cs \<Rightarrow> list_ex is_control cs)"

lemma utf8_chars_Nil [simp]: "utf8_chars [] = Some []"
  by (subst utf8_chars.simps) simp

lemma utf8_chars_ascii_Cons:
  "code a < 128 \<Longrightarrow> utf8_chars (a # r) = map_option (Cons (code a)) (utf8_chars r)"
  by (subst utf8_chars.simps) (simp add: Let_def)

lemma utf8_chars_ascii: "is_ascii s \<Longrightarrow> utf8_chars s = Some (map code s)"
  by (induction s) (auto simp: is_ascii_def utf8_chars_ascii_Cons)

lemma utf8_Nil [simp]: "utf8 []"
  by (simp add: utf8_def)

lemma ascii_utf8: "is_ascii s \<Longrightarrow> utf8 s"
  by (simp add: utf8_def utf8_chars_ascii)

lemma is_ascii_simps [simp]:
  "is_ascii []" "is_ascii (a # s) \<longleftrightarrow> code a < 128 \<and> is_ascii s"
  "is_ascii (s @ t) \<longleftrightarrow> is_ascii s \<and> is_ascii t"
  by (auto simp: is_ascii_def)

lemma any_control_ascii: "is_ascii s \<Longrightarrow> any_control s \<longleftrightarrow> (\<exists>b \<in> set s. is_control (code b))"
  by (simp add: any_control_def utf8_chars_ascii list_ex_iff)

lemma utf8_next_append: "utf8_next a = Some (c, n) \<Longrightarrow> utf8_next (a @ b) = Some (c, n)"
  by (cases a) (auto simp: Let_def split: if_splits list.splits)

lemma utf8_chars_append: "utf8_chars a = Some cs \<Longrightarrow> utf8_chars (a @ b) = map_option (append cs) (utf8_chars b)"
proof (induction a arbitrary: cs rule: utf8_chars.induct)
  case (1 a)
  show ?case
  proof (cases "a = []")
    case True
    with "1.prems" show ?thesis by (simp add: option.map_ident)
  next
    case False
    with "1.prems" obtain c n ds where next_char: "utf8_next a = Some (c, n)"
      and tail_chars: "utf8_chars (drop n a) = Some ds" and cs: "cs = c # ds"
      by (subst (asm) utf8_chars.simps) (auto split: option.splits)
    have "utf8_chars (drop n a @ b) = map_option (append ds) (utf8_chars b)"
      using "1.IH" [OF False next_char] tail_chars by simp
    then show ?thesis
      using False cs utf8_next_append [OF next_char, of b] utf8_next_len [OF next_char]
      by (subst utf8_chars.simps) (cases "utf8_chars b"; simp)
  qed
qed

lemma utf8_append [simp]: "utf8 a \<Longrightarrow> utf8 (a @ b) \<longleftrightarrow> utf8 b"
  by (auto simp: utf8_def utf8_chars_append)

lemma utf8_concat: "(\<And>s. s \<in> set ss \<Longrightarrow> utf8 s) \<Longrightarrow> utf8 (concat ss)"
  by (induction ss) auto

section \<open>Machine integers and their bytes\<close>

type_synonym u8 = "8 word"
type_synonym u32 = "32 word"

text \<open>\<open>u32::try_from(usize)\<close>, \<open>to_be_bytes\<close> and \<open>from_be_bytes\<close>.\<close>

definition u32_try_from :: "nat \<Rightarrow> u32 option" where
  "u32_try_from n = (if n < 2 ^ 32 then Some (word_of_nat n) else None)"

definition u32_to_be_bytes :: "u32 \<Rightarrow> bytes" where
  "u32_to_be_bytes w =
     (let n = unat w in
      [byte_of (n div 16777216), byte_of (n div 65536), byte_of (n div 256), byte_of n])"

definition u32_from_be_bytes :: "byte \<Rightarrow> byte \<Rightarrow> byte \<Rightarrow> byte \<Rightarrow> u32" where
  "u32_from_be_bytes a b c d =
     word_of_nat (code a * 16777216 + code b * 65536 + code c * 256 + code d)"

lemma u32_try_from_Some [result_simps]:
  "u32_try_from n = Some w \<longleftrightarrow> n < 2 ^ 32 \<and> w = word_of_nat n"
  by (auto simp: u32_try_from_def)

lemma unat_word_of_nat_u32: "n < 2 ^ 32 \<Longrightarrow> unat (word_of_nat n :: u32) = n"
  by (simp add: unat_of_nat)

lemma be32_digits:
  assumes "(n::nat) < 4294967296"
  shows "(n div 16777216) mod 256 * 16777216 + (n div 65536) mod 256 * 65536
           + (n div 256) mod 256 * 256 + n mod 256 = n"
proof -
  have 1: "n = n div 256 * 256 + n mod 256" by simp
  have 2: "n div 256 = n div 65536 * 256 + (n div 256) mod 256"
    using div_mult2_eq [of n 256 256] by simp
  have 3: "n div 65536 = n div 16777216 * 256 + (n div 65536) mod 256"
    using div_mult2_eq [of n 65536 256] by simp
  have 4: "(n div 16777216) mod 256 = n div 16777216"
    using assms by (simp add: less_mult_imp_div_less)
  from 1 2 3 4 show ?thesis by linarith
qed

lemma u32_be_roundtrip [simp]:
  "u32_from_be_bytes (byte_of (unat w div 16777216)) (byte_of (unat w div 65536))
     (byte_of (unat w div 256)) (byte_of (unat w)) = w" for w :: u32
proof -
  have "unat w < 4294967296"
    using unsigned_less [of w, where ?'a = nat] by simp
  then show ?thesis
    unfolding u32_from_be_bytes_def of_char_of by (simp only: be32_digits) simp
qed

lemma length_u32_to_be_bytes [simp]: "length (u32_to_be_bytes w) = 4"
  by (simp add: u32_to_be_bytes_def Let_def)

lemma two_pow_32: "(2::nat) ^ 32 = 4294967296"
  by simp

lemma unat_u32_from_be:
  "unat (u32_from_be_bytes a b c d) = code a * 16777216 + code b * 65536 + code c * 256 + code d"
proof -
  have "code a * 16777216 + code b * 65536 + code c * 256 + code d < 2 ^ 32"
    using code_less [of a] code_less [of b] code_less [of c] code_less [of d]
    unfolding two_pow_32 by linarith
  then show ?thesis
    unfolding u32_from_be_bytes_def by (rule unat_word_of_nat_u32)
qed

lemma be32_bytes:
  fixes a b c d :: nat
  assumes "b < 256" and "c < 256" and "d < 256"
  defines "n \<equiv> a * 16777216 + b * 65536 + c * 256 + d"
  shows "n div 16777216 = a" and "n div 65536 = a * 256 + b"
    and "n div 256 = a * 65536 + b * 256 + c" and "n mod 256 = d"
proof -
  have n: "n = d + (a * 65536 + b * 256 + c) * 256" by (simp add: n_def)
  show "n mod 256 = d" unfolding n using assms by (simp only: mod_mult_self1 mod_less)
  show 3: "n div 256 = a * 65536 + b * 256 + c" unfolding n using assms by simp
  have "n div 65536 = n div 256 div 256" by (simp add: div_mult2_eq [symmetric])
  then show 2: "n div 65536 = a * 256 + b" using 3 assms by simp
  have "n div 16777216 = n div 65536 div 256" by (simp add: div_mult2_eq [symmetric])
  then show "n div 16777216 = a" using 2 assms by simp
qed

lemma u32_to_be_from_be [simp]: "u32_to_be_bytes (u32_from_be_bytes a b c d) = [a, b, c, d]"
proof -
  note eq = be32_bytes [of "code b" "code c" "code d" "code a", OF code_less code_less code_less]
  have low: "byte_of (k * 256 + code x) = x" for k x
    by (metis byte_of_code char_of_mod_256 code_less mod_less mod_mult_self3)
  have "byte_of (code a * 65536 + code b * 256 + code c) = c"
    using low [of "code a * 256 + code b" c] by (simp add: algebra_simps)
  moreover have "byte_of (code a * 16777216 + code b * 65536 + code c * 256 + code d) = d"
    using low [of "code a * 65536 + code b * 256 + code c" d] by (simp add: algebra_simps)
  ultimately show ?thesis
    unfolding u32_to_be_bytes_def Let_def unat_u32_from_be eq(1-3) by (simp add: low)
qed

section \<open>Decimal printing\<close>

definition digit :: "nat \<Rightarrow> byte" where
  "digit d = byte_of (48 + d)"

fun show_nat :: "nat \<Rightarrow> string" where
  "show_nat n = (if n < 10 then [digit n] else show_nat (n div 10) @ [digit (n mod 10)])"

declare show_nat.simps [simp del]

text \<open>\<open>{:0w}\<close>: at least \<open>w\<close> digits, zero padded.\<close>

definition pad_nat :: "nat \<Rightarrow> nat \<Rightarrow> string" where
  "pad_nat w n = replicate (w - length (show_nat n)) (digit 0) @ show_nat n"

definition read_nat :: "string \<Rightarrow> nat" where
  "read_nat s = foldl (\<lambda>acc b. 10 * acc + (code b - 48)) 0 s"

lemma digit_code: "d < 10 \<Longrightarrow> code (digit d) = 48 + d"
  by (simp add: digit_def)

lemma show_nat_digits: "\<forall>b \<in> set (show_nat n). is_ascii_digit b"
proof (induction n rule: show_nat.induct)
  case (1 n)
  have d: "is_ascii_digit (digit k)" if "k < 10" for k
    using that by (simp add: is_ascii_digit_def digit_code)
  show ?case
  proof (cases "n < 10")
    case True
    then show ?thesis by (simp add: show_nat.simps [of n] d)
  next
    case False
    with "1.IH" show ?thesis by (simp add: show_nat.simps [of n] d)
  qed
qed

lemma read_show_nat: "read_nat (show_nat n) = n"
proof (induction n rule: show_nat.induct)
  case (1 n)
  show ?case
  proof (cases "n < 10")
    case True
    then show ?thesis by (simp add: show_nat.simps [of n] read_nat_def digit_code)
  next
    case False
    with "1.IH" show ?thesis
      by (simp add: show_nat.simps [of n] read_nat_def digit_code)
  qed
qed

lemma read_nat_zeros: "read_nat (replicate k (digit 0) @ s) = read_nat s"
  by (induction k) (simp_all add: read_nat_def digit_code)

lemma read_pad_nat [simp]: "read_nat (pad_nat w n) = n"
  by (simp add: pad_nat_def read_nat_zeros read_show_nat)

lemma show_nat_inj: "show_nat m = show_nat n \<longleftrightarrow> m = n"
  by (metis read_show_nat)

lemma pad_nat_inj: "pad_nat w m = pad_nat w n \<longleftrightarrow> m = n"
  by (metis read_pad_nat)

lemma show_nat_nonempty [simp]: "show_nat n \<noteq> []"
  by (subst show_nat.simps) simp

lemma length_show_nat_le: "n < 10 ^ w \<Longrightarrow> 0 < w \<Longrightarrow> length (show_nat n) \<le> w"
proof (induction n arbitrary: w rule: show_nat.induct)
  case (1 n)
  show ?case
  proof (cases "n < 10")
    case True
    with "1.prems" show ?thesis by (simp add: show_nat.simps [of n])
  next
    case False
    with "1.prems" have "1 < w" by (cases "w = 1") auto
    then obtain v where v: "w = Suc v" "0 < v" by (cases w) auto
    with "1.prems" have "n div 10 < 10 ^ v" by (simp add: less_mult_imp_div_less)
    with "1.IH" [OF False] v have "length (show_nat (n div 10)) \<le> v" by blast
    with False v show ?thesis by (simp add: show_nat.simps [of n])
  qed
qed

lemma length_pad_nat: "n < 10 ^ w \<Longrightarrow> 0 < w \<Longrightarrow> length (pad_nat w n) = w"
  by (simp add: pad_nat_def length_show_nat_le)

lemma pad_nat_digits: "\<forall>b \<in> set (pad_nat w n). is_ascii_digit b"
  using show_nat_digits [of n] by (auto simp: pad_nat_def is_ascii_digit_def digit_code)

lemma ascii_digits: "\<forall>b \<in> set s. is_ascii_digit b \<Longrightarrow> is_ascii s"
  by (auto simp: is_ascii_def list_all_iff is_ascii_digit_def)

section \<open>Sorting and canonical sets\<close>

text \<open>\<open>sort_unstable\<close> followed by \<open>dedup\<close>: the canonical list of a set.\<close>

definition sort_dedup :: "'a::linorder list \<Rightarrow> 'a list" where
  "sort_dedup xs = remdups_adj (sort xs)"

lemma sorted_distinct_remdups_adj: "sorted xs \<Longrightarrow> distinct (remdups_adj xs)"
  by (induction xs rule: remdups_adj.induct) (auto simp: order.order_iff_strict)

lemma set_sort_dedup [simp]: "set (sort_dedup xs) = set xs"
  by (simp add: sort_dedup_def)

lemma sort_dedup_strict [simp]: "sorted_wrt (<) (sort_dedup xs)"
  by (simp add: sort_dedup_def strict_sorted_iff sorted_distinct_remdups_adj)

lemma strict_sorted_set_unique:
  "sorted_wrt (<) xs \<Longrightarrow> sorted_wrt (<) ys \<Longrightarrow> set xs = set ys \<Longrightarrow> xs = (ys :: 'a::linorder list)"
  by (simp add: strict_sorted_equal)

lemma sort_dedup_id: "sorted_wrt (<) xs \<Longrightarrow> sort_dedup xs = xs"
  by (rule strict_sorted_set_unique) simp_all

lemma sort_dedup_eq_iff: "sort_dedup xs = sort_dedup ys \<longleftrightarrow> set xs = set ys"
  by (metis set_sort_dedup sort_dedup_strict strict_sorted_set_unique)

lemma length_sort_dedup: "length (sort_dedup xs) = card (set xs)"
  by (metis distinct_card set_sort_dedup sort_dedup_strict strict_sorted_iff)

lemma sorted_list_of_fset_strict [simp]: "sorted_wrt (<) (sorted_list_of_fset S)"
  by (simp add: sorted_list_of_fset.rep_eq)

lemma sorted_list_of_fset_of_list: "sorted_list_of_fset (fset_of_list xs) = sort_dedup xs"
  by (rule strict_sorted_set_unique) (simp_all add: fset_of_list.rep_eq)

lemma sorted_list_of_fset_inj: "sorted_list_of_fset S = sorted_list_of_fset T \<longleftrightarrow> S = T"
  by (metis sorted_list_of_fset_simps(2))

lemma sorted_list_of_fset_Nil [simp]: "sorted_list_of_fset S = [] \<longleftrightarrow> S = {||}"
  by (metis bot_fset.rep_eq fset_inject set_empty sorted_list_of_fset_simps(1))

lemma sorted_list_of_fempty [simp]: "sorted_list_of_fset {||} = []"
  by simp

lemma fset_of_list_eq_empty: "fset_of_list xs = {||} \<longleftrightarrow> xs = []"
  by (cases xs) auto

lemma length_sorted_list_of_fset [simp]: "length (sorted_list_of_fset S) = fcard S"
  by (simp add: sorted_list_of_fset.rep_eq fcard.rep_eq)

end
