(* ===== verification/Core_Identity.thy ===== *)
theory Core_Identity
  imports Ledger_Prelude
begin

text \<open>
  \<^verbatim>\<open>crates/ledger-core/src/lib.rs\<close> and \<^verbatim>\<open>identity.rs\<close>: the error type, content identifiers, and the
  validated identity tokens that enter a commit envelope. SHA-256 and hex encoding come from
  third-party crates; the pair is the parameter \<open>H\<close> (bytes to the hex text of their digest), and
  \<open>hex_digest H\<close> states what the code relies on: 64 lower-case hexadecimal digits.
\<close>

section \<open>Content identifiers\<close>

datatype content_id = ContentId (cid_str: string)
datatype patch_id = PatchId (patch_cid: content_id)
datatype commit_id = CommitId (commit_cid: content_id)

instantiation content_id :: linorder
begin
definition less_eq_content_id :: "content_id \<Rightarrow> content_id \<Rightarrow> bool" where
  "less_eq_content_id a b \<longleftrightarrow> cid_str a \<le> cid_str b"
definition less_content_id :: "content_id \<Rightarrow> content_id \<Rightarrow> bool" where
  "less_content_id a b \<longleftrightarrow> cid_str a < cid_str b"
instance
  by standard (auto simp: less_eq_content_id_def less_content_id_def content_id.expand)
end

instantiation commit_id :: linorder
begin
definition less_eq_commit_id :: "commit_id \<Rightarrow> commit_id \<Rightarrow> bool" where
  "less_eq_commit_id a b \<longleftrightarrow> commit_cid a \<le> commit_cid b"
definition less_commit_id :: "commit_id \<Rightarrow> commit_id \<Rightarrow> bool" where
  "less_commit_id a b \<longleftrightarrow> commit_cid a < commit_cid b"
instance
  by standard (auto simp: less_eq_commit_id_def less_commit_id_def commit_id.expand)
end

section \<open>The error type\<close>

datatype (plugins only: code size) ledger_error =
    InvalidContentId string
  | NotFound content_id
  | MissingParent commit_id
  | MissingPatch patch_id
  | MissingTarget commit_id
  | HeadChanged "commit_id option" "commit_id option"
  | ObjectCollision content_id
  | CorruptObject content_id string
  | InvalidCommit string
  | UnknownCommitVersion string
  | InvalidIdentifier string string
  | InvalidTimestamp string
  | GraphBindingConflict commit_id string string
  | CrossGraphParent commit_id string string
  | InvalidPatch patch_id string
  | MigrationSourceMoved "commit_id option" "commit_id option"
  | LineageMismatch string
  | IdempotencyConflict
  | GraphNotActive string string
  | BaseMismatch string
  | NoEffectiveChange
  | ResourceLimit string
  | DependencyUnavailable string
  | DependencyTimeout string
  | SchemaIncompatible string
  | RuntimeIdentity string
  | ValidationRequired
  | ValidationRejected
  | ValidationStale string
  | ValidationNotFound
  | ValidatorUnavailable string
  | ValidatorError string
  | InvalidValidation string
  | BranchNotFound string
  | BranchExists string
  | BranchDeleted string
  | BranchPointUnreachable
  | BranchPolicyViolation string
  | BranchStateConflict string
  | MergeStale string
  | MergeConflict nat
  | MergeNothingToDo string
  | InvalidMergeBase string
  | GraphAlreadyExists string
  | UnknownGraph string
  | Storage string

section \<open>Parsing content identifiers\<close>

definition SHA256_PREFIX :: string where
  "SHA256_PREFIX = ''sha256:''"

definition for_bytes :: "(bytes \<Rightarrow> string) \<Rightarrow> bytes \<Rightarrow> content_id" where
  "for_bytes H bs = ContentId (SHA256_PREFIX @ H bs)"

definition digest_hex :: "content_id \<Rightarrow> string" where
  "digest_hex c = drop 7 (cid_str c)"

definition lower_hex :: "byte \<Rightarrow> bool" where
  "lower_hex b \<longleftrightarrow> is_ascii_hexdigit b \<and> \<not> is_ascii_uppercase b"

definition content_id_from_str :: "string \<Rightarrow> ledger_error + content_id" where
  "content_id_from_str value =
     (case strip_prefix SHA256_PREFIX value of
        None \<Rightarrow> Inl (InvalidContentId value)
      | Some hex_part \<Rightarrow>
          if length hex_part \<noteq> 64 \<or> \<not> list_all lower_hex hex_part
          then Inl (InvalidContentId value)
          else Inr (ContentId value))"

definition patch_id_from_str :: "string \<Rightarrow> ledger_error + patch_id" where
  "patch_id_from_str v = rbind (content_id_from_str v) (\<lambda>c. Inr (PatchId c))"

definition commit_id_from_str :: "string \<Rightarrow> ledger_error + commit_id" where
  "commit_id_from_str v = rbind (content_id_from_str v) (\<lambda>c. Inr (CommitId c))"

text \<open>Every \<open>ContentId\<close> value is built by \<open>for_bytes\<close> or by \<open>from_str\<close>; this is what both give.\<close>

definition wf_content_id :: "content_id \<Rightarrow> bool" where
  "wf_content_id c \<longleftrightarrow> content_id_from_str (cid_str c) = Inr c"

definition hex_digest :: "(bytes \<Rightarrow> string) \<Rightarrow> bool" where
  "hex_digest H \<longleftrightarrow> (\<forall>bs. length (H bs) = 64 \<and> list_all lower_hex (H bs))"

abbreviation patch_id_str :: "patch_id \<Rightarrow> string" where
  "patch_id_str p \<equiv> cid_str (patch_cid p)"

abbreviation commit_id_str :: "commit_id \<Rightarrow> string" where
  "commit_id_str c \<equiv> cid_str (commit_cid c)"

abbreviation wf_patch_id :: "patch_id \<Rightarrow> bool" where
  "wf_patch_id p \<equiv> wf_content_id (patch_cid p)"

abbreviation wf_commit_id :: "commit_id \<Rightarrow> bool" where
  "wf_commit_id c \<equiv> wf_content_id (commit_cid c)"

lemma content_id_from_str_Inr [result_simps]:
  "content_id_from_str v = Inr c \<longleftrightarrow>
     c = ContentId v \<and> (\<exists>h. v = SHA256_PREFIX @ h \<and> length h = 64 \<and> list_all lower_hex h)"
  by (auto simp: content_id_from_str_def strip_prefix_eq_Some split: option.splits if_splits)

lemma wf_content_id_iff:
  "wf_content_id c \<longleftrightarrow>
     (\<exists>h. cid_str c = SHA256_PREFIX @ h \<and> length h = 64 \<and> list_all lower_hex h)"
  by (cases c) (simp add: wf_content_id_def content_id_from_str_Inr)

lemma for_bytes_wf: "hex_digest H \<Longrightarrow> wf_content_id (for_bytes H bs)"
  by (auto simp: wf_content_id_iff for_bytes_def hex_digest_def)

lemma from_str_wf: "content_id_from_str v = Inr c \<Longrightarrow> wf_content_id c \<and> cid_str c = v"
  by (auto simp: content_id_from_str_Inr wf_content_id_iff)

lemma wf_content_id_length: "wf_content_id c \<Longrightarrow> length (cid_str c) = 71"
  by (auto simp: wf_content_id_iff SHA256_PREFIX_def)

lemma lower_hex_ascii: "lower_hex b \<Longrightarrow> code b < 128"
  by (auto simp: lower_hex_def byte_class_defs)

lemma wf_content_id_ascii: "wf_content_id c \<Longrightarrow> is_ascii (cid_str c)"
  by (auto simp: wf_content_id_iff SHA256_PREFIX_def is_ascii_def list_all_iff lower_hex_ascii)

lemma wf_content_id_utf8: "wf_content_id c \<Longrightarrow> utf8 (cid_str c)"
  by (rule ascii_utf8) (rule wf_content_id_ascii)

lemma content_id_roundtrip [codec_simps]:
  "wf_content_id c \<Longrightarrow> content_id_from_str (cid_str c) = Inr c"
  by (simp add: wf_content_id_def)

lemma patch_id_roundtrip [codec_simps]:
  "wf_patch_id p \<Longrightarrow> patch_id_from_str (patch_id_str p) = Inr p"
  by (simp add: patch_id_from_str_def content_id_roundtrip)

lemma commit_id_roundtrip [codec_simps]:
  "wf_commit_id c \<Longrightarrow> commit_id_from_str (commit_id_str c) = Inr c"
  by (simp add: commit_id_from_str_def content_id_roundtrip)

lemma patch_id_from_str_Inr:
  "patch_id_from_str v = Inr p \<Longrightarrow> wf_patch_id p \<and> patch_id_str p = v"
  by (auto simp: patch_id_from_str_def rbind_eq_Inr dest: from_str_wf)

lemma commit_id_from_str_Inr:
  "commit_id_from_str v = Inr c \<Longrightarrow> wf_commit_id c \<and> commit_id_str c = v"
  by (auto simp: commit_id_from_str_def rbind_eq_Inr dest: from_str_wf)

section \<open>Identity tokens\<close>

definition MAX_IDENTIFIER_BYTES :: nat where "MAX_IDENTIFIER_BYTES = 512"
definition MAX_GRAPH_ID_BYTES :: nat where "MAX_GRAPH_ID_BYTES = 128"
definition MAX_MESSAGE_BYTES :: nat where "MAX_MESSAGE_BYTES = 4096"
definition MAX_EVIDENCE_REFS :: nat where "MAX_EVIDENCE_REFS = 64"

lemmas max_defs =
  MAX_IDENTIFIER_BYTES_def MAX_GRAPH_ID_BYTES_def MAX_MESSAGE_BYTES_def MAX_EVIDENCE_REFS_def

definition validate_token :: "string \<Rightarrow> string \<Rightarrow> nat \<Rightarrow> ledger_error + unit" where
  "validate_token field value max_bytes =
     (if value = [] then Inl (InvalidIdentifier field ''must not be empty'')
      else if length value > max_bytes
      then Inl (InvalidIdentifier field (''exceeds '' @ show_nat max_bytes @ '' bytes''))
      else if any_control value
      then Inl (InvalidIdentifier field ''must not contain control characters'')
      else Inr ())"

definition graph_id_byte :: "byte \<Rightarrow> bool" where
  "graph_id_byte b \<longleftrightarrow> is_ascii_alphanumeric b \<or> b \<in> {CHR ''.'', CHR ''_'', CHR '':'', CHR ''-''}"

definition validate_graph_id :: "string \<Rightarrow> ledger_error + unit" where
  "validate_graph_id value =
     rbind (validate_token ''graph_id'' value MAX_GRAPH_ID_BYTES) (\<lambda>_.
       if \<not> list_all graph_id_byte value
       then Inl (InvalidIdentifier ''graph_id'' ''must match [A-Za-z0-9._:-]'')
       else Inr ())"

definition validate_tenant_id :: "string \<Rightarrow> ledger_error + unit" where
  "validate_tenant_id value = validate_token ''tenant_id'' value MAX_IDENTIFIER_BYTES"

definition validate_principal_id :: "string \<Rightarrow> ledger_error + unit" where
  "validate_principal_id value = validate_token ''principal_id'' value MAX_IDENTIFIER_BYTES"

text \<open>
  The three instances of \<open>validated_token!\<close>: a string that passed its validator. \<open>GraphId\<close> and
  \<open>PrincipalId\<close> are private-field newtypes, so every value satisfies the \<open>wf_\<close> predicate.
\<close>

datatype graph_id = GraphId (graph_str: string)
datatype tenant_id = TenantId (tenant_str: string)
datatype principal_id = PrincipalId (principal_str: string)

definition graph_id_new :: "string \<Rightarrow> ledger_error + graph_id" where
  "graph_id_new v = rbind (validate_graph_id v) (\<lambda>_. Inr (GraphId v))"

definition tenant_id_new :: "string \<Rightarrow> ledger_error + tenant_id" where
  "tenant_id_new v = rbind (validate_tenant_id v) (\<lambda>_. Inr (TenantId v))"

definition principal_id_new :: "string \<Rightarrow> ledger_error + principal_id" where
  "principal_id_new v = rbind (validate_principal_id v) (\<lambda>_. Inr (PrincipalId v))"

definition wf_graph_id :: "graph_id \<Rightarrow> bool" where
  "wf_graph_id g \<longleftrightarrow> graph_id_new (graph_str g) = Inr g"

definition wf_principal_id :: "principal_id \<Rightarrow> bool" where
  "wf_principal_id p \<longleftrightarrow> utf8 (principal_str p) \<and> principal_id_new (principal_str p) = Inr p"

definition wf_tenant_id :: "tenant_id \<Rightarrow> bool" where
  "wf_tenant_id t \<longleftrightarrow> utf8 (tenant_str t) \<and> tenant_id_new (tenant_str t) = Inr t"

lemma validate_token_Inr [result_simps]:
  "validate_token f v m = Inr u \<longleftrightarrow> v \<noteq> [] \<and> length v \<le> m \<and> \<not> any_control v"
  by (auto simp: validate_token_def)

lemma graph_id_new_Inr [result_simps]:
  "graph_id_new v = Inr g \<longleftrightarrow>
     g = GraphId v \<and> v \<noteq> [] \<and> length v \<le> 128 \<and> \<not> any_control v \<and> list_all graph_id_byte v"
  by (auto simp: graph_id_new_def validate_graph_id_def result_simps max_defs)

lemma principal_id_new_Inr [result_simps]:
  "principal_id_new v = Inr p \<longleftrightarrow>
     p = PrincipalId v \<and> v \<noteq> [] \<and> length v \<le> 512 \<and> \<not> any_control v"
  by (auto simp: principal_id_new_def validate_principal_id_def result_simps max_defs)

lemma tenant_id_new_Inr [result_simps]:
  "tenant_id_new v = Inr t \<longleftrightarrow>
     t = TenantId v \<and> v \<noteq> [] \<and> length v \<le> 512 \<and> \<not> any_control v"
  by (auto simp: tenant_id_new_def validate_tenant_id_def result_simps max_defs)

lemma graph_id_byte_ascii: "graph_id_byte b \<Longrightarrow> 32 < code b \<and> code b < 127"
  by (auto simp: graph_id_byte_def byte_class_defs)

lemma graph_id_bytes_no_control: "list_all graph_id_byte v \<Longrightarrow> is_ascii v \<and> \<not> any_control v"
proof
  assume v: "list_all graph_id_byte v"
  then show a: "is_ascii v"
    by (induction v) (auto dest: graph_id_byte_ascii)
  show "\<not> any_control v"
    using v by (auto simp: any_control_ascii [OF a] list_all_iff is_control_def dest!: graph_id_byte_ascii)
qed

lemma wf_graph_id_iff:
  "wf_graph_id g \<longleftrightarrow>
     graph_str g \<noteq> [] \<and> length (graph_str g) \<le> 128 \<and> list_all graph_id_byte (graph_str g)"
  by (cases g) (auto simp: wf_graph_id_def graph_id_new_Inr graph_id_bytes_no_control)

lemma wf_graph_id_utf8: "wf_graph_id g \<Longrightarrow> utf8 (graph_str g)"
  by (simp add: wf_graph_id_iff graph_id_bytes_no_control ascii_utf8)

lemma graph_id_roundtrip [codec_simps]: "wf_graph_id g \<Longrightarrow> graph_id_new (graph_str g) = Inr g"
  by (simp add: wf_graph_id_def)

lemma principal_id_roundtrip [codec_simps]:
  "wf_principal_id p \<Longrightarrow> principal_id_new (principal_str p) = Inr p"
  by (simp add: wf_principal_id_def)

section \<open>Principals\<close>

datatype principal_type = Human | Agent | Service

fun wire_byte :: "principal_type \<Rightarrow> byte" where
  "wire_byte Human = byte_of 0"
| "wire_byte Agent = byte_of 1"
| "wire_byte Service = byte_of 2"

definition from_wire_byte :: "byte \<Rightarrow> ledger_error + principal_type" where
  "from_wire_byte b =
     (if code b = 0 then Inr Human
      else if code b = 1 then Inr Agent
      else if code b = 2 then Inr Service
      else Inl (InvalidCommit (''unknown principal_type byte '' @ show_nat (code b))))"

fun principal_type_str :: "principal_type \<Rightarrow> string" where
  "principal_type_str Human = ''human''"
| "principal_type_str Agent = ''agent''"
| "principal_type_str Service = ''service''"

record actor =
  principal_id :: principal_id
  principal_type :: principal_type
  on_behalf_of :: "principal_id option"

record authenticated_principal =
  ap_principal_id :: principal_id
  ap_principal_type :: principal_type
  ap_tenant_id :: tenant_id
  ap_on_behalf_of :: "principal_id option"

definition actor_of :: "authenticated_principal \<Rightarrow> actor" where
  "actor_of p =
     \<lparr>principal_id = ap_principal_id p, principal_type = ap_principal_type p,
      on_behalf_of = ap_on_behalf_of p\<rparr>"

definition wf_actor :: "actor \<Rightarrow> bool" where
  "wf_actor a \<longleftrightarrow>
     wf_principal_id (principal_id a) \<and> pred_option wf_principal_id (on_behalf_of a)"

lemma from_wire_byte_wire_byte [codec_simps]: "from_wire_byte (wire_byte t) = Inr t"
  by (cases t) (simp_all add: from_wire_byte_def)

lemma from_wire_byte_Inr: "from_wire_byte b = Inr t \<longleftrightarrow> b = wire_byte t"
proof
  assume "from_wire_byte b = Inr t"
  then consider "code b = 0" "t = Human" | "code b = 1" "t = Agent" | "code b = 2" "t = Service"
    by (auto simp: from_wire_byte_def split: if_splits)
  then show "b = wire_byte t"
    by cases (metis byte_of_code wire_byte.simps)+
qed (simp add: from_wire_byte_wire_byte)

end
