(* ===== verification/Core_Codec.thy ===== *)
theory Core_Codec
  imports Core_Identity
begin

text \<open>
  The length-prefixed binary layout every canonical object of the ledger uses
  (\<^verbatim>\<open>encode_field\<close> / \<^verbatim>\<open>read_field\<close> in \<^verbatim>\<open>ledger-core/src/lib.rs\<close>, \<^verbatim>\<open>encode_optional\<close> / \<^verbatim>\<open>read_optional\<close> /
  \<^verbatim>\<open>read_u8\<close> / \<^verbatim>\<open>read_u32\<close> in \<^verbatim>\<open>commit_v2.rs\<close>). A writer returns the bytes it appends; a reader takes the
  unread bytes and returns a value and the bytes after it.

  The locale \<open>codec\<close> is the contract between a writer and its reader: what the writer emitted is
  read back, and whatever is read is what the writer emits. Counted lists are proved once in it.
\<close>

section \<open>Fields\<close>

definition encode_field :: "string \<Rightarrow> ledger_error + bytes" where
  "encode_field field =
     rbind (ok_or (InvalidCommit ''field exceeds u32'') (u32_try_from (length field)))
       (\<lambda>len. Inr (u32_to_be_bytes len @ field))"

definition read_be :: "bytes \<Rightarrow> u32" where
  "read_be rest = u32_from_be_bytes (rest ! 0) (rest ! 1) (rest ! 2) (rest ! 3)"

definition read_field :: "bytes \<Rightarrow> ledger_error + (string \<times> bytes)" where
  "read_field rest =
     (if length rest < 4 then Inl (InvalidCommit ''truncated length'')
      else let len = unat (read_be rest); rest = drop 4 rest in
        if length rest < len then Inl (InvalidCommit ''truncated field'')
        else if \<not> utf8 (take len rest) then Inl (InvalidCommit ''non-UTF-8 field'')
        else Inr (take len rest, drop len rest))"

definition read_u32 :: "string \<Rightarrow> bytes \<Rightarrow> ledger_error + (u32 \<times> bytes)" where
  "read_u32 field rest =
     (if length rest < 4 then Inl (InvalidCommit (''truncated '' @ field))
      else Inr (read_be rest, drop 4 rest))"

fun read_u8 :: "string \<Rightarrow> bytes \<Rightarrow> ledger_error + (byte \<times> bytes)" where
  "read_u8 field [] = Inl (InvalidCommit (''truncated '' @ field))"
| "read_u8 field (b # rest) = Inr (b, rest)"

definition TAG_ABSENT :: byte where "TAG_ABSENT = byte_of 0"
definition TAG_PRESENT :: byte where "TAG_PRESENT = byte_of 1"

fun encode_optional :: "string option \<Rightarrow> ledger_error + bytes" where
  "encode_optional None = Inr [TAG_ABSENT]"
| "encode_optional (Some present) =
     (if present = []
      then Inl (InvalidCommit ''optional fields are absent or non-empty, never empty'')
      else rbind (encode_field present) (\<lambda>b. Inr (TAG_PRESENT # b)))"

definition read_optional :: "string \<Rightarrow> bytes \<Rightarrow> ledger_error + (string option \<times> bytes)" where
  "read_optional field rest =
     rbind (read_u8 field rest) (\<lambda>(tag, rest).
       if tag = TAG_ABSENT then Inr (None, rest)
       else if tag = TAG_PRESENT then
         rbind (read_field rest) (\<lambda>(value, rest).
           if value = []
           then Inl (InvalidCommit (field @ '': present-but-empty is not a valid encoding''))
           else Inr (Some value, rest))
       else Inl (InvalidCommit (field @ '': unknown optional tag '' @ show_nat (code tag))))"

text \<open>\<open>for x in xs { encode(&mut out, x)?; }\<close> and \<open>for _ in 0..n { out.push(read(&mut rest)?) }\<close>.\<close>

definition encode_all :: "('a \<Rightarrow> 'e + bytes) \<Rightarrow> 'a list \<Rightarrow> 'e + bytes" where
  "encode_all enc xs = rbind (traverse_r enc xs) (\<lambda>cs. Inr (concat cs))"

fun read_n :: "(bytes \<Rightarrow> 'e + ('a \<times> bytes)) \<Rightarrow> nat \<Rightarrow> bytes \<Rightarrow> 'e + ('a list \<times> bytes)" where
  "read_n dec 0 rest = Inr ([], rest)"
| "read_n dec (Suc n) rest =
     rbind (dec rest) (\<lambda>(x, rest). rbind (read_n dec n rest) (\<lambda>(xs, rest). Inr (x # xs, rest)))"

text \<open>
  The reading loop of a set: elements must arrive in strictly ascending order of their sort key;
  \<open>prev\<close> is the key of the element read before. The key may itself be a fallible encoding.
\<close>

fun read_ascending ::
  "('a \<Rightarrow> 'e + 'k::linorder) \<Rightarrow> 'e \<Rightarrow> (bytes \<Rightarrow> 'e + ('a \<times> bytes)) \<Rightarrow> nat \<Rightarrow> 'k option \<Rightarrow> bytes
     \<Rightarrow> 'e + ('a list \<times> bytes)" where
  "read_ascending key err dec 0 prev rest = Inr ([], rest)"
| "read_ascending key err dec (Suc n) prev rest =
     rbind (dec rest) (\<lambda>(x, rest).
     rbind (key x) (\<lambda>k.
       if (case prev of None \<Rightarrow> False | Some p \<Rightarrow> k \<le> p) then Inl err
       else rbind (read_ascending key err dec n (Some k) rest) (\<lambda>(xs, rest). Inr (x # xs, rest))))"

lemma encode_all_simps [simp]:
  "encode_all enc [] = Inr []"
  "encode_all enc (x # xs) = rbind (enc x) (\<lambda>b. rbind (encode_all enc xs) (\<lambda>bs. Inr (b @ bs)))"
  by (simp_all add: encode_all_def rbind_assoc)

lemma read_ascending_Inr:
  "read_ascending key err dec n prev bs = Inr (xs, r) \<longleftrightarrow>
     (\<exists>ks. read_n dec n bs = Inr (xs, r) \<and> traverse_r key xs = Inr ks \<and>
           sorted_wrt (<) (case prev of None \<Rightarrow> ks | Some p \<Rightarrow> p # ks))"
proof (induction n arbitrary: prev bs xs)
  case 0
  then show ?case by (auto split: option.splits)
next
  case (Suc n)
  show ?case
    by (cases prev) (auto simp: rbind_eq_Inr Suc.IH not_le sorted_wrt2 simp del: sorted_wrt.simps
        split: if_splits, blast)
qed

section \<open>The contract between a writer and a reader\<close>

locale codec =
  fixes enc :: "'a \<Rightarrow> 'e + bytes"
    and dec :: "bytes \<Rightarrow> 'e + ('a \<times> bytes)"
    and wf :: "'a \<Rightarrow> bool"
  assumes read_written: "enc x = Inr b \<Longrightarrow> wf x \<Longrightarrow> dec (b @ r) = Inr (x, r)"
    and written_read: "dec bs = Inr (x, r) \<Longrightarrow> wf x \<and> (\<exists>b. enc x = Inr b \<and> bs = b @ r)"
begin

lemma read_written_all:
  "encode_all enc xs = Inr b \<Longrightarrow> list_all wf xs \<Longrightarrow> read_n dec (length xs) (b @ r) = Inr (xs, r)"
proof (induction xs arbitrary: b)
  case Nil
  then show ?case by simp
next
  case (Cons x xs)
  then obtain b1 b2 where b: "enc x = Inr b1" "encode_all enc xs = Inr b2" "b = b1 @ b2"
    by (auto simp: result_simps)
  with Cons show ?case by (simp add: read_written)
qed

lemma written_read_all:
  "read_n dec n bs = Inr (xs, r) \<Longrightarrow>
     list_all wf xs \<and> length xs = n \<and> (\<exists>b. encode_all enc xs = Inr b \<and> bs = b @ r)"
proof (induction n arbitrary: bs xs)
  case 0
  then show ?case by simp
next
  case (Suc n)
  then obtain x r' xs' where x: "dec bs = Inr (x, r')" "read_n dec n r' = Inr (xs', r)" "xs = x # xs'"
    by (auto simp: result_simps)
  from written_read [OF x(1)] obtain b1 where b1: "wf x" "enc x = Inr b1" "bs = b1 @ r'" by blast
  from Suc.IH [OF x(2)] obtain b2 where
    "list_all wf xs'" "length xs' = n" "encode_all enc xs' = Inr b2" "r' = b2 @ r" by blast
  with b1 x(3) show ?case by simp
qed

lemma enc_inj: "wf x \<Longrightarrow> wf y \<Longrightarrow> enc x = Inr b \<Longrightarrow> enc y = Inr b \<Longrightarrow> x = y"
  using read_written [of x b "[]"] read_written [of y b "[]"] by simp

end

section \<open>The field codecs keep the contract\<close>

lemma read_be_to_be [simp]: "read_be (u32_to_be_bytes w @ r) = w"
  by (simp add: read_be_def u32_to_be_bytes_def Let_def)

lemma to_be_read_be:
  assumes "4 \<le> length bs"
  shows "u32_to_be_bytes (read_be bs) @ drop 4 bs = bs"
proof -
  obtain a b c d r where "bs = a # b # c # d # r"
    using assms by (auto simp: numeral_eq_Suc Suc_le_length_iff)
  then show ?thesis by (simp add: read_be_def)
qed

lemma encode_field_Inr [result_simps]:
  "encode_field s = Inr b \<longleftrightarrow>
     length s < 2 ^ 32 \<and> b = u32_to_be_bytes (word_of_nat (length s)) @ s"
  by (auto simp: encode_field_def rbind_eq_Inr ok_or_eq_Inr u32_try_from_Some)

lemma read_field_written [codec_simps]:
  assumes "encode_field s = Inr b" and "utf8 s"
  shows "read_field (b @ r) = Inr (s, r)"
proof -
  from assms have b: "length s < 2 ^ 32" "b = u32_to_be_bytes (word_of_nat (length s)) @ s"
    by (auto simp: encode_field_Inr)
  then show ?thesis
    using assms(2) by (simp add: read_field_def unat_word_of_nat_u32 Let_def del: power_numeral)
qed

lemma written_read_field:
  assumes "read_field bs = Inr (s, r)"
  shows "utf8 s \<and> (\<exists>b. encode_field s = Inr b \<and> bs = b @ r)"
proof -
  let ?n = "unat (read_be bs)"
  from assms have l: "4 \<le> length bs" "?n \<le> length (drop 4 bs)" "utf8 s"
    "s = take ?n (drop 4 bs)" "r = drop ?n (drop 4 bs)"
    by (auto simp: read_field_def Let_def split: if_splits)
  then have len: "length s = ?n" by simp
  have n: "?n < 2 ^ 32"
    using unsigned_less [of "read_be bs", where ?'a = nat] by simp
  have "s @ r = drop 4 bs" unfolding l(4,5) by (rule append_take_drop_id)
  then have "bs = u32_to_be_bytes (read_be bs) @ s @ r"
    using to_be_read_be [OF l(1)] by simp
  then show ?thesis using l(3) n by (simp add: encode_field_Inr len)
qed

interpretation field: codec encode_field read_field utf8
  by unfold_locales (simp_all add: read_field_written written_read_field)

lemma read_u32_written [codec_simps]: "read_u32 f (u32_to_be_bytes w @ r) = Inr (w, r)"
  by (simp add: read_u32_def)

lemma written_read_u32: "read_u32 f bs = Inr (w, r) \<longleftrightarrow> bs = u32_to_be_bytes w @ r"
  by (auto simp: read_u32_def to_be_read_be not_less split: if_splits)

lemma written_read_u8: "read_u8 f bs = Inr (b, r) \<longleftrightarrow> bs = b # r"
  by (cases bs) auto

lemma TAG_distinct [simp]: "TAG_PRESENT \<noteq> TAG_ABSENT" "TAG_ABSENT \<noteq> TAG_PRESENT"
  by (simp_all add: TAG_ABSENT_def TAG_PRESENT_def)

lemma encode_optional_Inr [result_simps]:
  "encode_optional v = Inr b \<longleftrightarrow>
     (v = None \<and> b = [TAG_ABSENT] \<or>
      (\<exists>s c. v = Some s \<and> s \<noteq> [] \<and> encode_field s = Inr c \<and> b = TAG_PRESENT # c))"
  by (cases v) (auto simp: rbind_eq_Inr)

lemma read_optional_written [codec_simps]:
  "encode_optional v = Inr b \<Longrightarrow> pred_option utf8 v \<Longrightarrow> read_optional f (b @ r) = Inr (v, r)"
  by (auto simp: encode_optional_Inr read_optional_def read_field_written)

lemma written_read_optional:
  "read_optional f bs = Inr (v, r) \<Longrightarrow>
     pred_option utf8 v \<and> (\<exists>b. encode_optional v = Inr b \<and> bs = b @ r)"
  by (auto simp: read_optional_def rbind_eq_Inr written_read_u8 split: if_splits
      dest!: written_read_field)

interpretation optional: codec encode_optional "read_optional f" "pred_option utf8" for f
  by unfold_locales (simp_all add: read_optional_written written_read_optional)

end
