(* ===== verification/Core_Temporal.thy ===== *)
theory Core_Temporal
  imports Core_Identity
begin

text \<open>
  \<^verbatim>\<open>crates/ledger-core/src/temporal.rs\<close>: protocol timestamps. The calendar arithmetic and the RFC 3339
  reader belong to the third-party \<open>time\<close> crate; they are the fields of the parameter \<open>T\<close>, and
  \<open>time_crate_ok T\<close> says what the ledger relies on. The ledger's own rules (the pre-checks on the
  text, the year range, the truncation to microseconds, the one serialization) are definitions.
  Error texts keep the reason and leave out the quoted input.
\<close>

record civil =
  year :: int
  month :: nat
  day :: nat
  hour :: nat
  minute :: nat
  second :: nat
  nanosecond :: nat

record 't time_crate =
  tc_parse :: "string \<Rightarrow> string + 't"
  tc_to_utc :: "'t \<Rightarrow> civil option"
  tc_replace_nanosecond :: "civil \<Rightarrow> nat \<Rightarrow> string + civil"

datatype ledger_timestamp = LedgerTimestamp (instant: civil)

definition CANONICAL_LEN :: nat where "CANONICAL_LEN = 27"

text \<open>The components of a date-time, and what the crate's values always satisfy.\<close>

definition civil_in_range :: "civil \<Rightarrow> bool" where
  "civil_in_range c \<longleftrightarrow>
     1 \<le> month c \<and> month c \<le> 12 \<and> 1 \<le> day c \<and> day c \<le> 31 \<and> hour c < 24 \<and> minute c < 60 \<and>
     second c < 60 \<and> nanosecond c < 1000000000"

definition is_leap :: "int \<Rightarrow> bool" where
  "is_leap y \<longleftrightarrow> y mod 4 = 0 \<and> (y mod 100 \<noteq> 0 \<or> y mod 400 = 0)"

definition days_in_month :: "int \<Rightarrow> nat \<Rightarrow> nat" where
  "days_in_month y m =
     (if m = 2 then (if is_leap y then 29 else 28) else if m \<in> {4, 6, 9, 11} then 30 else 31)"

definition civil_ok :: "civil \<Rightarrow> bool" where
  "civil_ok c \<longleftrightarrow> civil_in_range c \<and> day c \<le> days_in_month (year c) (month c)"

definition wf_timestamp :: "ledger_timestamp \<Rightarrow> bool" where
  "wf_timestamp t \<longleftrightarrow>
     civil_ok (instant t) \<and> 1 \<le> year (instant t) \<and> year (instant t) \<le> 9999 \<and>
     nanosecond (instant t) mod 1000 = 0"

section \<open>The ledger's rules\<close>

definition canonical :: "ledger_timestamp \<Rightarrow> string" where
  "canonical ts =
     (let t = instant ts in
      pad_nat 4 (nat (year t)) @ ''-'' @ pad_nat 2 (month t) @ ''-'' @ pad_nat 2 (day t) @ ''T'' @
      pad_nat 2 (hour t) @ '':'' @ pad_nat 2 (minute t) @ '':'' @ pad_nat 2 (second t) @ ''.'' @
      pad_nat 6 (nanosecond t div 1000) @ ''Z'')"

definition try_from_offset_date_time :: "'t time_crate \<Rightarrow> 't \<Rightarrow> ledger_error + ledger_timestamp" where
  "try_from_offset_date_time T value =
     rbind (ok_or (InvalidTimestamp ''instant is outside the supported range'') (tc_to_utc T value))
       (\<lambda>utc.
          if \<not> (1 \<le> year utc \<and> year utc \<le> 9999)
          then Inl (InvalidTimestamp ''UTC year is outside 0001..=9999'')
          else rbind (map_err InvalidTimestamp
                        (tc_replace_nanosecond T utc (nanosecond utc div 1000 * 1000)))
                 (\<lambda>truncated. Inr (LedgerTimestamp truncated)))"

definition in_range :: "string \<Rightarrow> nat \<Rightarrow> bool" where
  "in_range part mx \<longleftrightarrow>
     length part = 2 \<and> list_all is_ascii_digit part \<and> read_nat part \<le> mx"

text \<open>The checks on the text before the crate's reader sees it, in source order.\<close>

definition precheck :: "string \<Rightarrow> ledger_error + unit" where
  "precheck input =
     (let n = length input in
      if \<not> is_ascii input then Inl (InvalidTimestamp ''must be ASCII'')
      else if n < 20 then Inl (InvalidTimestamp ''too short for an RFC 3339 date-time'')
      else if input ! 10 \<noteq> CHR ''T''
      then Inl (InvalidTimestamp ''date and time must be separated by an uppercase T'')
      else if input ! (n - 1) = CHR ''z''
      then Inl (InvalidTimestamp ''the UTC designator must be an uppercase Z'')
      else if take 2 (drop 17 input) = ''60''
      then Inl (InvalidTimestamp ''leap seconds are not representable'')
      else rbind
        (case strip_prefix ''.'' (drop 19 input) of
           None \<Rightarrow> Inr ()
         | Some fraction \<Rightarrow>
             (let digits = length (takeWhile is_ascii_digit fraction) in
              fail_if (digits = 0 \<or> digits > 9)
                (InvalidTimestamp ''fractional seconds must have 1 to 9 digits'')))
        (\<lambda>_. if input ! (n - 1) \<noteq> CHR ''Z'' then
               (if n < 6 \<or> input ! (n - 3) \<noteq> CHR '':''
                then Inl (InvalidTimestamp ''offset must be Z or +-HH:MM'')
                else if \<not> in_range (take 2 (drop (n - 5) input)) 23 \<or> \<not> in_range (drop (n - 2) input) 59
                then Inl (InvalidTimestamp ''offset hours must be 00-23 and minutes 00-59'')
                else Inr ())
             else Inr ()))"

definition parse_rfc3339 :: "'t time_crate \<Rightarrow> string \<Rightarrow> ledger_error + ledger_timestamp" where
  "parse_rfc3339 T input =
     rbind (precheck input) (\<lambda>_.
     rbind (map_err InvalidTimestamp (tc_parse T input)) (\<lambda>parsed.
     try_from_offset_date_time T parsed))"

definition parse_canonical :: "'t time_crate \<Rightarrow> string \<Rightarrow> ledger_error + ledger_timestamp" where
  "parse_canonical T input =
     rbind (parse_rfc3339 T input) (\<lambda>parsed.
       if canonical parsed \<noteq> input then Inl (InvalidTimestamp ''is not in canonical form'')
       else Inr parsed)"

text \<open>
  The crate's documented behaviour: getters of a UTC value are in calendar range,
  \<open>replace_nanosecond\<close> succeeds below one second, and the reader accepts the canonical text of any
  date-time it can represent and returns that instant.
\<close>

definition time_crate_ok :: "'t time_crate \<Rightarrow> bool" where
  "time_crate_ok T \<longleftrightarrow>
     (\<forall>d c. tc_to_utc T d = Some c \<longrightarrow> civil_ok c) \<and>
     (\<forall>c n. n < 1000000000 \<longrightarrow> tc_replace_nanosecond T c n = Inr (c\<lparr>nanosecond := n\<rparr>)) \<and>
     (\<forall>t. wf_timestamp t \<longrightarrow>
        (\<exists>d. tc_parse T (canonical t) = Inr d \<and> tc_to_utc T d = Some (instant t)))"

section \<open>Facts\<close>

lemma wf_timestamp_bounds:
  assumes "wf_timestamp (LedgerTimestamp c)"
  shows "nat (year c) < 10 ^ 4" "month c < 10 ^ 2" "day c < 10 ^ 2" "hour c < 10 ^ 2"
    "minute c < 10 ^ 2" "second c < 10 ^ 2" "nanosecond c div 1000 < 10 ^ 6"
  using assms by (auto simp: wf_timestamp_def civil_ok_def civil_in_range_def)

lemma canonical_length: "wf_timestamp t \<Longrightarrow> length (canonical t) = CANONICAL_LEN"
  by (cases t) (simp add: canonical_def Let_def CANONICAL_LEN_def
      wf_timestamp_bounds [THEN length_pad_nat])

lemma canonical_ascii: "is_ascii (canonical t)"
  by (simp add: canonical_def Let_def ascii_digits [OF pad_nat_digits])

lemma canonical_inj:
  assumes t: "wf_timestamp t" and u: "wf_timestamp u" and eq: "canonical t = canonical u"
  shows "t = u"
proof -
  obtain c d where cd: "t = LedgerTimestamp c" "u = LedgerTimestamp d"
    by (cases t, cases u) auto
  note b = wf_timestamp_bounds [OF t [unfolded cd]] wf_timestamp_bounds [OF u [unfolded cd]]
  note len = b [THEN length_pad_nat, simplified]
  from eq have "nat (year c) = nat (year d)" "month c = month d" "day c = day d"
    "hour c = hour d" "minute c = minute d" "second c = second d"
    "nanosecond c div 1000 = nanosecond d div 1000"
    unfolding cd canonical_def Let_def
    by (auto simp: append_eq_append_conv len pad_nat_inj)
  moreover have "1 \<le> year c" "1 \<le> year d" "nanosecond c mod 1000 = 0" "nanosecond d mod 1000 = 0"
    using t u by (auto simp: cd wf_timestamp_def)
  ultimately have "c = d"
    by (intro civil.equality) (auto simp: mod_eq_0_iff_dvd elim!: dvdE)
  then show ?thesis by (simp add: cd)
qed

lemma list_length_2: "length xs = 2 \<longleftrightarrow> (\<exists>a b. xs = [a, b])"
  by (auto simp: numeral_2_eq_2 length_Suc_conv)

lemma list_length_4: "length xs = 4 \<longleftrightarrow> (\<exists>a b c d. xs = [a, b, c, d])"
  by (auto simp: eval_nat_numeral length_Suc_conv)

lemma precheck_canonical:
  assumes "wf_timestamp t"
  shows "precheck (canonical t) = Inr ()"
proof -
  obtain c where c: "t = LedgerTimestamp c" by (cases t)
  note b = wf_timestamp_bounds [OF assms [unfolded c]]
  note len = b [THEN length_pad_nat, simplified]
  obtain y where y: "pad_nat 4 (nat (year c)) = y" "length y = 4" using len by blast
  obtain mo where mo: "pad_nat 2 (month c) = mo" "length mo = 2" using len by blast
  obtain da where da: "pad_nat 2 (day c) = da" "length da = 2" using len by blast
  obtain h where h: "pad_nat 2 (hour c) = h" "length h = 2" using len by blast
  obtain mi where mi: "pad_nat 2 (minute c) = mi" "length mi = 2" using len by blast
  obtain s where s: "pad_nat 2 (second c) = s" "length s = 2" using len by blast
  obtain f where f: "pad_nat 6 (nanosecond c div 1000) = f" "length f = 6" using len by blast
  have s60: "s \<noteq> ''60''"
  proof
    assume "s = ''60''"
    then have "read_nat (pad_nat 2 (second c)) = read_nat ''60''" by (simp add: s)
    then have "second c = read_nat ''60''" by simp
    then have "second c = 60" by (simp add: read_nat_def)
    with assms show False by (simp add: c wf_timestamp_def civil_ok_def civil_in_range_def)
  qed
  have tw: "takeWhile is_ascii_digit (f @ ''Z'') = f"
    using pad_nat_digits [of 6 "nanosecond c div 1000"]
    by (simp add: f takeWhile_append is_ascii_digit_def)
  have can: "canonical t = y @ ''-'' @ mo @ ''-'' @ da @ ''T'' @ h @ '':'' @ mi @ '':'' @ s @ ''.'' @ f @ ''Z''"
    by (simp add: canonical_def c y mo da h mi s f)
  have pre: "canonical t = (y @ ''-'' @ mo @ ''-'' @ da @ ''T'' @ h @ '':'' @ mi @ '':'' @ s) @ ''.'' @ f @ ''Z''"
    by (simp add: can)
  have d19: "drop 19 (canonical t) = ''.'' @ f @ ''Z''"
    by (simp add: pre y mo da h mi s)
  have d17: "take 2 (drop 17 (canonical t)) = s"
    by (simp add: pre y mo da h mi s)
  have n10: "canonical t ! 10 = CHR ''T''"
    by (simp add: can nth_append y mo da)
  have l: "length (canonical t) = 27"
    using canonical_length [OF assms] by (simp add: CANONICAL_LEN_def)
  have last: "canonical t ! 26 = CHR ''Z''"
    by (simp add: can nth_append y mo da h mi s f)
  show ?thesis
    using s60 canonical_ascii [of t]
    by (simp add: precheck_def Let_def l n10 last d17 d19 tw f)
qed

lemma parse_canonical_strict: "parse_canonical T s = Inr t \<Longrightarrow> canonical t = s"
  by (auto simp: parse_canonical_def result_simps split: if_splits)

lemma try_from_wf:
  assumes "time_crate_ok T" and "try_from_offset_date_time T d = Inr t"
  shows "wf_timestamp t"
proof -
  from assms(2) obtain c where c: "tc_to_utc T d = Some c" "1 \<le> year c" "year c \<le> 9999"
    "tc_replace_nanosecond T c (nanosecond c div 1000 * 1000) = Inr (instant t)"
    by (auto simp: try_from_offset_date_time_def result_simps split: if_splits)
  with assms(1) have ok: "civil_ok c" by (simp add: time_crate_ok_def)
  then have "nanosecond c div 1000 * 1000 < 1000000000"
    by (auto simp: civil_ok_def civil_in_range_def intro: le_less_trans [OF div_times_less_eq_dividend])
  with assms(1) c(4) have "instant t = c\<lparr>nanosecond := nanosecond c div 1000 * 1000\<rparr>"
    by (auto simp: time_crate_ok_def)
  with c ok \<open>nanosecond c div 1000 * 1000 < 1000000000\<close> show ?thesis
    by (simp add: wf_timestamp_def civil_ok_def civil_in_range_def)
qed

lemma parse_rfc3339_wf: "time_crate_ok T \<Longrightarrow> parse_rfc3339 T s = Inr t \<Longrightarrow> wf_timestamp t"
  by (auto simp: parse_rfc3339_def result_simps intro: try_from_wf)

lemma parse_canonical_wf: "time_crate_ok T \<Longrightarrow> parse_canonical T s = Inr t \<Longrightarrow> wf_timestamp t"
  by (auto simp: parse_canonical_def result_simps split: if_splits intro: parse_rfc3339_wf)

lemma parse_canonical_roundtrip [codec_simps]:
  assumes T: "time_crate_ok T" and t: "wf_timestamp t"
  shows "parse_canonical T (canonical t) = Inr t"
proof -
  from T t obtain d where d: "tc_parse T (canonical t) = Inr d" "tc_to_utc T d = Some (instant t)"
    by (auto simp: time_crate_ok_def)
  obtain c where c: "t = LedgerTimestamp c" by (cases t)
  have ns: "nanosecond c div 1000 * 1000 = nanosecond c"
    using t by (auto simp: c wf_timestamp_def mod_eq_0_iff_dvd elim!: dvdE)
  have "nanosecond c < 1000000000"
    using t by (simp add: c wf_timestamp_def civil_ok_def civil_in_range_def)
  with T ns have "tc_replace_nanosecond T c (nanosecond c div 1000 * 1000) = Inr c"
    by (simp add: time_crate_ok_def)
  then have "try_from_offset_date_time T d = Inr t"
    using d t by (simp add: try_from_offset_date_time_def c wf_timestamp_def)
  then show ?thesis
    by (simp add: parse_canonical_def parse_rfc3339_def precheck_canonical [OF t] d)
qed

section \<open>A reader of the canonical form\<close>

text \<open>
  A concrete instance of the assumed laws: it reads the 27 bytes of the canonical form by position and
  refuses every other text. The witnesses use it.
\<close>

definition civil_of_text :: "string \<Rightarrow> civil" where
  "civil_of_text s =
     \<lparr>year = int (read_nat (take 4 s)), month = read_nat (take 2 (drop 5 s)),
      day = read_nat (take 2 (drop 8 s)), hour = read_nat (take 2 (drop 11 s)),
      minute = read_nat (take 2 (drop 14 s)), second = read_nat (take 2 (drop 17 s)),
      nanosecond = read_nat (take 6 (drop 20 s)) * 1000\<rparr>"

definition canonical_reader :: "civil time_crate" where
  "canonical_reader =
     \<lparr>tc_parse = (\<lambda>s. if length s = 27 then Inr (civil_of_text s) else Inl ''length''),
      tc_to_utc = (\<lambda>c. if civil_ok c then Some c else None),
      tc_replace_nanosecond = (\<lambda>c n. Inr (c\<lparr>nanosecond := n\<rparr>))\<rparr>"

lemma civil_of_text_canonical:
  assumes "wf_timestamp t"
  shows "civil_of_text (canonical t) = instant t"
proof -
  obtain c where c: "t = LedgerTimestamp c" by (cases t)
  note len = wf_timestamp_bounds [OF assms [unfolded c], THEN length_pad_nat, simplified]
  have "nanosecond c div 1000 * 1000 = nanosecond c" "0 \<le> year c"
    using assms by (auto simp: c wf_timestamp_def)
  then show ?thesis
    by (intro civil.equality) (simp_all add: civil_of_text_def canonical_def c Let_def len)
qed

lemma canonical_reader_ok: "time_crate_ok canonical_reader"
proof -
  have "tc_parse canonical_reader (canonical t) = Inr (instant t)" "civil_ok (instant t)"
    if "wf_timestamp t" for t
    using canonical_length [OF that] civil_of_text_canonical [OF that] that
    by (simp_all add: canonical_reader_def CANONICAL_LEN_def wf_timestamp_def)
  then show ?thesis
    by (auto simp: time_crate_ok_def canonical_reader_def)
qed

section \<open>Properties\<close>

text \<open>
  C4. Timestamps have one serialization: whatever RFC 3339 text a timestamp was read from, it is a UTC
  instant in the years 1 to 9999 at microsecond precision, its canonical text has 27 ASCII bytes, the
  strict reader gets the same instant back from that text, and the strict reader accepts no other text
  for it.
\<close>

theorem timestamp_normal_form:
  assumes "time_crate_ok T" and "parse_rfc3339 T text = Inr t"
  shows "wf_timestamp t \<and> length (canonical t) = CANONICAL_LEN \<and> is_ascii (canonical t) \<and>
    (\<forall>s. parse_canonical T s = Inr t \<longleftrightarrow> s = canonical t)"
proof -
  have wf: "wf_timestamp t"
    by (rule parse_rfc3339_wf [OF assms])
  then show ?thesis
    using canonical_length [OF wf] canonical_ascii [of t] parse_canonical_roundtrip [OF assms(1) wf]
      parse_canonical_strict [of T _ t]
    by blast
qed

theorem timestamp_normal_form_witness:
  "let t = LedgerTimestamp \<lparr>year = 2026, month = 9, day = 24, hour = 10, minute = 0, second = 0,
             nanosecond = 500000000\<rparr> in
   parse_rfc3339 canonical_reader (canonical t) = Inr t \<and> length (canonical t) = 27 \<and>
   parse_canonical canonical_reader (canonical t) = Inr t"
proof -
  let ?t = "LedgerTimestamp \<lparr>year = 2026, month = 9, day = 24, hour = 10, minute = 0, second = 0,
      nanosecond = 500000000\<rparr>"
  have "wf_timestamp ?t"
    by (simp add: wf_timestamp_def civil_ok_def civil_in_range_def days_in_month_def)
  from parse_canonical_roundtrip [OF canonical_reader_ok this]
  have read: "parse_rfc3339 canonical_reader (canonical ?t) = Inr ?t"
    by (auto simp: parse_canonical_def rbind_eq_Inr split: if_splits)
  from timestamp_normal_form [OF canonical_reader_ok this] read show ?thesis
    by (simp add: CANONICAL_LEN_def)
qed

end
