(* ===== verification/Core_Commit.thy ===== *)
theory Core_Commit
  imports Core_Codec Core_Temporal
begin

text \<open>
  \<^verbatim>\<open>ledger-core/src/lib.rs\<close> (\<^verbatim>\<open>Commit\<close>) and \<^verbatim>\<open>commit_v2.rs\<close> (\<^verbatim>\<open>CommitV2\<close>, \<^verbatim>\<open>AnyCommit\<close>): the two commit
  envelopes, their canonical encoders and their strict decoders. \<open>H\<close> is the digest parameter of
  \<open>Core_Identity\<close>, \<open>T\<close> the \<open>time\<close> crate of \<open>Core_Temporal\<close>. The \<open>wf_\<close> predicates are the invariants of the
  Rust types (valid UTF-8 strings, validated identifiers): every value the crate can build has them.
\<close>

section \<open>Parents\<close>

definition encode_commit_id :: "commit_id \<Rightarrow> ledger_error + bytes" where
  "encode_commit_id c = encode_field (commit_id_str c)"

definition read_commit_id :: "bytes \<Rightarrow> ledger_error + (commit_id \<times> bytes)" where
  "read_commit_id rest =
     rbind (read_field rest) (\<lambda>(s, rest). rbind (commit_id_from_str s) (\<lambda>c. Inr (c, rest)))"

lemma read_commit_id_written:
  "encode_commit_id c = Inr b \<Longrightarrow> wf_commit_id c \<Longrightarrow> read_commit_id (b @ r) = Inr (c, r)"
  by (simp add: encode_commit_id_def read_commit_id_def read_field_written wf_content_id_utf8
      commit_id_roundtrip)

lemma written_read_commit_id:
  "read_commit_id bs = Inr (c, r) \<Longrightarrow>
     wf_commit_id c \<and> (\<exists>b. encode_commit_id c = Inr b \<and> bs = b @ r)"
  by (auto simp: read_commit_id_def encode_commit_id_def rbind_eq_Inr
      dest!: written_read_field commit_id_from_str_Inr)

interpretation parent: codec encode_commit_id read_commit_id wf_commit_id
  by unfold_locales (simp_all add: read_commit_id_written written_read_commit_id)

section \<open>The v1 envelope\<close>

record commit_v1 =
  v1_parents :: "commit_id list"
  v1_patch :: patch_id
  v1_author :: string
  v1_message :: string
  v1_event_time :: string
  v1_recorded_time :: string

definition COMMIT_V1_HEADER :: bytes where
  "COMMIT_V1_HEADER = ''sculpin-commit-v1'' @ [byte_of 0]"

definition same_parents :: "commit_id list \<Rightarrow> bool" where
  "same_parents ps \<longleftrightarrow> length ps = 2 \<and> ps ! 0 = ps ! 1"

definition v1_validate_shape :: "commit_v1 \<Rightarrow> ledger_error + unit" where
  "v1_validate_shape c =
     rbind (fail_if (length (v1_parents c) > 2)
              (InvalidCommit ''protocol v1 permits at most two parents'')) (\<lambda>_.
     fail_if (same_parents (v1_parents c)) (InvalidCommit ''merge parents must be distinct''))"

definition v1_canonical_bytes :: "commit_v1 \<Rightarrow> ledger_error + bytes" where
  "v1_canonical_bytes c =
     rbind (v1_validate_shape c) (\<lambda>_.
     rbind (encode_all encode_commit_id (v1_parents c)) (\<lambda>parents.
     rbind (encode_all encode_field
              [patch_id_str (v1_patch c), v1_author c, v1_message c, v1_event_time c,
               v1_recorded_time c]) (\<lambda>fields.
     Inr (COMMIT_V1_HEADER @ u32_to_be_bytes (word_of_nat (length (v1_parents c))) @
          parents @ fields))))"

definition v1_id :: "(bytes \<Rightarrow> string) \<Rightarrow> commit_v1 \<Rightarrow> ledger_error + commit_id" where
  "v1_id H c = rbind (v1_canonical_bytes c) (\<lambda>b. Inr (CommitId (for_bytes H b)))"

definition v1_from_canonical_bytes :: "bytes \<Rightarrow> ledger_error + commit_v1" where
  "v1_from_canonical_bytes bs =
     rbind (ok_or (InvalidCommit ''unknown header'') (strip_prefix COMMIT_V1_HEADER bs)) (\<lambda>rest.
     rbind (read_u32 ''parent count'' rest) (\<lambda>(parent_count, rest).
     rbind (fail_if (unat parent_count > 2)
              (InvalidCommit ''protocol v1 permits at most two parents'')) (\<lambda>_.
     rbind (read_n read_commit_id (unat parent_count) rest) (\<lambda>(parents, rest).
     rbind (fail_if (same_parents parents) (InvalidCommit ''merge parents must be distinct'')) (\<lambda>_.
     rbind (read_n read_field 5 rest) (\<lambda>(values, rest).
     rbind (fail_if (rest \<noteq> []) (InvalidCommit ''trailing bytes'')) (\<lambda>_.
     rbind (patch_id_from_str (values ! 0)) (\<lambda>patch.
     Inr \<lparr>v1_parents = parents, v1_patch = patch, v1_author = values ! 1, v1_message = values ! 2,
          v1_event_time = values ! 3, v1_recorded_time = values ! 4\<rparr>))))))))"

text \<open>Deserialization copies the wire fields and then validates the shape.\<close>

definition v1_deserialize :: "commit_v1 \<Rightarrow> ledger_error + commit_v1" where
  "v1_deserialize wire = rbind (v1_validate_shape wire) (\<lambda>_. Inr wire)"

definition wf_v1 :: "commit_v1 \<Rightarrow> bool" where
  "wf_v1 c \<longleftrightarrow>
     list_all wf_commit_id (v1_parents c) \<and> wf_patch_id (v1_patch c) \<and> utf8 (v1_author c) \<and>
     utf8 (v1_message c) \<and> utf8 (v1_event_time c) \<and> utf8 (v1_recorded_time c)"

section \<open>The v2 envelope\<close>

record commit_v2 =
  v2_graph_id :: graph_id
  v2_parents :: "commit_id list"
  v2_patch :: patch_id
  v2_actor :: actor
  v2_activity :: string
  v2_event_time :: "ledger_timestamp option"
  v2_recorded_at :: ledger_timestamp
  v2_evidence_refs :: "string list"
  v2_source_system :: "string option"
  v2_message :: string

definition COMMIT_V2_HEADER :: bytes where
  "COMMIT_V2_HEADER = ''sculpin-cognitive-commit-v2'' @ [byte_of 0]"

definition canonical_evidence_refs :: "commit_v2 \<Rightarrow> string list" where
  "canonical_evidence_refs c = sort_dedup (v2_evidence_refs c)"

definition v2_validate :: "commit_v2 \<Rightarrow> ledger_error + unit" where
  "v2_validate c =
     rbind (fail_if (length (v2_parents c) > 2)
              (InvalidCommit ''protocol v2 permits at most two parents'')) (\<lambda>_.
     rbind (fail_if (same_parents (v2_parents c))
              (InvalidCommit ''merge parents must be distinct'')) (\<lambda>_.
     rbind (validate_token ''activity'' (v2_activity c) MAX_IDENTIFIER_BYTES) (\<lambda>_.
     rbind (for_r (\<lambda>e. validate_token ''evidence_ref'' e MAX_IDENTIFIER_BYTES)
              (v2_evidence_refs c)) (\<lambda>_.
     rbind (fail_if (length (canonical_evidence_refs c) > MAX_EVIDENCE_REFS)
              (InvalidCommit ''more than 64 distinct evidence references'')) (\<lambda>_.
     rbind (case v2_source_system c of
              None \<Rightarrow> Inr ()
            | Some source \<Rightarrow> validate_token ''source_system'' source MAX_IDENTIFIER_BYTES) (\<lambda>_.
     fail_if (length (v2_message c) > MAX_MESSAGE_BYTES)
       (InvalidCommit ''message exceeds 4096 bytes'')))))))"

definition v2_canonical_bytes :: "commit_v2 \<Rightarrow> ledger_error + bytes" where
  "v2_canonical_bytes c =
     rbind (v2_validate c) (\<lambda>_.
     rbind (encode_field (graph_str (v2_graph_id c))) (\<lambda>graph.
     rbind (encode_all encode_commit_id (v2_parents c)) (\<lambda>parents.
     rbind (encode_field (patch_id_str (v2_patch c))) (\<lambda>patch.
     rbind (encode_field (principal_str (principal_id (v2_actor c)))) (\<lambda>principal.
     rbind (encode_optional (map_option principal_str (on_behalf_of (v2_actor c)))) (\<lambda>behalf.
     rbind (encode_field (v2_activity c)) (\<lambda>activity.
     rbind (encode_optional (map_option canonical (v2_event_time c))) (\<lambda>event_time.
     rbind (encode_field (canonical (v2_recorded_at c))) (\<lambda>recorded_at.
     rbind (encode_all encode_field (canonical_evidence_refs c)) (\<lambda>evidence.
     rbind (encode_optional (v2_source_system c)) (\<lambda>source_system.
     rbind (encode_field (v2_message c)) (\<lambda>message.
     Inr (COMMIT_V2_HEADER @ graph @
          u32_to_be_bytes (word_of_nat (length (v2_parents c))) @ parents @
          patch @ principal @ [wire_byte (principal_type (v2_actor c))] @ behalf @ activity @
          event_time @ recorded_at @
          u32_to_be_bytes (word_of_nat (length (canonical_evidence_refs c))) @ evidence @
          source_system @ message)))))))))))))"

definition v2_id :: "(bytes \<Rightarrow> string) \<Rightarrow> commit_v2 \<Rightarrow> ledger_error + commit_id" where
  "v2_id H c = rbind (v2_canonical_bytes c) (\<lambda>b. Inr (CommitId (for_bytes H b)))"

text \<open>\<open>Option::map(f).transpose()\<close>.\<close>

fun transpose_r :: "('a \<Rightarrow> 'e + 'b) \<Rightarrow> 'a option \<Rightarrow> 'e + 'b option" where
  "transpose_r f None = Inr None"
| "transpose_r f (Some x) = rbind (f x) (\<lambda>y. Inr (Some y))"

definition v2_from_canonical_bytes :: "'t time_crate \<Rightarrow> bytes \<Rightarrow> ledger_error + commit_v2" where
  "v2_from_canonical_bytes T bs =
     rbind (ok_or (InvalidCommit ''unknown header'') (strip_prefix COMMIT_V2_HEADER bs)) (\<lambda>rest.
     rbind (read_field rest) (\<lambda>(graph, rest).
     rbind (graph_id_new graph) (\<lambda>graph_id.
     rbind (read_u32 ''parent count'' rest) (\<lambda>(parent_count, rest).
     rbind (fail_if (unat parent_count > 2)
              (InvalidCommit ''protocol v2 permits at most two parents'')) (\<lambda>_.
     rbind (read_n read_commit_id (unat parent_count) rest) (\<lambda>(parents, rest).
     rbind (read_field rest) (\<lambda>(patch, rest).
     rbind (patch_id_from_str patch) (\<lambda>patch.
     rbind (read_field rest) (\<lambda>(principal, rest).
     rbind (principal_id_new principal) (\<lambda>principal_id.
     rbind (read_u8 ''principal_type'' rest) (\<lambda>(ptype, rest).
     rbind (from_wire_byte ptype) (\<lambda>principal_type.
     rbind (read_optional ''on_behalf_of'' rest) (\<lambda>(behalf, rest).
     rbind (transpose_r principal_id_new behalf) (\<lambda>on_behalf_of.
     rbind (read_field rest) (\<lambda>(activity, rest).
     rbind (read_optional ''event_time'' rest) (\<lambda>(raw, rest).
     rbind (transpose_r (parse_canonical T) raw) (\<lambda>event_time.
     rbind (read_field rest) (\<lambda>(raw_recorded, rest).
     rbind (parse_canonical T raw_recorded) (\<lambda>recorded_at.
     rbind (read_u32 ''evidence count'' rest) (\<lambda>(evidence_count, rest).
     rbind (fail_if (unat evidence_count > MAX_EVIDENCE_REFS)
              (InvalidCommit ''more than 64 evidence references'')) (\<lambda>_.
     rbind (read_ascending Inr
              (InvalidCommit ''evidence references must be strictly ascending (sorted, unique)'')
              read_field (unat evidence_count) None rest) (\<lambda>(evidence_refs, rest).
     rbind (read_optional ''source_system'' rest) (\<lambda>(source_system, rest).
     rbind (read_field rest) (\<lambda>(message, rest).
     rbind (fail_if (rest \<noteq> []) (InvalidCommit ''trailing bytes'')) (\<lambda>_.
     let commit =
       \<lparr>v2_graph_id = graph_id, v2_parents = parents, v2_patch = patch,
        v2_actor = \<lparr>principal_id = principal_id, principal_type = principal_type,
                    on_behalf_of = on_behalf_of\<rparr>,
        v2_activity = activity, v2_event_time = event_time, v2_recorded_at = recorded_at,
        v2_evidence_refs = evidence_refs, v2_source_system = source_system,
        v2_message = message\<rparr> in
     rbind (v2_validate commit) (\<lambda>_. Inr commit))))))))))))))))))))))))))"

definition v2_deserialize :: "commit_v2 \<Rightarrow> ledger_error + commit_v2" where
  "v2_deserialize wire = rbind (v2_validate wire) (\<lambda>_. Inr wire)"

definition wf_v2 :: "commit_v2 \<Rightarrow> bool" where
  "wf_v2 c \<longleftrightarrow>
     wf_graph_id (v2_graph_id c) \<and> list_all wf_commit_id (v2_parents c) \<and>
     wf_patch_id (v2_patch c) \<and> wf_actor (v2_actor c) \<and> utf8 (v2_activity c) \<and>
     pred_option wf_timestamp (v2_event_time c) \<and> wf_timestamp (v2_recorded_at c) \<and>
     list_all utf8 (v2_evidence_refs c) \<and> pred_option utf8 (v2_source_system c) \<and>
     utf8 (v2_message c)"

section \<open>Either envelope\<close>

datatype any_commit = V1 commit_v1 | V2 commit_v2

definition any_from_canonical_bytes :: "'t time_crate \<Rightarrow> bytes \<Rightarrow> ledger_error + any_commit" where
  "any_from_canonical_bytes T bs =
     (if starts_with COMMIT_V1_HEADER bs
      then rbind (v1_from_canonical_bytes bs) (\<lambda>c. Inr (V1 c))
      else if starts_with COMMIT_V2_HEADER bs
      then rbind (v2_from_canonical_bytes T bs) (\<lambda>c. Inr (V2 c))
      else Inl (UnknownCommitVersion
             (filter is_ascii_graphic (takeWhile (\<lambda>b. code b \<noteq> 0) (take 32 bs)))))"

fun version :: "any_commit \<Rightarrow> nat" where
  "version (V1 _) = 1"
| "version (V2 _) = 2"

fun any_graph_id :: "any_commit \<Rightarrow> graph_id option" where
  "any_graph_id (V1 _) = None"
| "any_graph_id (V2 c) = Some (v2_graph_id c)"

fun any_parents :: "any_commit \<Rightarrow> commit_id list" where
  "any_parents (V1 c) = v1_parents c"
| "any_parents (V2 c) = v2_parents c"

fun any_patch :: "any_commit \<Rightarrow> patch_id" where
  "any_patch (V1 c) = v1_patch c"
| "any_patch (V2 c) = v2_patch c"

fun any_canonical_bytes :: "any_commit \<Rightarrow> ledger_error + bytes" where
  "any_canonical_bytes (V1 c) = v1_canonical_bytes c"
| "any_canonical_bytes (V2 c) = v2_canonical_bytes c"

fun any_id :: "(bytes \<Rightarrow> string) \<Rightarrow> any_commit \<Rightarrow> ledger_error + commit_id" where
  "any_id H (V1 c) = v1_id H c"
| "any_id H (V2 c) = v2_id H c"

section \<open>Encoders and decoders agree\<close>

lemma u32_of_small: "n \<le> 64 \<Longrightarrow> unat (word_of_nat n :: u32) = n"
  by (rule unat_word_of_nat_u32) simp

lemma list_length_5: "length xs = 5 \<longleftrightarrow> (\<exists>a b c d e. xs = [a, b, c, d, e])"
  by (auto simp: eval_nat_numeral length_Suc_conv)

lemma v1_read_written:
  assumes wf: "wf_v1 c" and enc: "v1_canonical_bytes c = Inr bs"
  shows "v1_from_canonical_bytes bs = Inr c"
proof -
  let ?fields = "[patch_id_str (v1_patch c), v1_author c, v1_message c, v1_event_time c,
                  v1_recorded_time c]"
  from enc obtain ps fs where
    shape: "length (v1_parents c) \<le> 2" "\<not> same_parents (v1_parents c)" and
    ps: "encode_all encode_commit_id (v1_parents c) = Inr ps" and
    fs: "encode_all encode_field ?fields = Inr fs" and
    bs: "bs = COMMIT_V1_HEADER @ u32_to_be_bytes (word_of_nat (length (v1_parents c))) @ ps @ fs"
    unfolding v1_canonical_bytes_def v1_validate_shape_def
    by (auto simp only: rbind_eq_Inr fail_if_eq_Inr not_less sum.inject)
  have "list_all utf8 ?fields" using wf by (simp add: wf_v1_def wf_content_id_utf8)
  from field.read_written_all [OF fs this, of "[]"]
  have r: "read_n read_field 5 fs = Inr (?fields, [])"
    by (simp add: numeral_eq_Suc)
  have p: "read_n read_commit_id (length (v1_parents c)) (ps @ fs) = Inr (v1_parents c, fs)"
    using parent.read_written_all [OF ps] wf by (simp add: wf_v1_def)
  show ?thesis
    using wf shape by (simp add: v1_from_canonical_bytes_def bs read_u32_written u32_of_small p r
        patch_id_roundtrip wf_v1_def)
qed

lemma v1_written_read:
  assumes dec: "v1_from_canonical_bytes bs = Inr c"
  shows "wf_v1 c \<and> v1_canonical_bytes c = Inr bs"
proof -
  from dec obtain n r1 ps r2 vs patch where
    bs: "bs = COMMIT_V1_HEADER @ u32_to_be_bytes n @ r1" and n: "unat n \<le> 2" and
    ps: "read_n read_commit_id (unat n) r1 = Inr (ps, r2)" and same: "\<not> same_parents ps" and
    vs: "read_n read_field 5 r2 = Inr (vs, [])" and patch: "patch_id_from_str (vs ! 0) = Inr patch" and
    c: "c = \<lparr>v1_parents = ps, v1_patch = patch, v1_author = vs ! 1, v1_message = vs ! 2,
             v1_event_time = vs ! 3, v1_recorded_time = vs ! 4\<rparr>"
    unfolding v1_from_canonical_bytes_def
    by (auto simp: rbind_eq_Inr ok_or_eq_Inr fail_if_eq_Inr strip_prefix_eq_Some written_read_u32)
  from parent.written_read_all [OF ps] obtain pb where
    p: "list_all wf_commit_id ps" "length ps = unat n" "encode_all encode_commit_id ps = Inr pb" "r1 = pb @ r2"
    by blast
  from field.written_read_all [OF vs] obtain fb where
    f: "list_all utf8 vs" "length vs = 5" "encode_all encode_field vs = Inr fb" "r2 = fb"
    by auto
  obtain v0 v1 v2 v3 v4 where vs5: "vs = [v0, v1, v2, v3, v4]"
    using f(2) by (auto simp: list_length_5)
  have pt: "wf_patch_id patch" "patch_id_str patch = v0"
    using patch_id_from_str_Inr [OF patch] by (simp_all add: vs5)
  have "word_of_nat (length ps) = n" by (simp add: p)
  then have "v1_canonical_bytes c = Inr bs"
    using n same p f(3,4) pt(2)
    by (simp add: v1_canonical_bytes_def v1_validate_shape_def c bs vs5)
  moreover have "wf_v1 c" using p(1) f(1) pt(1) by (simp add: wf_v1_def c vs5)
  ultimately show ?thesis by simp
qed

lemma transpose_r_Inr [result_simps]:
  "transpose_r f v = Inr w \<longleftrightarrow>
     (v = None \<and> w = None \<or> (\<exists>x y. v = Some x \<and> f x = Inr y \<and> w = Some y))"
  by (cases v) (auto simp: rbind_eq_Inr)

lemma transpose_r_map:
  "(\<And>x. v = Some x \<Longrightarrow> f (g x) = Inr x) \<Longrightarrow> transpose_r f (map_option g v) = Inr v"
  by (cases v) auto

lemma traverse_r_Inr [simp]: "traverse_r Inr xs = Inr xs"
  by (induction xs) auto

lemma v2_validate_Inr:
  "v2_validate c = Inr u \<longleftrightarrow>
     length (v2_parents c) \<le> 2 \<and> \<not> same_parents (v2_parents c) \<and>
     validate_token ''activity'' (v2_activity c) MAX_IDENTIFIER_BYTES = Inr () \<and>
     (\<forall>e \<in> set (v2_evidence_refs c). validate_token ''evidence_ref'' e MAX_IDENTIFIER_BYTES = Inr ()) \<and>
     length (canonical_evidence_refs c) \<le> 64 \<and>
     (\<forall>s. v2_source_system c = Some s \<longrightarrow>
        validate_token ''source_system'' s MAX_IDENTIFIER_BYTES = Inr ()) \<and>
     length (v2_message c) \<le> 4096"
  unfolding v2_validate_def
  by (auto simp: rbind_eq_Inr fail_if_eq_Inr for_r_eq_Inr not_less MAX_EVIDENCE_REFS_def
      MAX_MESSAGE_BYTES_def split: option.splits)

text \<open>
  The chunks of a v2 envelope: what each encoder of \<open>v2_canonical_bytes\<close> appended, as one fact both
  directions of the round trip use.
\<close>

definition v2_chunks ::
  "commit_v2 \<Rightarrow> bytes \<Rightarrow> bytes \<Rightarrow> bytes \<Rightarrow> bytes \<Rightarrow> bytes \<Rightarrow> bytes \<Rightarrow> bytes \<Rightarrow> bytes \<Rightarrow> bytes \<Rightarrow> bytes \<Rightarrow> bytes \<Rightarrow> bool" where
  "v2_chunks c graph parents patch princ behalf activity event recorded evidence source message \<longleftrightarrow>
     encode_field (graph_str (v2_graph_id c)) = Inr graph \<and>
     encode_all encode_commit_id (v2_parents c) = Inr parents \<and>
     encode_field (patch_id_str (v2_patch c)) = Inr patch \<and>
     encode_field (principal_str (principal_id (v2_actor c))) = Inr princ \<and>
     encode_optional (map_option principal_str (on_behalf_of (v2_actor c))) = Inr behalf \<and>
     encode_field (v2_activity c) = Inr activity \<and>
     encode_optional (map_option canonical (v2_event_time c)) = Inr event \<and>
     encode_field (canonical (v2_recorded_at c)) = Inr recorded \<and>
     encode_all encode_field (canonical_evidence_refs c) = Inr evidence \<and>
     encode_optional (v2_source_system c) = Inr source \<and>
     encode_field (v2_message c) = Inr message"

lemma v2_canonical_bytes_Inr:
  "v2_canonical_bytes c = Inr bs \<longleftrightarrow>
     v2_validate c = Inr () \<and>
     (\<exists>graph parents patch princ behalf activity event recorded evidence source message.
        v2_chunks c graph parents patch princ behalf activity event recorded evidence source message \<and>
        bs = COMMIT_V2_HEADER @ graph @
          u32_to_be_bytes (word_of_nat (length (v2_parents c))) @ parents @
          patch @ princ @ [wire_byte (principal_type (v2_actor c))] @ behalf @ activity @
          event @ recorded @
          u32_to_be_bytes (word_of_nat (length (canonical_evidence_refs c))) @ evidence @
          source @ message)"
  unfolding v2_canonical_bytes_def v2_chunks_def by (simp only: rbind_eq_Inr sum.inject) auto

lemma list_all_sort_dedup: "list_all P (sort_dedup xs) = list_all P xs"
  by (simp add: list_all_iff)

lemma pred_option_canonical: "pred_option utf8 (map_option canonical v)"
  by (cases v) (simp_all add: ascii_utf8 canonical_ascii)

lemma v2_read_written:
  assumes T: "time_crate_ok T" and wf: "wf_v2 c" and enc: "v2_canonical_bytes c = Inr bs"
  shows "v2_from_canonical_bytes T bs = Inr (c\<lparr>v2_evidence_refs := canonical_evidence_refs c\<rparr>)"
proof -
  let ?c = "c\<lparr>v2_evidence_refs := canonical_evidence_refs c\<rparr>"
  from enc obtain graph parents patch princ behalf activity event recorded evidence source message where
    val: "v2_validate c = Inr ()" and
    ch: "v2_chunks c graph parents patch princ behalf activity event recorded evidence source message" and
    bs: "bs = COMMIT_V2_HEADER @ graph @
          u32_to_be_bytes (word_of_nat (length (v2_parents c))) @ parents @
          patch @ princ @ [wire_byte (principal_type (v2_actor c))] @ behalf @ activity @
          event @ recorded @
          u32_to_be_bytes (word_of_nat (length (canonical_evidence_refs c))) @ evidence @
          source @ message"
    unfolding v2_canonical_bytes_Inr by blast
  note ch = ch [unfolded v2_chunks_def]
  have cc: "canonical_evidence_refs ?c = canonical_evidence_refs c"
    by (simp add: canonical_evidence_refs_def sort_dedup_id)
  have val': "v2_validate ?c = Inr ()"
    using val by (auto simp: v2_validate_Inr canonical_evidence_refs_def sort_dedup_id)
  have n: "length (v2_parents c) \<le> 2" "length (canonical_evidence_refs c) \<le> 64"
    using val by (auto simp: v2_validate_Inr)
  have wfs: "wf_graph_id (v2_graph_id c)" "list_all wf_commit_id (v2_parents c)"
    "wf_patch_id (v2_patch c)" "wf_principal_id (principal_id (v2_actor c))"
    "pred_option wf_principal_id (on_behalf_of (v2_actor c))" "utf8 (v2_activity c)"
    "pred_option wf_timestamp (v2_event_time c)" "wf_timestamp (v2_recorded_at c)"
    "list_all utf8 (canonical_evidence_refs c)" "pred_option utf8 (v2_source_system c)"
    "utf8 (v2_message c)"
    using wf by (auto simp: wf_v2_def wf_actor_def canonical_evidence_refs_def list_all_sort_dedup)
  have g: "read_field (graph @ r) = Inr (graph_str (v2_graph_id c), r)" for r
    using ch wfs by (simp add: read_field_written wf_graph_id_utf8)
  have ps: "read_n read_commit_id (length (v2_parents c)) (parents @ r) = Inr (v2_parents c, r)" for r
    using ch wfs parent.read_written_all by blast
  have pt: "read_field (patch @ r) = Inr (patch_id_str (v2_patch c), r)" for r
    using ch wfs by (simp add: read_field_written wf_content_id_utf8)
  have pr: "read_field (princ @ r) = Inr (principal_str (principal_id (v2_actor c)), r)" for r
    using ch wfs by (simp add: read_field_written wf_principal_id_def)
  have be: "read_optional f (behalf @ r) = Inr (map_option principal_str (on_behalf_of (v2_actor c)), r)" for f r
    using ch wfs by (intro read_optional_written) (auto simp: option.pred_map wf_principal_id_def elim!: option.pred_mono_strong)
  have be2: "transpose_r principal_id_new (map_option principal_str (on_behalf_of (v2_actor c))) =
      Inr (on_behalf_of (v2_actor c))"
    using wfs by (intro transpose_r_map) (auto simp: principal_id_roundtrip)
  have ac: "read_field (activity @ r) = Inr (v2_activity c, r)" for r
    using ch wfs by (simp add: read_field_written)
  have ev: "read_optional f (event @ r) = Inr (map_option canonical (v2_event_time c), r)" for f r
    using ch by (intro read_optional_written) (simp_all add: pred_option_canonical)
  have ev2: "transpose_r (parse_canonical T) (map_option canonical (v2_event_time c)) = Inr (v2_event_time c)"
    using wfs T by (intro transpose_r_map) (auto simp: parse_canonical_roundtrip)
  have re: "read_field (recorded @ r) = Inr (canonical (v2_recorded_at c), r)" for r
    using ch by (simp add: read_field_written ascii_utf8 canonical_ascii)
  have evd: "read_ascending Inr e read_field (length (canonical_evidence_refs c)) None (evidence @ r) =
      Inr (canonical_evidence_refs c, r)" for e r
    using ch wfs by (simp add: read_ascending_Inr field.read_written_all canonical_evidence_refs_def)
  have so: "read_optional f (source @ r) = Inr (v2_source_system c, r)" for f r
    using ch wfs by (intro read_optional_written) auto
  have me: "read_field (message @ r) = Inr (v2_message c, r)" for r
    using ch wfs by (simp add: read_field_written)
  have lit: "\<lparr>v2_graph_id = v2_graph_id c, v2_parents = v2_parents c, v2_patch = v2_patch c,
       v2_actor = \<lparr>principal_id = principal_id (v2_actor c), principal_type = principal_type (v2_actor c),
                   on_behalf_of = on_behalf_of (v2_actor c)\<rparr>,
       v2_activity = v2_activity c, v2_event_time = v2_event_time c,
       v2_recorded_at = v2_recorded_at c, v2_evidence_refs = canonical_evidence_refs c,
       v2_source_system = v2_source_system c, v2_message = v2_message c\<rparr> = ?c"
    by simp
  show ?thesis
    unfolding v2_from_canonical_bytes_def bs
    using n wfs val' T me [of "[]"]
    by (simp add: g graph_id_roundtrip read_u32_written u32_of_small ps pt patch_id_roundtrip pr
        principal_id_roundtrip from_wire_byte_wire_byte be be2 ac ev ev2 re parse_canonical_roundtrip
        MAX_EVIDENCE_REFS_def evd so lit)
qed

lemma v2_written_read:
  assumes T: "time_crate_ok T" and dec: "v2_from_canonical_bytes T bs = Inr c"
  shows "wf_v2 c \<and> sorted_wrt (<) (v2_evidence_refs c) \<and> v2_canonical_bytes c = Inr bs"
proof -
  from dec obtain g r1 gid n r2 ps r3 p r4 pid pr r5 prid pt r6 ptype ob r7 obid ac r8 et r9 etime
      rt r10 rtime k r11 evs r12 so r13 me where
    bs: "bs = COMMIT_V2_HEADER @ g" and g: "read_field g = Inr (r1, r2)" and
    gid: "graph_id_new r1 = Inr gid" and r2: "r2 = u32_to_be_bytes n @ r3" and n: "unat n \<le> 2" and
    ps: "read_n read_commit_id (unat n) r3 = Inr (ps, r4)" and
    p: "read_field r4 = Inr (p, r5)" and pid: "patch_id_from_str p = Inr pid" and
    pr: "read_field r5 = Inr (pr, r6)" and prid: "principal_id_new pr = Inr prid" and
    pt: "r6 = pt # r7" and ptype: "from_wire_byte pt = Inr ptype" and
    ob: "read_optional ''on_behalf_of'' r7 = Inr (ob, r8)" and
    obid: "transpose_r principal_id_new ob = Inr obid" and
    ac: "read_field r8 = Inr (ac, r9)" and
    et: "read_optional ''event_time'' r9 = Inr (et, r10)" and
    etime: "transpose_r (parse_canonical T) et = Inr etime" and
    rt: "read_field r10 = Inr (rt, r11)" and rtime: "parse_canonical T rt = Inr rtime" and
    k: "r11 = u32_to_be_bytes k @ r12" and k64: "unat k \<le> 64" and
    evs: "read_ascending Inr
            (InvalidCommit ''evidence references must be strictly ascending (sorted, unique)'')
            read_field (unat k) None r12 = Inr (evs, r13)" and
    rest: "\<exists>r14. read_optional ''source_system'' r13 = Inr (so, r14) \<and> read_field r14 = Inr (me, [])" and
    c: "c = \<lparr>v2_graph_id = gid, v2_parents = ps, v2_patch = pid,
          v2_actor = \<lparr>principal_id = prid, principal_type = ptype, on_behalf_of = obid\<rparr>,
          v2_activity = ac, v2_event_time = etime, v2_recorded_at = rtime,
          v2_evidence_refs = evs, v2_source_system = so, v2_message = me\<rparr>" and
    val: "v2_validate c = Inr ()"
    unfolding v2_from_canonical_bytes_def Let_def
    by (auto simp: rbind_eq_Inr ok_or_eq_Inr fail_if_eq_Inr strip_prefix_eq_Some written_read_u32
        written_read_u8 not_less MAX_EVIDENCE_REFS_def)
  from written_read_field [OF g] obtain gb where gb: "encode_field r1 = Inr gb" "g = gb @ r2" by blast
  from parent.written_read_all [OF ps] obtain pb where
    pb: "list_all wf_commit_id ps" "length ps = unat n" "encode_all encode_commit_id ps = Inr pb" "r3 = pb @ r4"
    by blast
  from written_read_field [OF p] obtain ptb where ptb: "encode_field p = Inr ptb" "r4 = ptb @ r5" by blast
  from written_read_field [OF pr] obtain prb where
    prb: "utf8 pr" "encode_field pr = Inr prb" "r5 = prb @ r6" by blast
  from written_read_optional [OF ob] obtain obb where
    obb: "pred_option utf8 ob" "encode_optional ob = Inr obb" "r7 = obb @ r8" by blast
  from written_read_field [OF ac] obtain acb where
    acb: "utf8 ac" "encode_field ac = Inr acb" "r8 = acb @ r9" by blast
  from written_read_optional [OF et] obtain etb where
    etb: "encode_optional et = Inr etb" "r9 = etb @ r10" by blast
  from written_read_field [OF rt] obtain rtb where rtb: "encode_field rt = Inr rtb" "r10 = rtb @ r11" by blast
  from evs have evs': "read_n read_field (unat k) r12 = Inr (evs, r13)" "sorted_wrt (<) evs"
    by (auto simp: read_ascending_Inr)
  from field.written_read_all [OF evs'(1)] obtain evb where
    evb: "list_all utf8 evs" "length evs = unat k" "encode_all encode_field evs = Inr evb" "r12 = evb @ r13"
    by blast
  from rest obtain r14 where so: "read_optional ''source_system'' r13 = Inr (so, r14)" and
    me: "read_field r14 = Inr (me, [])" by blast
  from written_read_optional [OF so] obtain sob where
    sob: "pred_option utf8 so" "encode_optional so = Inr sob" "r13 = sob @ r14" by blast
  from written_read_field [OF me] obtain meb where meb: "utf8 me" "encode_field me = Inr meb" "r14 = meb" by auto
  have gid': "gid = GraphId r1" "wf_graph_id gid"
    using gid by (auto simp: graph_id_new_Inr wf_graph_id_def)
  have prid': "prid = PrincipalId pr" "wf_principal_id prid"
    using prid prb(1) by (auto simp: principal_id_new_Inr wf_principal_id_def)
  have obid': "map_option principal_str obid = ob" "pred_option wf_principal_id obid"
    using obid obb(1) by (auto simp: transpose_r_Inr principal_id_new_Inr wf_principal_id_def)
  have etime': "map_option canonical etime = et" "pred_option wf_timestamp etime"
    using etime T by (auto simp: transpose_r_Inr dest: parse_canonical_strict parse_canonical_wf)
  have rtime': "canonical rtime = rt" "wf_timestamp rtime"
    using rtime T by (auto dest: parse_canonical_strict parse_canonical_wf)
  have pid': "wf_patch_id pid" "patch_id_str pid = p"
    using patch_id_from_str_Inr [OF pid] by auto
  have ev: "canonical_evidence_refs c = evs"
    by (simp add: c canonical_evidence_refs_def sort_dedup_id evs'(2))
  have len: "word_of_nat (length ps) = n" "word_of_nat (length evs) = k"
    by (simp_all add: pb evb)
  have "v2_chunks c gb pb ptb prb obb acb etb rtb evb sob meb"
    unfolding v2_chunks_def ev
    using gb pb ptb prb obb acb etb rtb evb sob meb gid' prid' obid' etime' rtime' pid'
    by (simp add: c)
  moreover have "bs = COMMIT_V2_HEADER @ gb @
          u32_to_be_bytes (word_of_nat (length (v2_parents c))) @ pb @
          ptb @ prb @ [wire_byte (principal_type (v2_actor c))] @ obb @ acb @ etb @ rtb @
          u32_to_be_bytes (word_of_nat (length (canonical_evidence_refs c))) @ evb @ sob @ meb"
    unfolding ev using ptype
    by (simp add: c len bs gb r2 pb ptb prb pt obb acb etb rtb k evb sob meb from_wire_byte_Inr)
  ultimately have "v2_canonical_bytes c = Inr bs"
    unfolding v2_canonical_bytes_Inr using val by blast
  moreover have "wf_v2 c"
    using gid' pb prid' obid' etime' rtime' pid' acb evb sob meb
    by (simp add: wf_v2_def wf_actor_def c)
  ultimately show ?thesis using evs'(2) by (simp add: c)
qed

section \<open>Version dispatch\<close>

fun wf_any :: "any_commit \<Rightarrow> bool" where
  "wf_any (V1 c) = wf_v1 c"
| "wf_any (V2 c) = wf_v2 c"

text \<open>The commit with the evidence references in the order the encoder writes them.\<close>

fun normal_any :: "any_commit \<Rightarrow> any_commit" where
  "normal_any (V1 c) = V1 c"
| "normal_any (V2 c) = V2 (c\<lparr>v2_evidence_refs := canonical_evidence_refs c\<rparr>)"

lemma v1_bytes_header: "v1_canonical_bytes c = Inr bs \<Longrightarrow> starts_with COMMIT_V1_HEADER bs"
  by (auto simp: v1_canonical_bytes_def rbind_eq_Inr)

lemma v2_bytes_header: "v2_canonical_bytes c = Inr bs \<Longrightarrow> starts_with COMMIT_V2_HEADER bs"
  by (auto simp: v2_canonical_bytes_Inr)

lemma headers_disjoint: "starts_with COMMIT_V1_HEADER bs \<Longrightarrow> \<not> starts_with COMMIT_V2_HEADER bs"
  by (auto simp: starts_with_iff COMMIT_V1_HEADER_def COMMIT_V2_HEADER_def)

lemma any_read_written:
  "time_crate_ok T \<Longrightarrow> wf_any a \<Longrightarrow> any_canonical_bytes a = Inr bs \<Longrightarrow>
   any_from_canonical_bytes T bs = Inr (normal_any a)"
  by (cases a)
    (auto simp: any_from_canonical_bytes_def v1_read_written v2_read_written
      dest: v1_bytes_header v2_bytes_header headers_disjoint)

lemma any_written_read:
  assumes "time_crate_ok T" "any_from_canonical_bytes T bs = Inr a"
  shows "wf_any a" "normal_any a = a" "any_canonical_bytes a = Inr bs"
proof (atomize (full), cases a)
  case (V1 c)
  then show "wf_any a \<and> normal_any a = a \<and> any_canonical_bytes a = Inr bs"
    using assms(2) v1_written_read
    by (auto simp: any_from_canonical_bytes_def rbind_eq_Inr split: if_splits)
next
  case (V2 c)
  then have "v2_from_canonical_bytes T bs = Inr c"
    using assms(2) by (auto simp: any_from_canonical_bytes_def rbind_eq_Inr split: if_splits)
  from v2_written_read [OF assms(1) this]
  show "wf_any a \<and> normal_any a = a \<and> any_canonical_bytes a = Inr bs"
    by (simp add: V2 canonical_evidence_refs_def sort_dedup_id)
qed

lemma any_id_alt: "any_id H a = rbind (any_canonical_bytes a) (\<lambda>b. Inr (CommitId (for_bytes H b)))"
  by (cases a) (simp_all add: v1_id_def v2_id_def)

lemma v2_bytes_evidence_cong:
  assumes "set xs = set ys"
  shows "v2_canonical_bytes (c\<lparr>v2_evidence_refs := xs\<rparr>) = Inr bs \<longleftrightarrow>
    v2_canonical_bytes (c\<lparr>v2_evidence_refs := ys\<rparr>) = Inr bs"
proof -
  have refs: "canonical_evidence_refs (c\<lparr>v2_evidence_refs := xs\<rparr>) =
      canonical_evidence_refs (c\<lparr>v2_evidence_refs := ys\<rparr>)"
    using assms by (simp add: canonical_evidence_refs_def sort_dedup_eq_iff)
  show ?thesis
    by (simp add: v2_canonical_bytes_Inr v2_validate_Inr v2_chunks_def refs assms)
qed

section \<open>Every valid commit has an encoding\<close>

lemma encode_field_short:
  "length s \<le> 4096 \<Longrightarrow> encode_field s = Inr (u32_to_be_bytes (word_of_nat (length s)) @ s)"
  by (simp add: encode_field_def u32_try_from_def two_pow_32)

lemma encode_optional_short:
  "pred_option (\<lambda>s. s \<noteq> [] \<and> length s \<le> 4096) v \<Longrightarrow> \<exists>b. encode_optional v = Inr b"
  by (cases v) (auto simp: encode_field_short)

lemma encode_all_total: "(\<And>x. x \<in> set xs \<Longrightarrow> \<exists>b. enc x = Inr b) \<Longrightarrow> \<exists>b. encode_all enc xs = Inr b"
  unfolding encode_all_def rbind_eq_Inr traverse_r_eq_Inr
  by (induction xs) (auto simp: list_all2_Cons1)

lemma v2_encode_total:
  assumes wf: "wf_v2 c" and valid: "v2_validate c = Inr ()"
  shows "\<exists>bs. v2_canonical_bytes c = Inr bs"
proof -
  note ok = valid [unfolded v2_validate_Inr validate_token_Inr max_defs]
  have short: "\<exists>b. encode_field s = Inr b" if "length s \<le> 4096" for s
    using that by (simp add: encode_field_short)
  have graph: "length (graph_str (v2_graph_id c)) \<le> 4096"
    using wf by (auto simp: wf_v2_def wf_graph_id_def graph_id_new_Inr)
  have ids: "length (patch_id_str (v2_patch c)) \<le> 4096"
    "p \<in> set (v2_parents c) \<Longrightarrow> length (commit_id_str p) \<le> 4096" for p
    using wf by (auto simp: wf_v2_def wf_content_id_length list_all_iff)
  have actor: "length (principal_str (principal_id (v2_actor c))) \<le> 4096"
    "pred_option (\<lambda>s. s \<noteq> [] \<and> length s \<le> 4096) (map_option principal_str (on_behalf_of (v2_actor c)))"
    using wf by (auto simp: wf_v2_def wf_actor_def wf_principal_id_def principal_id_new_Inr option.pred_map
        elim!: option.pred_mono_strong)
  have times: "length (canonical (v2_recorded_at c)) \<le> 4096"
    "pred_option (\<lambda>s. s \<noteq> [] \<and> length s \<le> 4096) (map_option canonical (v2_event_time c))"
    using wf canonical_length
    by (fastforce simp: wf_v2_def option.pred_map CANONICAL_LEN_def elim!: option.pred_mono_strong)+
  have source: "pred_option (\<lambda>s. s \<noteq> [] \<and> length s \<le> 4096) (v2_source_system c)"
    using ok by (cases "v2_source_system c") auto
  have refs: "r \<in> set (canonical_evidence_refs c) \<Longrightarrow> length r \<le> 4096" for r
    using ok by (auto simp: canonical_evidence_refs_def)
  show ?thesis
    using ok valid short [OF graph] short [OF ids(1)] short [OF actor(1)] short [OF times(1)]
      short [of "v2_activity c"] short [of "v2_message c"]
      encode_optional_short [OF actor(2)] encode_optional_short [OF times(2)] encode_optional_short [OF source]
      encode_all_total [of "v2_parents c" encode_commit_id] encode_all_total [of "canonical_evidence_refs c" encode_field]
      short [OF ids(2)] short [OF refs]
    unfolding v2_canonical_bytes_Inr v2_chunks_def encode_commit_id_def by auto
qed

section \<open>A concrete commit\<close>

definition demo_id :: commit_id where
  "demo_id = CommitId (ContentId (''sha256:'' @ replicate 64 (CHR ''a'')))"

definition demo_commit :: commit_v2 where
  "demo_commit =
     \<lparr>v2_graph_id = GraphId ''g'', v2_parents = [demo_id],
      v2_patch = PatchId (ContentId (''sha256:'' @ replicate 64 (CHR ''b''))),
      v2_actor = \<lparr>principal_id = PrincipalId ''p'', principal_type = Agent, on_behalf_of = None\<rparr>,
      v2_activity = ''edit'', v2_event_time = None,
      v2_recorded_at = LedgerTimestamp \<lparr>year = 2026, month = 9, day = 24, hour = 10, minute = 0,
        second = 0, nanosecond = 0\<rparr>,
      v2_evidence_refs = [''e2'', ''e1''], v2_source_system = None, v2_message = ''m''\<rparr>"

lemma any_control_demo: "is_ascii s \<Longrightarrow> list_all (\<lambda>b. 32 \<le> code b \<and> code b < 127) s \<Longrightarrow> \<not> any_control s"
  by (auto simp: any_control_ascii list_all_iff is_control_def)

lemma demo_wf: "wf_v2 demo_commit"
  by (simp add: demo_commit_def demo_id_def wf_v2_def wf_graph_id_def graph_id_new_Inr
      wf_content_id_iff SHA256_PREFIX_def list_all_iff lower_hex_def wf_actor_def wf_principal_id_def
      principal_id_new_Inr wf_timestamp_def civil_ok_def civil_in_range_def days_in_month_def
      ascii_utf8 any_control_demo graph_id_byte_def byte_class_defs)

lemma demo_valid: "v2_validate (demo_commit\<lparr>v2_message := m\<rparr>) = Inr () \<longleftrightarrow> length m \<le> 4096"
proof -
  have "length (sort_dedup [''e2'', ''e1'']) \<le> length [''e2'', ''e1'']"
    unfolding length_sort_dedup by (rule card_length)
  then show ?thesis
    by (simp add: demo_commit_def v2_validate_Inr canonical_evidence_refs_def same_parents_def
        validate_token_Inr any_control_demo max_defs)
qed

lemma demo_encodes:
  assumes "length m \<le> 4096" "utf8 m"
  shows "\<exists>bs. v2_canonical_bytes (demo_commit\<lparr>v2_message := m\<rparr>) = Inr bs"
  using demo_wf demo_valid [of m] assms by (intro v2_encode_total) (simp_all add: wf_v2_def)

lemma demo_message: "demo_commit\<lparr>v2_message := ''m''\<rparr> = demo_commit"
  by (simp add: demo_commit_def)

section \<open>Properties\<close>

text \<open>
  C1. The dual-version commit decoder accepts exactly the canonical encodings: bytes decode to a
  commit if and only if the commit is valid, its evidence references are in canonical order, and its
  own encoder produces those bytes. So an object has one commit, a commit one object, and no byte
  string is read as both versions.
\<close>

theorem commit_decode_iff:
  assumes "time_crate_ok T"
  shows "any_from_canonical_bytes T bs = Inr a \<longleftrightarrow>
    wf_any a \<and> normal_any a = a \<and> any_canonical_bytes a = Inr bs"
  using any_read_written [OF assms, of a bs] any_written_read [OF assms, of bs a] by auto

theorem commit_decode_iff_witness:
  "\<exists>bs. any_canonical_bytes (V2 demo_commit) = Inr bs \<and>
     any_from_canonical_bytes canonical_reader bs = Inr (normal_any (V2 demo_commit))"
proof -
  obtain bs where bs: "any_canonical_bytes (V2 demo_commit) = Inr bs"
    using demo_encodes [of "''m''"] by (auto simp: demo_message ascii_utf8)
  from any_read_written [OF canonical_reader_ok _ bs]
  have "any_from_canonical_bytes canonical_reader bs = Inr (normal_any (V2 demo_commit))"
    by (simp add: demo_wf)
  with commit_decode_iff [OF canonical_reader_ok, of bs "normal_any (V2 demo_commit)"] bs
  show ?thesis by blast
qed

text \<open>
  C2. Commit identity is faithful: where the hash function does not collide on the two encodings, two
  valid commits have the same \<open>CommitId\<close> exactly when they are the same commit up to the order and
  repetition of evidence references. In particular a v1 and a v2 commit never share an identity.
\<close>

theorem commit_id_identifies:
  assumes "wf_any a" "wf_any b"
    and "any_canonical_bytes a = Inr ba" "any_canonical_bytes b = Inr bb" "inj_on H {ba, bb}"
  shows "any_id H a = any_id H b \<longleftrightarrow> normal_any a = normal_any b"
proof -
  have "any_id H a = any_id H b \<longleftrightarrow> ba = bb"
    using assms(3-5) by (auto simp: any_id_alt for_bytes_def dest: inj_onD)
  also have "\<dots> \<longleftrightarrow> normal_any a = normal_any b"
  proof
    assume "ba = bb"
    then show "normal_any a = normal_any b"
      using any_read_written [OF canonical_reader_ok assms(1,3)]
        any_read_written [OF canonical_reader_ok assms(2,4)] by simp
  next
    assume eq: "normal_any a = normal_any b"
    have "any_canonical_bytes (normal_any a) = Inr ba" "any_canonical_bytes (normal_any b) = Inr bb"
      using any_written_read(3) [OF canonical_reader_ok any_read_written [OF canonical_reader_ok]] assms(1-4)
      by blast+
    then show "ba = bb"
      using eq by simp
  qed
  finally show ?thesis .
qed

theorem commit_id_identifies_witness:
  "any_id (\<lambda>bs. bs) (V2 demo_commit) \<noteq> any_id (\<lambda>bs. bs) (V2 (demo_commit\<lparr>v2_message := ''other''\<rparr>))"
proof -
  let ?a = "V2 demo_commit" and ?b = "V2 (demo_commit\<lparr>v2_message := ''other''\<rparr>)"
  have wf: "wf_any ?a" "wf_any ?b"
    using demo_wf by (simp_all add: wf_v2_def ascii_utf8)
  then obtain ba bb where "any_canonical_bytes ?a = Inr ba" "any_canonical_bytes ?b = Inr bb"
    using demo_encodes [of "''m''"] demo_encodes [of "''other''"] by (auto simp: demo_message ascii_utf8)
  from commit_id_identifies [OF wf this, of "\<lambda>bs. bs"] show ?thesis
    by (simp add: demo_commit_def)
qed

text \<open>
  C3. The order and the repetition of evidence references in a request never reach the identity: any
  two lists with the same references give the same \<open>CommitId\<close>, and one is accepted exactly when the
  other is.
\<close>

theorem evidence_order_irrelevant:
  assumes "set xs = set ys"
  shows "v2_id H (c\<lparr>v2_evidence_refs := xs\<rparr>) = Inr i \<longleftrightarrow> v2_id H (c\<lparr>v2_evidence_refs := ys\<rparr>) = Inr i"
  using v2_bytes_evidence_cong [OF assms, of c] by (auto simp: v2_id_def rbind_eq_Inr)

theorem evidence_order_irrelevant_witness:
  "\<exists>i. v2_id (\<lambda>_. ''d'') (demo_commit\<lparr>v2_evidence_refs := [''e1'', ''e2'', ''e1'']\<rparr>) = Inr i \<and>
       v2_id (\<lambda>_. ''d'') (demo_commit\<lparr>v2_evidence_refs := [''e2'', ''e1'']\<rparr>) = Inr i"
proof -
  have "demo_commit\<lparr>v2_evidence_refs := [''e2'', ''e1'']\<rparr> = demo_commit"
    by (simp add: demo_commit_def)
  then obtain i where "v2_id (\<lambda>_. ''d'') (demo_commit\<lparr>v2_evidence_refs := [''e2'', ''e1'']\<rparr>) = Inr i"
    using demo_encodes [of "''m''"] by (auto simp: demo_message v2_id_def ascii_utf8)
  moreover have "set [''e1'', ''e2'', ''e1''] = set [''e2'', ''e1'']"
    by auto
  ultimately show ?thesis
    using evidence_order_irrelevant by blast
qed

end
