(* ===== verification/Rdf_Patch.thy ===== *)
theory Rdf_Patch
  imports Core_Identity
begin

text \<open>
  \<^verbatim>\<open>crates/ledger-rdf/src/lib.rs\<close>: quads, patches and their canonical bytes. The N-Quads grammar is the
  third-party \<open>oxttl\<close> parser and \<open>oxrdf\<close> printer: the parameter \<open>N\<close>, with \<open>nquads_ok N\<close> for what the
  ledger relies on (a printed quad is one line and reads back as itself).
\<close>

section \<open>The N-Quads library\<close>

datatype nterm = BlankTerm string | PlainTerm string
datatype ngraph = DefaultGraph | NamedGraph string | BlankGraph string

record nquad =
  nq_subject :: nterm
  nq_predicate :: string
  nq_object :: nterm
  nq_graph_name :: ngraph

record nquads =
  nq_parse :: "string \<Rightarrow> (string + nquad) list"
  nq_show :: "nquad \<Rightarrow> string"

fun nterm_str :: "nterm \<Rightarrow> string" where
  "nterm_str (BlankTerm s) = s"
| "nterm_str (PlainTerm s) = s"

fun is_blank_term :: "nterm \<Rightarrow> bool" where
  "is_blank_term (BlankTerm _) = True"
| "is_blank_term (PlainTerm _) = False"

fun is_blank_graph :: "ngraph \<Rightarrow> bool" where
  "is_blank_graph (BlankGraph _) = True"
| "is_blank_graph _ = False"

definition has_blank :: "nquad \<Rightarrow> bool" where
  "has_blank q \<longleftrightarrow>
     is_blank_term (nq_subject q) \<or> is_blank_term (nq_object q) \<or> is_blank_graph (nq_graph_name q)"

abbreviation LF :: byte where "LF \<equiv> CHR 0x0A"
abbreviation CR :: byte where "CR \<equiv> CHR 0x0D"

definition nquads_ok :: "nquads \<Rightarrow> bool" where
  "nquads_ok N \<longleftrightarrow>
     (\<forall>v q. nq_parse N v = [Inr q] \<longrightarrow>
        nq_parse N (nq_show N q @ '' .'') = [Inr q] \<and> LF \<notin> set (nq_show N q) \<and>
        utf8 (nq_show N q @ '' .''))"

section \<open>Quads\<close>

datatype rdf_error =
    InvalidQuad string
  | BlankNode
  | ConflictingOperation string
  | RdfInvalidPatch string

datatype quad = Quad (quad_str: string)

instantiation quad :: linorder
begin
definition less_eq_quad :: "quad \<Rightarrow> quad \<Rightarrow> bool" where
  "less_eq_quad a b \<longleftrightarrow> quad_str a \<le> quad_str b"
definition less_quad :: "quad \<Rightarrow> quad \<Rightarrow> bool" where
  "less_quad a b \<longleftrightarrow> quad_str a < quad_str b"
instance
  by standard (auto simp: less_eq_quad_def less_quad_def quad.expand)
end

definition quad_from_str :: "nquads \<Rightarrow> string \<Rightarrow> rdf_error + quad" where
  "quad_from_str N v =
     (case nq_parse N v of
        [] \<Rightarrow> Inl (InvalidQuad v)
      | Inl e # _ \<Rightarrow> Inl (InvalidQuad e)
      | Inr q # rest \<Rightarrow>
          if rest \<noteq> [] then Inl (InvalidQuad ''expected exactly one quad'')
          else if has_blank q then Inl BlankNode
          else Inr (Quad (nq_show N q @ '' .'')))"

text \<open>Every \<open>Quad\<close> value was built by \<open>from_str\<close>: its text is one canonical statement.\<close>

definition wf_quad :: "nquads \<Rightarrow> quad \<Rightarrow> bool" where
  "wf_quad N q \<longleftrightarrow> (\<exists>v. quad_from_str N v = Inr q)"

text \<open>
  \<open>default_graph_triple\<close>: the outer option is the panic of \<open>expect\<close>, the inner one the result.
\<close>

definition default_graph_triple :: "nquads \<Rightarrow> quad \<Rightarrow> string option option" where
  "default_graph_triple N q =
     (case nq_parse N (quad_str q) of
        [] \<Rightarrow> Some None
      | Inl _ # _ \<Rightarrow> None
      | Inr p # _ \<Rightarrow>
          Some (if nq_graph_name p = DefaultGraph
                then Some (nterm_str (nq_subject p) @ '' '' @ nq_predicate p @ '' '' @
                           nterm_str (nq_object p) @ '' .'')
                else None))"

section \<open>Operations and patches\<close>

datatype operation_kind = Add | Delete
datatype operation = Operation (op_kind: operation_kind) (op_quad: quad)
datatype patch = Patch (operations: "operation list")

fun kind_rank :: "operation_kind \<Rightarrow> nat" where
  "kind_rank Add = 0"
| "kind_rank Delete = 1"

instantiation operation_kind :: linorder
begin
definition less_eq_operation_kind :: "operation_kind \<Rightarrow> operation_kind \<Rightarrow> bool" where
  "less_eq_operation_kind a b \<longleftrightarrow> kind_rank a \<le> kind_rank b"
definition less_operation_kind :: "operation_kind \<Rightarrow> operation_kind \<Rightarrow> bool" where
  "less_operation_kind a b \<longleftrightarrow> kind_rank a < kind_rank b"
instance
proof
  fix a b :: operation_kind
  assume "a \<le> b" "b \<le> a"
  then show "a = b" by (cases a; cases b) (auto simp: less_eq_operation_kind_def)
qed (auto simp: less_eq_operation_kind_def less_operation_kind_def)
end

instantiation operation :: linorder
begin
definition less_eq_operation :: "operation \<Rightarrow> operation \<Rightarrow> bool" where
  "less_eq_operation a b \<longleftrightarrow> (op_kind a, op_quad a) \<le> (op_kind b, op_quad b)"
definition less_operation :: "operation \<Rightarrow> operation \<Rightarrow> bool" where
  "less_operation a b \<longleftrightarrow> (op_kind a, op_quad a) < (op_kind b, op_quad b)"
instance
  by standard (auto simp: less_eq_operation_def less_operation_def operation.expand)
end

text \<open>The conflict scan of \<open>Patch::new\<close>: \<open>seen\<close> remembers the kind each quad was met with.\<close>

fun scan_conflicts :: "(quad, operation_kind) fmap \<Rightarrow> operation list \<Rightarrow> rdf_error + unit" where
  "scan_conflicts seen [] = Inr ()"
| "scan_conflicts seen (op # ops) =
     (if (case fmlookup seen (op_quad op) of None \<Rightarrow> False | Some previous \<Rightarrow> previous \<noteq> op_kind op)
      then Inl (ConflictingOperation (quad_str (op_quad op)))
      else scan_conflicts (fmupd (op_quad op) (op_kind op) seen) ops)"

definition patch_new :: "operation list \<Rightarrow> rdf_error + patch" where
  "patch_new ops =
     (let sorted = sorted_list_of_fset (fset_of_list ops) in
      rbind (scan_conflicts fmempty sorted) (\<lambda>_. Inr (Patch sorted)))"

definition PATCH_HEADER :: string where
  "PATCH_HEADER = ''sculpin-rdf-patch-v1'' @ [LF]"

fun kind_tag :: "operation_kind \<Rightarrow> string" where
  "kind_tag Add = ''A''"
| "kind_tag Delete = ''D''"

definition op_line :: "operation \<Rightarrow> string" where
  "op_line op = kind_tag (op_kind op) @ '' '' @ quad_str (op_quad op)"

definition patch_canonical_bytes :: "patch \<Rightarrow> bytes" where
  "patch_canonical_bytes p = PATCH_HEADER @ concat (map (\<lambda>op. op_line op @ [LF]) (operations p))"

definition patch_id_of :: "(bytes \<Rightarrow> string) \<Rightarrow> patch \<Rightarrow> patch_id" where
  "patch_id_of H p = PatchId (for_bytes H (patch_canonical_bytes p))"

text \<open>\<open>str::lines\<close> and \<open>str::split_once(' ')\<close>.\<close>

definition strip_cr :: "string \<Rightarrow> string" where
  "strip_cr l = (if l \<noteq> [] \<and> last l = CR then butlast l else l)"

function str_lines :: "string \<Rightarrow> string list" where
  "str_lines s =
     (if s = [] then []
      else let l = takeWhile (\<lambda>b. b \<noteq> LF) s in
        if length l = length s then [l]
        else strip_cr l # str_lines (drop (Suc (length l)) s))"
  by pat_completeness auto
termination
  by (relation "measure length") (auto simp: Let_def)

declare str_lines.simps [simp del]

definition split_once_space :: "string \<Rightarrow> (string \<times> string) option" where
  "split_once_space s =
     (let l = takeWhile (\<lambda>b. b \<noteq> CHR '' '') s in
      if length l = length s then None else Some (l, drop (Suc (length l)) s))"

definition parse_op_line :: "nquads \<Rightarrow> string \<Rightarrow> rdf_error + operation" where
  "parse_op_line N line =
     rbind (ok_or (RdfInvalidPatch ''operation missing separator'') (split_once_space line)) (\<lambda>(tag, q).
     rbind (if tag = ''A'' then Inr Add else if tag = ''D'' then Inr Delete
            else Inl (RdfInvalidPatch ''unknown operation'')) (\<lambda>kind.
     rbind (quad_from_str N q) (\<lambda>quad. Inr (Operation kind quad))))"

definition patch_from_canonical_bytes :: "nquads \<Rightarrow> bytes \<Rightarrow> rdf_error + patch" where
  "patch_from_canonical_bytes N bs =
     rbind (fail_if (\<not> utf8 bs) (RdfInvalidPatch ''non-UTF-8'')) (\<lambda>_.
     rbind (ok_or (RdfInvalidPatch ''unknown header'') (strip_prefix PATCH_HEADER bs)) (\<lambda>body.
     rbind (traverse_r (parse_op_line N) (str_lines body)) (\<lambda>ops.
     rbind (patch_new ops) (\<lambda>patch.
       if patch_canonical_bytes patch \<noteq> bs
       then Inl (RdfInvalidPatch ''bytes are not canonical'') else Inr patch))))"

text \<open>Deserialization goes through \<open>new\<close>, so normalization cannot be bypassed.\<close>

definition patch_deserialize :: "operation list \<Rightarrow> rdf_error + patch" where
  "patch_deserialize wire = patch_new wire"

definition STATE_V1_HEADER :: string where
  "STATE_V1_HEADER = ''sculpin-rdf-state/v1'' @ [LF]"

definition canonical_state_bytes :: "quad fset \<Rightarrow> bytes" where
  "canonical_state_bytes state =
     STATE_V1_HEADER @ concat (map (\<lambda>q. quad_str q @ [LF]) (sorted_list_of_fset state))"

definition state_digest :: "(bytes \<Rightarrow> string) \<Rightarrow> quad fset \<Rightarrow> content_id" where
  "state_digest H state = for_bytes H (canonical_state_bytes state)"

section \<open>Invariants of patches\<close>

fun other_kind :: "operation_kind \<Rightarrow> operation_kind" where
  "other_kind Add = Delete"
| "other_kind Delete = Add"

definition conflict_free :: "operation list \<Rightarrow> bool" where
  "conflict_free ops \<longleftrightarrow> (\<forall>op \<in> set ops. Operation (other_kind (op_kind op)) (op_quad op) \<notin> set ops)"

definition wf_patch :: "patch \<Rightarrow> bool" where
  "wf_patch p \<longleftrightarrow> sorted_wrt (<) (operations p) \<and> conflict_free (operations p)"

definition wf_patch_quads :: "nquads \<Rightarrow> patch \<Rightarrow> bool" where
  "wf_patch_quads N p \<longleftrightarrow> (\<forall>op \<in> set (operations p). wf_quad N (op_quad op))"

lemma other_kind_iff: "j \<noteq> k \<longleftrightarrow> j = other_kind k"
  by (cases j; cases k) simp_all

lemma other_other_kind [simp]: "other_kind (other_kind k) = k" "other_kind k \<noteq> k"
  by (cases k; simp)+

lemma conflict_free_Nil [simp]: "conflict_free []"
  by (simp add: conflict_free_def)

lemma conflict_free_Cons:
  "conflict_free (op # ops) \<longleftrightarrow>
     conflict_free ops \<and> Operation (other_kind (op_kind op)) (op_quad op) \<notin> set ops"
proof -
  have flip: "Operation (other_kind (op_kind a)) (op_quad a) = op \<longleftrightarrow>
      a = Operation (other_kind (op_kind op)) (op_quad op)" for a
    by (cases a; cases op; cases "op_kind a"; cases "op_kind op") auto
  have "Operation (other_kind (op_kind op)) (op_quad op) \<noteq> op"
    by (cases op) auto
  then show ?thesis
    unfolding conflict_free_def by (auto simp: flip)
qed

lemma conflict_free_iff:
  "conflict_free ops \<longleftrightarrow> (\<forall>q. Operation Add q \<in> set ops \<longrightarrow> Operation Delete q \<notin> set ops)"
proof
  assume "conflict_free ops"
  then show "\<forall>q. Operation Add q \<in> set ops \<longrightarrow> Operation Delete q \<notin> set ops"
    unfolding conflict_free_def by fastforce
next
  assume apart: "\<forall>q. Operation Add q \<in> set ops \<longrightarrow> Operation Delete q \<notin> set ops"
  have "Operation (other_kind k) q \<notin> set ops" if "Operation k q \<in> set ops" for k q
    using that apart by (cases k) auto
  then show "conflict_free ops"
    unfolding conflict_free_def by simp
qed

lemma scan_conflicts_Inr:
  "scan_conflicts seen ops = Inr () \<longleftrightarrow>
     conflict_free ops \<and> (\<forall>op \<in> set ops. fmlookup seen (op_quad op) \<noteq> Some (other_kind (op_kind op)))"
proof (induction ops arbitrary: seen)
  case Nil
  then show ?case by simp
next
  case (Cons op ops)
  have met: "(case fmlookup seen (op_quad op) of None \<Rightarrow> False | Some previous \<Rightarrow> previous \<noteq> op_kind op) \<longleftrightarrow>
      fmlookup seen (op_quad op) = Some (other_kind (op_kind op))"
    by (auto simp: other_kind_iff split: option.splits)
  have step: "fmlookup (fmupd (op_quad op) (op_kind op) seen) (op_quad x) \<noteq> Some (other_kind (op_kind x)) \<longleftrightarrow>
      x \<noteq> Operation (other_kind (op_kind op)) (op_quad op) \<and>
      fmlookup seen (op_quad x) \<noteq> Some (other_kind (op_kind x))"
    if "fmlookup seen (op_quad op) \<noteq> Some (other_kind (op_kind op))" for x
    using that by (cases x; cases "op_kind op"; cases "op_kind x") auto
  show ?case
    unfolding scan_conflicts.simps met
    by (auto simp: Cons.IH conflict_free_Cons step simp del: fmupd_lookup)
qed

lemma conflict_free_set: "set xs = set ys \<Longrightarrow> conflict_free xs = conflict_free ys"
  by (simp add: conflict_free_def)

lemma patch_new_Inr:
  "patch_new ops = Inr p \<longleftrightarrow> conflict_free ops \<and> p = Patch (sort_dedup ops)"
proof -
  have "conflict_free (sort_dedup ops) = conflict_free ops"
    by (rule conflict_free_set) simp
  then show ?thesis
    by (auto simp: patch_new_def Let_def rbind_eq_Inr scan_conflicts_Inr sorted_list_of_fset_of_list)
qed

lemma patch_new_wf: "patch_new ops = Inr p \<Longrightarrow> wf_patch p"
  using conflict_free_set [of "sort_dedup ops" ops] by (simp add: patch_new_Inr wf_patch_def)

lemma patch_new_operations: "wf_patch p \<Longrightarrow> patch_new (operations p) = Inr p"
  by (cases p) (simp add: patch_new_Inr wf_patch_def sort_dedup_id)



section \<open>Lines\<close>

lemma str_lines_Nil [simp]: "str_lines [] = []"
  by (simp add: str_lines.simps)

lemma takeWhile_until: "x \<notin> set l \<Longrightarrow> takeWhile (\<lambda>b. b \<noteq> x) (l @ x # r) = l"
  by (induction l) auto

lemma str_lines_LF: "LF \<notin> set l \<Longrightarrow> str_lines (l @ LF # r) = strip_cr l # str_lines r"
  by (subst str_lines.simps) (simp add: Let_def takeWhile_until)

lemma str_lines_concat:
  "(\<And>l. l \<in> set ls \<Longrightarrow> LF \<notin> set l \<and> strip_cr l = l) \<Longrightarrow> str_lines (concat (map (\<lambda>l. l @ [LF]) ls)) = ls"
  by (induction ls) (simp_all add: str_lines_LF)

lemma split_once_space_append:
  "CHR '' '' \<notin> set t \<Longrightarrow> split_once_space (t @ CHR '' '' # r) = Some (t, r)"
  by (simp add: split_once_space_def Let_def takeWhile_until)

lemma concat_lines_inj:
  "(\<And>l. l \<in> set ks \<union> set ls \<Longrightarrow> LF \<notin> set l \<and> strip_cr l = l) \<Longrightarrow>
   concat (map (\<lambda>l. l @ [LF]) ks) = concat (map (\<lambda>l. l @ [LF]) ls) \<longleftrightarrow> ks = ls"
  by (metis UnI1 UnI2 str_lines_concat)

section \<open>Reading back what was written\<close>

lemma quad_from_str_Inr:
  "quad_from_str N v = Inr q \<longleftrightarrow>
     (\<exists>p. nq_parse N v = [Inr p] \<and> \<not> has_blank p \<and> q = Quad (nq_show N p @ '' .''))"
  by (auto simp: quad_from_str_def split: list.splits sum.splits if_splits)

lemma wf_quad_facts:
  assumes "nquads_ok N" "wf_quad N q"
  shows wf_quad_reparse: "quad_from_str N (quad_str q) = Inr q"
    and wf_quad_LF: "LF \<notin> set (quad_str q)"
    and wf_quad_last: "last (quad_str q) \<noteq> CR"
    and wf_quad_utf8: "utf8 (quad_str q)"
proof -
  obtain v p where p: "nq_parse N v = [Inr p]" "\<not> has_blank p" and q: "q = Quad (nq_show N p @ '' .'')"
    using assms(2) by (auto simp: wf_quad_def quad_from_str_Inr)
  then have ok: "nq_parse N (nq_show N p @ '' .'') = [Inr p]" "LF \<notin> set (nq_show N p)"
      "utf8 (nq_show N p @ '' .'')"
    using assms(1) unfolding nquads_ok_def by blast+
  show "quad_from_str N (quad_str q) = Inr q"
    using ok(1) p(2) by (simp add: q quad_from_str_Inr)
  show "LF \<notin> set (quad_str q)" "last (quad_str q) \<noteq> CR" "utf8 (quad_str q)"
    using ok by (auto simp: q strip_cr_def)
qed

lemma parse_op_line_op_line:
  "quad_from_str N (quad_str (op_quad op)) = Inr (op_quad op) \<Longrightarrow> parse_op_line N (op_line op) = Inr op"
  by (cases op; cases "op_kind op")
    (simp_all add: parse_op_line_def op_line_def split_once_space_append [of "''A''", simplified]
      split_once_space_append [of "''D''", simplified])

lemma parse_op_line_wf: "parse_op_line N l = Inr op \<Longrightarrow> wf_quad N (op_quad op)"
  by (auto simp: parse_op_line_def wf_quad_def result_simps)

lemma op_line_facts:
  assumes "nquads_ok N" "wf_quad N (op_quad op)"
  shows "LF \<notin> set (op_line op)" "strip_cr (op_line op) = op_line op" "utf8 (op_line op)"
    "parse_op_line N (op_line op) = Inr op"
proof -
  note quad = wf_quad_facts [OF assms]
  have tag: "utf8 (kind_tag (op_kind op) @ '' '')" "LF \<notin> set (kind_tag (op_kind op))"
    by (cases "op_kind op"; simp add: ascii_utf8)+
  show "LF \<notin> set (op_line op)" "strip_cr (op_line op) = op_line op"
    using quad(2,3) tag by (auto simp: op_line_def strip_cr_def)
  show "utf8 (op_line op)"
    using utf8_append [OF tag(1)] quad(4) by (simp add: op_line_def)
  show "parse_op_line N (op_line op) = Inr op"
    by (rule parse_op_line_op_line [OF quad(1)])
qed

lemma patch_bytes_lines:
  "patch_canonical_bytes p = PATCH_HEADER @ concat (map (\<lambda>l. l @ [LF]) (map op_line (operations p)))"
  by (simp add: patch_canonical_bytes_def comp_def)

lemma patch_bytes_utf8:
  assumes "nquads_ok N" "wf_patch_quads N p"
  shows "utf8 (patch_canonical_bytes p)"
proof -
  have "utf8 (op_line op @ [LF])" if "op \<in> set (operations p)" for op
    using that assms by (simp add: op_line_facts(3) wf_patch_quads_def ascii_utf8)
  then have "utf8 (concat (map (\<lambda>op. op_line op @ [LF]) (operations p)))"
    by (intro utf8_concat) auto
  moreover have "utf8 PATCH_HEADER"
    by (simp add: PATCH_HEADER_def ascii_utf8)
  ultimately show ?thesis
    by (simp add: patch_canonical_bytes_def)
qed

lemma patch_read_written:
  assumes "nquads_ok N" "wf_patch p" "wf_patch_quads N p"
  shows "patch_from_canonical_bytes N (patch_canonical_bytes p) = Inr p"
proof -
  note line = op_line_facts [OF assms(1), OF assms(3) [unfolded wf_patch_quads_def, rule_format]]
  have lines: "str_lines (concat (map (\<lambda>op. op_line op @ [LF]) (operations p))) = map op_line (operations p)"
    using str_lines_concat [of "map op_line (operations p)"] line(1,2) by (fastforce simp: comp_def)
  have ops: "traverse_r (parse_op_line N) (map op_line (operations p)) = Inr (operations p)"
    using line(4) by (simp add: traverse_r_eq_Inr list_all2_conv_all_nth)
  show ?thesis
    using patch_bytes_utf8 [OF assms(1,3)] lines ops patch_new_operations [OF assms(2)]
    by (simp add: patch_from_canonical_bytes_def patch_canonical_bytes_def)
qed

lemma patch_written_read:
  assumes "patch_from_canonical_bytes N bs = Inr p"
  shows "patch_canonical_bytes p = bs" "wf_patch p" "wf_patch_quads N p"
proof -
  obtain body ops where ops: "traverse_r (parse_op_line N) (str_lines body) = Inr ops"
    and new: "patch_new ops = Inr p" and same: "patch_canonical_bytes p = bs"
    using assms by (auto simp: patch_from_canonical_bytes_def result_simps split: if_splits)
  show "patch_canonical_bytes p = bs" by (rule same)
  show "wf_patch p" by (rule patch_new_wf [OF new])
  have "wf_quad N (op_quad op)" if "op \<in> set ops" for op
    using ops that by (auto simp: traverse_r_eq_Inr list_all2_conv_all_nth in_set_conv_nth parse_op_line_wf)
  then show "wf_patch_quads N p"
    using new by (auto simp: wf_patch_quads_def patch_new_Inr)
qed

lemma patch_bytes_inj:
  assumes "nquads_ok N" "wf_patch p" "wf_patch_quads N p" "wf_patch q" "wf_patch_quads N q"
    "patch_canonical_bytes p = patch_canonical_bytes q"
  shows "p = q"
  using patch_read_written [OF assms(1-3)] patch_read_written [OF assms(1,4,5)]
  unfolding assms(6) by simp

lemma canonical_state_bytes_inj:
  assumes "nquads_ok N" "\<forall>q. q |\<in>| S |\<union>| T \<longrightarrow> wf_quad N q"
  shows "canonical_state_bytes S = canonical_state_bytes T \<longleftrightarrow> S = T"
proof -
  let ?lines = "\<lambda>S. map quad_str (sorted_list_of_fset S)"
  have "canonical_state_bytes S = canonical_state_bytes T \<longleftrightarrow>
      concat (map (\<lambda>l. l @ [LF]) (?lines S)) = concat (map (\<lambda>l. l @ [LF]) (?lines T))"
    by (simp add: canonical_state_bytes_def comp_def)
  also have "\<dots> \<longleftrightarrow> ?lines S = ?lines T"
    using assms by (intro concat_lines_inj) (auto simp: wf_quad_LF wf_quad_last strip_cr_def)
  also have "\<dots> \<longleftrightarrow> S = T"
    using inj_map_eq_map [of quad_str] by (simp add: inj_def quad.expand sorted_list_of_fset_inj)
  finally show ?thesis .
qed

lemma scan_conflicts_Inl:
  "scan_conflicts seen ops = Inl e \<Longrightarrow>
   \<exists>op \<in> set ops. e = ConflictingOperation (quad_str (op_quad op)) \<and>
     (fmlookup seen (op_quad op) = Some (other_kind (op_kind op)) \<or>
      Operation (other_kind (op_kind op)) (op_quad op) \<in> set ops)"
proof (induction ops arbitrary: seen)
  case Nil
  then show ?case by simp
next
  case (Cons op ops)
  show ?case
  proof (cases "fmlookup seen (op_quad op) = Some (other_kind (op_kind op))")
    case True
    with Cons.prems show ?thesis by auto
  next
    case False
    have "\<not> (case fmlookup seen (op_quad op) of None \<Rightarrow> False | Some previous \<Rightarrow> previous \<noteq> op_kind op)"
      using False by (auto simp: other_kind_iff split: option.splits)
    then have "scan_conflicts (fmupd (op_quad op) (op_kind op) seen) ops = Inl e"
      using Cons.prems by (simp split: if_splits)
    from Cons.IH [OF this] obtain x where x: "x \<in> set ops" "e = ConflictingOperation (quad_str (op_quad x))"
      and clash: "fmlookup (fmupd (op_quad op) (op_kind op) seen) (op_quad x) = Some (other_kind (op_kind x)) \<or>
        Operation (other_kind (op_kind x)) (op_quad x) \<in> set ops"
      by blast
    have "op = Operation (other_kind (op_kind x)) (op_quad x)"
      if "op_quad x = op_quad op" "op_kind op = other_kind (op_kind x)"
      using that by (cases op) simp
    then show ?thesis
      using x clash by (auto split: if_splits)
  qed
qed

lemma patch_new_Inl:
  assumes "patch_new ops = Inl e"
  shows "\<exists>q. e = ConflictingOperation (quad_str q) \<and> Operation Add q \<in> set ops \<and> Operation Delete q \<in> set ops"
proof -
  have "scan_conflicts fmempty (sort_dedup ops) = Inl e"
    using assms by (auto simp: patch_new_def Let_def rbind_eq_Inl sorted_list_of_fset_of_list)
  then obtain k q where "Operation k q \<in> set ops" "e = ConflictingOperation (quad_str q)"
      "Operation (other_kind k) q \<in> set ops"
    using scan_conflicts_Inl by fastforce
  then show ?thesis
    by (cases k) auto
qed

section \<open>A one-quad grammar\<close>

text \<open>The smallest N-Quads library with the assumed laws; the witnesses below instantiate it.\<close>

definition demo_nquad :: nquad where
  "demo_nquad = \<lparr>nq_subject = PlainTerm ''<urn:s>'', nq_predicate = ''<urn:p>'',
     nq_object = PlainTerm ''<urn:o>'', nq_graph_name = DefaultGraph\<rparr>"

definition demo_nquads :: nquads where
  "demo_nquads =
     \<lparr>nq_parse = (\<lambda>v. if v = ''<urn:s> <urn:p> <urn:o> .'' then [Inr demo_nquad] else []),
      nq_show = (\<lambda>_. ''<urn:s> <urn:p> <urn:o>'')\<rparr>"

lemma demo_nquads_ok: "nquads_ok demo_nquads"
  by (auto simp: nquads_ok_def demo_nquads_def ascii_utf8 split: if_splits)

section \<open>Properties\<close>

text \<open>
  C5. \<open>Patch::from_canonical_bytes\<close> accepts exactly the canonical encodings of normalized patches
  over valid quads, and returns the patch that was encoded.
\<close>

theorem patch_decode_iff:
  assumes "nquads_ok N"
  shows "patch_from_canonical_bytes N bs = Inr p \<longleftrightarrow>
    wf_patch p \<and> wf_patch_quads N p \<and> patch_canonical_bytes p = bs"
  using patch_read_written [OF assms] patch_written_read by metis

theorem patch_decode_iff_witness:
  "let p = Patch [Operation Add (Quad ''<urn:s> <urn:p> <urn:o> .'')] in
   nquads_ok demo_nquads \<and> patch_from_canonical_bytes demo_nquads (patch_canonical_bytes p) = Inr p"
proof -
  let ?q = "Quad ''<urn:s> <urn:p> <urn:o> .''"
  have "quad_from_str demo_nquads (quad_str ?q) = Inr ?q"
    by code_simp
  then have "wf_patch_quads demo_nquads (Patch [Operation Add ?q])"
    by (auto simp: wf_patch_quads_def wf_quad_def)
  moreover have "wf_patch (Patch [Operation Add ?q])"
    by code_simp
  ultimately show ?thesis
    using patch_decode_iff [OF demo_nquads_ok, of "patch_canonical_bytes (Patch [Operation Add ?q])"]
      demo_nquads_ok
    by (simp add: Let_def)
qed

text \<open>
  C6. \<open>Patch::new\<close> depends only on the set of requested operations: it succeeds exactly when no quad
  is both added and deleted, then holds those operations in strictly ascending order, and otherwise
  names a quad that is both added and deleted.
\<close>

theorem patch_new_spec:
  "(if \<exists>q. Operation Add q \<in> set ops \<and> Operation Delete q \<in> set ops
    then \<exists>q. patch_new ops = Inl (ConflictingOperation (quad_str q)) \<and>
           Operation Add q \<in> set ops \<and> Operation Delete q \<in> set ops
    else \<exists>p. patch_new ops = Inr p \<and> wf_patch p \<and> set (operations p) = set ops)"
proof (cases "patch_new ops")
  case (Inl e)
  then have "\<not> conflict_free ops"
    using patch_new_Inr [of ops "Patch (sort_dedup ops)"] by auto
  then show ?thesis
    using patch_new_Inl [OF Inl] Inl by (auto simp: conflict_free_iff)
next
  case (Inr p)
  then show ?thesis
    using patch_new_wf [OF Inr] by (auto simp: patch_new_Inr conflict_free_iff)
qed

text \<open>
  C9. The candidate state digest identifies the state: where the hash function does not collide on
  the two canonical serializations, two states of valid quads have the same digest exactly when they
  are the same set of quads.
\<close>

theorem state_digest_identifies:
  assumes "nquads_ok N" and "\<And>q. q |\<in>| S |\<union>| T \<Longrightarrow> wf_quad N q"
    and "inj_on H {canonical_state_bytes S, canonical_state_bytes T}"
  shows "state_digest H S = state_digest H T \<longleftrightarrow> S = T"
proof -
  have "state_digest H S = state_digest H T \<longleftrightarrow> canonical_state_bytes S = canonical_state_bytes T"
    using assms(3) by (auto simp: state_digest_def for_bytes_def dest: inj_onD)
  then show ?thesis
    using canonical_state_bytes_inj [OF assms(1), of S T] assms(2) by blast
qed

theorem state_digest_identifies_witness:
  "let S = {|Quad ''<urn:s> <urn:p> <urn:o> .''|}; T = {||}; H = (\<lambda>bs. bs) in
   nquads_ok demo_nquads \<and> (\<forall>q. q |\<in>| S |\<union>| T \<longrightarrow> wf_quad demo_nquads q) \<and>
   state_digest H S \<noteq> state_digest H T"
proof -
  let ?q = "Quad ''<urn:s> <urn:p> <urn:o> .''"
  have "quad_from_str demo_nquads (quad_str ?q) = Inr ?q"
    by code_simp
  then have "wf_quad demo_nquads ?q"
    by (auto simp: wf_quad_def)
  then show ?thesis
    using state_digest_identifies [OF demo_nquads_ok, of "{|?q|}" "{||}" "\<lambda>bs. bs"] demo_nquads_ok
    by (simp add: Let_def)
qed

end
