(* ===== verification/Rdf_Delta.thy ===== *)
theory Rdf_Delta
  imports Rdf_Patch
begin

text \<open>
  \<^verbatim>\<open>crates/ledger-rdf/src/effective_delta.rs\<close> and \<^verbatim>\<open>crates/ledger-rdf/src/diff.rs\<close>: applying a patch to a
  state, the effective delta of a request, the difference of two states and structural keys. An \<open>expect\<close>
  of the source is an outer option whose \<open>None\<close> is the panic; the lemmas show that it never happens.
\<close>

section \<open>Applying a patch\<close>

fun apply_op :: "quad fset \<Rightarrow> operation \<Rightarrow> quad fset" where
  "apply_op state (Operation Add q) = finsert q state"
| "apply_op state (Operation Delete q) = state |-| {|q|}"

definition apply_patch :: "quad fset \<Rightarrow> patch \<Rightarrow> quad fset" where
  "apply_patch state p = foldl apply_op state (operations p)"

section \<open>The effective delta\<close>

datatype delta_policy = Strict | Permissive
datatype delta_error = BaseMismatch quad | NoEffectiveChange

fun keep_effective :: "quad fset \<Rightarrow> delta_policy \<Rightarrow> operation list \<Rightarrow> delta_error + operation list" where
  "keep_effective base policy [] = Inr []"
| "keep_effective base policy (op # ops) =
     (case (op_kind op, op_quad op |\<in>| base) of
        (Add, True) \<Rightarrow> keep_effective base policy ops
      | (Add, False) \<Rightarrow> rbind (keep_effective base policy ops) (\<lambda>kept. Inr (op # kept))
      | (Delete, True) \<Rightarrow> rbind (keep_effective base policy ops) (\<lambda>kept. Inr (op # kept))
      | (Delete, False) \<Rightarrow>
          (case policy of
             Strict \<Rightarrow> Inl (BaseMismatch (op_quad op))
           | Permissive \<Rightarrow> keep_effective base policy ops))"

fun expect_ok :: "'e + 'a \<Rightarrow> 'a option" where
  "expect_ok (Inl _) = None"
| "expect_ok (Inr x) = Some x"

definition effective_delta :: "quad fset \<Rightarrow> patch \<Rightarrow> delta_policy \<Rightarrow> (delta_error + patch) option" where
  "effective_delta base requested policy =
     (case keep_effective base policy (operations requested) of
        Inl e \<Rightarrow> Some (Inl e)
      | Inr kept \<Rightarrow>
          if kept = [] then Some (Inl NoEffectiveChange)
          else map_option Inr (expect_ok (patch_new kept)))"

section \<open>State differences\<close>

datatype structural_key =
  StructuralKey (sk_graph: "string option") (sk_subject: string) (sk_predicate: string)

instantiation structural_key :: linorder
begin
definition less_eq_structural_key :: "structural_key \<Rightarrow> structural_key \<Rightarrow> bool" where
  "less_eq_structural_key a b \<longleftrightarrow>
     (sk_graph a, sk_subject a, sk_predicate a) \<le> (sk_graph b, sk_subject b, sk_predicate b)"
definition less_structural_key :: "structural_key \<Rightarrow> structural_key \<Rightarrow> bool" where
  "less_structural_key a b \<longleftrightarrow>
     (sk_graph a, sk_subject a, sk_predicate a) < (sk_graph b, sk_subject b, sk_predicate b)"
instance
proof
  fix a b c :: structural_key
  show "a < b \<longleftrightarrow> a \<le> b \<and> \<not> b \<le> a"
    unfolding less_structural_key_def less_eq_structural_key_def by (rule less_le_not_le)
  show "a \<le> a"
    unfolding less_eq_structural_key_def by (rule order_refl)
  show "a \<le> b \<Longrightarrow> b \<le> c \<Longrightarrow> a \<le> c"
    unfolding less_eq_structural_key_def by (rule order_trans)
  show "a \<le> b \<Longrightarrow> b \<le> a \<Longrightarrow> a = b"
    unfolding less_eq_structural_key_def
    by (drule (1) order_antisym) (simp add: structural_key.expand)
  show "a \<le> b \<or> b \<le> a"
    unfolding less_eq_structural_key_def by (rule linear)
qed
end

fun ngraph_str :: "ngraph \<Rightarrow> string option" where
  "ngraph_str DefaultGraph = None"
| "ngraph_str (NamedGraph s) = Some s"
| "ngraph_str (BlankGraph s) = Some s"

definition structural_key :: "nquads \<Rightarrow> quad \<Rightarrow> structural_key option" where
  "structural_key N q =
     (case nq_parse N (quad_str q) of
        Inr p # _ \<Rightarrow>
          Some (StructuralKey (ngraph_str (nq_graph_name p)) (nterm_str (nq_subject p)) (nq_predicate p))
      | _ \<Rightarrow> None)"

definition structural_key_str :: "structural_key \<Rightarrow> string" where
  "structural_key_str k =
     (case sk_graph k of
        Some g \<Rightarrow> sk_subject k @ '' '' @ sk_predicate k @ '' '' @ g
      | None \<Rightarrow> sk_subject k @ '' '' @ sk_predicate k)"

text \<open>
  The key of a quad as the functions below use it: \<open>key\<close> is \<open>structural_key N\<close> with its panic left
  out, which \<open>structural_key_total\<close> shows to be unreachable.
\<close>

definition key_of :: "nquads \<Rightarrow> quad \<Rightarrow> structural_key" where
  "key_of N q = the (structural_key N q)"

lemma structural_key_total:
  assumes "nquads_ok N" and "wf_quad N q"
  shows "structural_key N q = Some (key_of N q)"
  using wf_quad_reparse [OF assms]
  by (auto simp: key_of_def structural_key_def quad_from_str_Inr)

record state_diff =
  deletes :: "quad fset"
  adds :: "quad fset"

record diff_summary =
  ds_adds :: nat
  ds_deletes :: nat
  ds_affected_keys :: nat
  ds_affected_subjects :: nat

definition diff_is_empty :: "state_diff \<Rightarrow> bool" where
  "diff_is_empty d \<longleftrightarrow> adds d = {||} \<and> deletes d = {||}"

definition affected_keys :: "(quad \<Rightarrow> structural_key) \<Rightarrow> state_diff \<Rightarrow> structural_key fset" where
  "affected_keys key d = key |`| (deletes d |\<union>| adds d)"

definition affected_subjects :: "(quad \<Rightarrow> structural_key) \<Rightarrow> state_diff \<Rightarrow> (string option \<times> string) fset" where
  "affected_subjects key d = (\<lambda>k. (sk_graph k, sk_subject k)) |`| affected_keys key d"

definition diff_summary_of :: "(quad \<Rightarrow> structural_key) \<Rightarrow> state_diff \<Rightarrow> diff_summary" where
  "diff_summary_of key d =
     \<lparr>ds_adds = fcard (adds d), ds_deletes = fcard (deletes d),
      ds_affected_keys = fcard (affected_keys key d),
      ds_affected_subjects = fcard (affected_subjects key d)\<rparr>"

definition to_patch :: "state_diff \<Rightarrow> patch option" where
  "to_patch d =
     expect_ok (patch_new
       (map (Operation Delete) (sorted_list_of_fset (deletes d)) @
        map (Operation Add) (sorted_list_of_fset (adds d))))"

definition diff :: "quad fset \<Rightarrow> quad fset \<Rightarrow> state_diff" where
  "diff a b = \<lparr>deletes = a |-| b, adds = b |-| a\<rparr>"

section \<open>Set semantics of patches\<close>

lemma foldl_apply_op:
  "conflict_free ops \<Longrightarrow>
   q |\<in>| foldl apply_op S ops \<longleftrightarrow>
     Operation Add q \<in> set ops \<or> (q |\<in>| S \<and> Operation Delete q \<notin> set ops)"
proof (induction ops arbitrary: S)
  case Nil
  then show ?case by simp
next
  case (Cons op ops)
  have free: "conflict_free ops" and apart: "Operation (other_kind (op_kind op)) (op_quad op) \<notin> set ops"
    using Cons.prems by (simp_all add: conflict_free_Cons)
  obtain k r where op: "op = Operation k r" by (cases op)
  show ?case
    using Cons.IH [OF free] apart by (cases k) (auto simp: op)
qed

lemma apply_patch_mem:
  "wf_patch p \<Longrightarrow>
   q |\<in>| apply_patch S p \<longleftrightarrow>
     Operation Add q \<in> set (operations p) \<or> (q |\<in>| S \<and> Operation Delete q \<notin> set (operations p))"
  by (simp add: apply_patch_def wf_patch_def foldl_apply_op)

lemma wf_patch_apart:
  "wf_patch p \<Longrightarrow> Operation Add q \<in> set (operations p) \<Longrightarrow> Operation Delete q \<notin> set (operations p)"
  by (simp add: wf_patch_def conflict_free_iff)

lemma apply_patch_idem: "wf_patch p \<Longrightarrow> apply_patch (apply_patch S p) p = apply_patch S p"
  by (auto simp: fset_eq_iff apply_patch_mem)

section \<open>Differences\<close>

definition diff_ops :: "state_diff \<Rightarrow> operation list" where
  "diff_ops d =
     map (Operation Delete) (sorted_list_of_fset (deletes d)) @
     map (Operation Add) (sorted_list_of_fset (adds d))"

lemma set_diff_ops:
  "Operation Add q \<in> set (diff_ops d) \<longleftrightarrow> q |\<in>| adds d"
  "Operation Delete q \<in> set (diff_ops d) \<longleftrightarrow> q |\<in>| deletes d"
  by (auto simp: diff_ops_def)

lemma diff_simps [simp]: "deletes (diff a b) = a |-| b" "adds (diff a b) = b |-| a"
  by (simp_all add: diff_def)

lemma to_patch_diff: "to_patch (diff a b) = Some (Patch (sort_dedup (diff_ops (diff a b))))"
proof -
  have "conflict_free (diff_ops (diff a b))"
    by (auto simp: conflict_free_iff set_diff_ops)
  then have "patch_new (diff_ops (diff a b)) = Inr (Patch (sort_dedup (diff_ops (diff a b))))"
    by (simp add: patch_new_Inr)
  then show ?thesis
    by (simp add: to_patch_def diff_ops_def)
qed

lemma to_patch_diff_mem:
  assumes "to_patch (diff a b) = Some p"
  shows "wf_patch p"
    and "Operation Add q \<in> set (operations p) \<longleftrightarrow> q |\<in>| b \<and> q |\<notin>| a"
    and "Operation Delete q \<in> set (operations p) \<longleftrightarrow> q |\<in>| a \<and> q |\<notin>| b"
proof -
  have p: "p = Patch (sort_dedup (diff_ops (diff a b)))"
    using assms by (simp add: to_patch_diff)
  have "conflict_free (sort_dedup (diff_ops (diff a b)))"
    by (auto simp: conflict_free_iff set_diff_ops)
  then show "wf_patch p"
    by (simp add: p wf_patch_def)
  show "Operation Add q \<in> set (operations p) \<longleftrightarrow> q |\<in>| b \<and> q |\<notin>| a"
    "Operation Delete q \<in> set (operations p) \<longleftrightarrow> q |\<in>| a \<and> q |\<notin>| b"
    by (simp_all add: p set_diff_ops)
qed

lemma operations_eqI:
  assumes "wf_patch p" "wf_patch r"
    and "\<And>q. Operation Add q \<in> set (operations p) \<longleftrightarrow> Operation Add q \<in> set (operations r)"
    and "\<And>q. Operation Delete q \<in> set (operations p) \<longleftrightarrow> Operation Delete q \<in> set (operations r)"
  shows "p = r"
proof -
  have "op \<in> set (operations p) \<longleftrightarrow> op \<in> set (operations r)" for op
    using assms(3,4) [of "op_quad op"] by (cases op; cases "op_kind op") auto
  then have "operations p = operations r"
    using assms(1,2) by (intro strict_sorted_set_unique) (auto simp: wf_patch_def)
  then show ?thesis
    by (simp add: patch.expand)
qed

section \<open>What the effective delta keeps\<close>

lemma keep_effective_cases:
  "keep_effective base policy ops =
     (case find (\<lambda>op. policy = Strict \<and> op_kind op = Delete \<and> op_quad op |\<notin>| base) ops of
        Some op \<Rightarrow> Inl (BaseMismatch (op_quad op))
      | None \<Rightarrow> Inr (filter (\<lambda>op. (op_kind op = Add) = (op_quad op |\<notin>| base)) ops))"
  by (induction ops)
    (auto split: option.splits operation_kind.splits delta_policy.splits bool.splits)

lemma filter_wf:
  assumes "wf_patch p"
  shows "patch_new (filter P (operations p)) = Inr (Patch (filter P (operations p)))"
proof -
  have "sorted_wrt (<) (filter P (operations p))" "conflict_free (filter P (operations p))"
    using assms by (auto simp: wf_patch_def sorted_wrt_filter conflict_free_iff)
  then show ?thesis
    by (simp add: patch_new_Inr sort_dedup_id)
qed

definition absent_deletes :: "quad fset \<Rightarrow> patch \<Rightarrow> quad fset" where
  "absent_deletes base p =
     fset_of_list (map op_quad
       (filter (\<lambda>op. op_kind op = Delete \<and> op_quad op |\<notin>| base) (operations p)))"

lemma find_filter: "find P xs = (case filter P xs of [] \<Rightarrow> None | x # _ \<Rightarrow> Some x)"
  by (induction xs) auto

lemma first_absent_delete:
  assumes "wf_patch p"
    and hit: "find (\<lambda>op. op_kind op = Delete \<and> op_quad op |\<notin>| base) (operations p) = Some op"
  shows "op_quad op = fMin (absent_deletes base p)"
proof -
  let ?P = "\<lambda>op. op_kind op = Delete \<and> op_quad op |\<notin>| base"
  obtain rest where split: "filter ?P (operations p) = op # rest"
    using hit by (auto simp: find_filter split: list.splits)
  have del: "op_kind x = Delete" if "x \<in> set (op # rest)" for x
    using that split by (metis (mono_tags, lifting) filter_eq_ConsD filter_set mem_Collect_eq set_filter)
  have "sorted_wrt (<) (op # rest)"
    using assms(1) split by (metis sorted_wrt_filter wf_patch_def)
  then have "op_quad op < op_quad x" if "x \<in> set rest" for x
    using that del [of op] del [of x] by (auto simp: less_operation_def)
  then have "fMin (absent_deletes base p) = op_quad op"
    by (intro fMin_eqI) (auto simp: absent_deletes_def split fset_of_list.rep_eq intro: less_imp_le
        simp del: fset_of_list_filter)
  then show ?thesis by simp
qed

lemma absent_deletes_empty:
  "absent_deletes base p = {||} \<longleftrightarrow>
     find (\<lambda>op. op_kind op = Delete \<and> op_quad op |\<notin>| base) (operations p) = None"
  unfolding absent_deletes_def find_filter fset_of_list_eq_empty by (auto split: list.splits)

lemma effective_ops:
  assumes "wf_patch p"
  shows "to_patch (diff base (apply_patch base p)) =
    Some (Patch (filter (\<lambda>op. (op_kind op = Add) = (op_quad op |\<notin>| base)) (operations p)))"
    (is "_ = Some (Patch ?kept)")
proof -
  obtain r where r: "to_patch (diff base (apply_patch base p)) = Some r"
    by (simp add: to_patch_diff)
  have "wf_patch (Patch ?kept)"
    using filter_wf [OF assms] by (rule patch_new_wf)
  moreover have "Operation Add q \<in> set (operations r) \<longleftrightarrow> Operation Add q \<in> set ?kept"
    "Operation Delete q \<in> set (operations r) \<longleftrightarrow> Operation Delete q \<in> set ?kept" for q
    using wf_patch_apart [OF assms, of q]
    by (auto simp: to_patch_diff_mem(2,3) [OF r] apply_patch_mem [OF assms])
  ultimately have "r = Patch ?kept"
    using to_patch_diff_mem(1) [OF r] by (intro operations_eqI) auto
  then show ?thesis
    using r by simp
qed

lemma effective_nil:
  assumes "wf_patch p"
  shows "filter (\<lambda>op. (op_kind op = Add) = (op_quad op |\<notin>| base)) (operations p) = [] \<longleftrightarrow>
    apply_patch base p = base"
proof
  assume "filter (\<lambda>op. (op_kind op = Add) = (op_quad op |\<notin>| base)) (operations p) = []"
  then have nil: "to_patch (diff base (apply_patch base p)) = Some (Patch [])"
    using effective_ops [OF assms, of base] by simp
  show "apply_patch base p = base"
    using to_patch_diff_mem(2,3) [OF nil] by (auto simp: fset_eq_iff)
next
  assume same: "apply_patch base p = base"
  have "to_patch (diff base base) = Some (Patch [])"
    by (simp add: to_patch_diff diff_ops_def sort_dedup_id)
  then show "filter (\<lambda>op. (op_kind op = Add) = (op_quad op |\<notin>| base)) (operations p) = []"
    using effective_ops [OF assms, of base] same by simp
qed

section \<open>Properties\<close>

text \<open>
  C7. What \<open>effective_delta\<close> returns on every branch. For a normalized request it never panics; under
  \<open>Strict\<close> the least deleted quad that the base lacks is reported as \<open>BaseMismatch\<close>; a request that
  replays to the base itself is \<open>NoEffectiveChange\<close>; and otherwise the persisted patch is exactly the
  patch of the difference between the base and the state the request replays to.
\<close>

theorem effective_delta_spec:
  assumes "wf_patch requested"
  shows "effective_delta base requested policy =
    (if policy = Strict \<and> absent_deletes base requested \<noteq> {||}
     then Some (Inl (BaseMismatch (fMin (absent_deletes base requested))))
     else if apply_patch base requested = base then Some (Inl NoEffectiveChange)
     else map_option Inr (to_patch (diff base (apply_patch base requested))))"
proof (cases "policy = Strict \<and> absent_deletes base requested \<noteq> {||}")
  case True
  then obtain op where
    hit: "find (\<lambda>op. op_kind op = Delete \<and> op_quad op |\<notin>| base) (operations requested) = Some op"
    by (auto simp: absent_deletes_empty)
  then show ?thesis
    using True first_absent_delete [OF assms hit]
    by (simp add: effective_delta_def keep_effective_cases)
next
  case False
  then have "find (\<lambda>op. policy = Strict \<and> op_kind op = Delete \<and> op_quad op |\<notin>| base)
      (operations requested) = None"
    by (cases policy) (auto simp: absent_deletes_empty find_None_iff)
  then show ?thesis
    using False effective_nil [OF assms, of base] effective_ops [OF assms, of base]
    by (auto simp: effective_delta_def keep_effective_cases filter_wf [OF assms])
qed

theorem effective_delta_spec_witness:
  "let a = Quad ''<urn:a> <urn:p> <urn:o> .''; b = Quad ''<urn:b> <urn:p> <urn:o> .'';
       request = Patch [Operation Add a, Operation Delete b] in
   wf_patch request \<and>
   effective_delta {|a, b|} request Strict = Some (Inr (Patch [Operation Delete b])) \<and>
   effective_delta {|a|} request Strict = Some (Inl (BaseMismatch b))"
proof -
  let ?a = "Quad ''<urn:a> <urn:p> <urn:o> .''" and ?b = "Quad ''<urn:b> <urn:p> <urn:o> .''"
  let ?request = "Patch [Operation Add ?a, Operation Delete ?b]"
  have wf: "wf_patch ?request" by code_simp
  have "effective_delta {|?a, ?b|} ?request Strict = Some (Inr (Patch [Operation Delete ?b]))"
    unfolding effective_delta_spec [OF wf] by code_simp
  moreover have "effective_delta {|?a|} ?request Strict = Some (Inl (BaseMismatch ?b))"
    unfolding effective_delta_spec [OF wf] by code_simp
  ultimately show ?thesis
    using wf by (simp add: Let_def)
qed

text \<open>
  C8. The patch of a difference exists, leads from the first state to the second, and is the least
  such patch: every normalized patch between the two states contains all of its operations.
\<close>

theorem diff_patch_least:
  "\<exists>p. to_patch (diff a b) = Some p \<and> wf_patch p \<and> apply_patch a p = b \<and>
     (\<forall>r. wf_patch r \<and> apply_patch a r = b \<longrightarrow> set (operations p) \<subseteq> set (operations r))"
proof -
  obtain p where p: "to_patch (diff a b) = Some p"
    by (simp add: to_patch_diff)
  note mem = to_patch_diff_mem [OF p]
  have applied: "apply_patch a p = b"
    by (auto simp: fset_eq_iff apply_patch_mem [OF mem(1)] mem(2,3))
  have least: "op \<in> set (operations r)"
    if r: "wf_patch r" "apply_patch a r = b" and op: "op \<in> set (operations p)" for r op
  proof -
    obtain k q where kq: "op = Operation k q" by (rule operation.exhaust)
    show ?thesis
      using op r(2) by (cases k) (auto simp: kq mem(2,3) apply_patch_mem [OF r(1)])
  qed
  show ?thesis
    using p mem(1) applied least by blast
qed

theorem diff_patch_least_witness:
  "let a = Quad ''<urn:a> <urn:p> <urn:o> .''; b = Quad ''<urn:b> <urn:p> <urn:o> .'' in
   \<exists>p. to_patch (diff {|a|} {|b|}) = Some p \<and> set (operations p) \<subseteq> {Operation Add b, Operation Delete a}"
proof -
  let ?a = "Quad ''<urn:a> <urn:p> <urn:o> .''" and ?b = "Quad ''<urn:b> <urn:p> <urn:o> .''"
  let ?r = "Patch [Operation Add ?b, Operation Delete ?a]"
  have "wf_patch ?r" "apply_patch {|?a|} ?r = {|?b|}" by code_simp+
  then show ?thesis
    using diff_patch_least [of "{|?a|}" "{|?b|}"] by (fastforce simp: Let_def)
qed

end
