(* ===== verification/Dag_Walk.thy ===== *)
theory Dag_Walk
  imports Core_Identity
begin

text \<open>
  \<^verbatim>\<open>crates/ledger-dag/src/lib.rs\<close>, the traversals: retrieval windows, the depth-first walk and the three
  questions built on it (\<open>is_ancestor\<close>, \<open>first_parent_history\<close>, \<open>ancestors\<close>) with \<open>ancestry\<close>. A walk is the
  record \<open>walk\<close>; what never changes during it (the provider's window function, the limits, the kind
  of edges, the readings of the clock) is the record \<open>walk_env\<close>. The \<open>n\<close>-th call of \<open>Instant::now\<close> reads
  \<open>we_clock n\<close>. A loop stack is a list with its top first.
\<close>

section \<open>Providers and limits\<close>

datatype window_kind = Ancestry | FirstParent

type_synonym 'e window = "commit_id \<Rightarrow> nat \<Rightarrow> window_kind \<Rightarrow> 'e + (commit_id \<times> commit_id list) list"

text \<open>The default window of a provider that only answers \<open>parents\<close>: the anchor alone.\<close>

definition default_window :: "(commit_id \<Rightarrow> 'e + commit_id list option) \<Rightarrow> 'e window" where
  "default_window parents start mx kind =
     rbind (parents start) (\<lambda>known.
       Inr (case known of None \<Rightarrow> [] | Some ps \<Rightarrow> [(start, ps)]))"

definition USIZE_MAX :: nat where "USIZE_MAX = 2 ^ 64 - 1"

definition saturating_mul :: "nat \<Rightarrow> nat \<Rightarrow> nat" where
  "saturating_mul a b = min (a * b) USIZE_MAX"

definition WINDOW_RAMP :: nat where "WINDOW_RAMP = 4"

text \<open>
  The loop of \<open>window_calls\<close>; it ends because every call asks for at least one commit. \<open>None\<close> is the overflow
  of \<open>done\<close>.
\<close>

function window_calls_from :: "nat \<Rightarrow> nat \<Rightarrow> nat \<Rightarrow> nat \<Rightarrow> nat \<Rightarrow> nat option" where
  "window_calls_from commits window done ask calls =
     (if done < commits \<and> 0 < min ask window
      then if done + min ask window > USIZE_MAX then None
           else window_calls_from commits window (done + min ask window) (saturating_mul ask WINDOW_RAMP) (calls + 1)
      else Some calls)"
  by pat_completeness auto
termination
  by (relation "measure (\<lambda>(commits, window, done, ask, calls). commits - done)") auto

declare window_calls_from.simps [simp del]

definition window_calls :: "nat \<Rightarrow> nat \<Rightarrow> nat option" where
  "window_calls commits window = window_calls_from commits (max window 1) 0 1 0"

record traversal_limits =
  max_visited :: nat
  deadline :: "nat option"

definition DEFAULT_LIMITS :: traversal_limits where
  "DEFAULT_LIMITS = \<lparr>max_visited = 100000, deadline = None\<rparr>"

datatype 'e dag_error =
    UnknownCommit commit_id
  | Cycle commit_id
  | VisitLimit nat
  | Deadline
  | Provider 'e

datatype colour = Grey | Black

section \<open>The walk\<close>

record 'e walk_env =
  we_window :: "'e window"
  we_limits :: traversal_limits
  we_kind :: window_kind
  we_clock :: "nat \<Rightarrow> nat"

record walk =
  w_colour :: "(commit_id, colour) fmap"
  w_prefetched :: "(commit_id, commit_id list) fmap"
  w_ramp :: nat
  w_record :: "(commit_id, commit_id list) fmap option"
  w_reads :: nat

datatype dfs_outcome = Hit | Complete

definition walk_new :: walk where
  "walk_new = \<lparr>w_colour = fmempty, w_prefetched = fmempty, w_ramp = 1, w_record = None, w_reads = 0\<rparr>"

definition check_deadline :: "'e walk_env \<Rightarrow> walk \<Rightarrow> 'e dag_error + walk" where
  "check_deadline env w =
     (case deadline (we_limits env) of
        None \<Rightarrow> Inr w
      | Some d \<Rightarrow>
          if we_clock env (w_reads w) \<ge> d then Inl Deadline else Inr (w\<lparr>w_reads := w_reads w + 1\<rparr>))"

text \<open>The loop over the entries of a window: the anchor's first answer, and what is kept for later.\<close>

fun absorb_window ::
  "nat \<Rightarrow> commit_id \<Rightarrow> walk \<Rightarrow> commit_id list option \<Rightarrow> (commit_id \<times> commit_id list) list \<Rightarrow>
   commit_id list option \<times> walk" where
  "absorb_window limit anchor w found [] = (found, w)"
| "absorb_window limit anchor w found ((commit, parents) # rest) =
     (if commit = anchor
      then absorb_window limit anchor w (case found of None \<Rightarrow> Some parents | Some _ \<Rightarrow> found) rest
      else if commit |\<notin>| fmdom (w_colour w) \<and> fcard (fmdom (w_prefetched w)) < limit
      then absorb_window limit anchor
        (w\<lparr>w_prefetched :=
             (case fmlookup (w_prefetched w) commit of
                None \<Rightarrow> fmupd commit parents (w_prefetched w)
              | Some _ \<Rightarrow> w_prefetched w)\<rparr>) found rest
      else absorb_window limit anchor w found rest)"

definition record_parents :: "commit_id \<Rightarrow> commit_id list \<Rightarrow> walk \<Rightarrow> walk" where
  "record_parents anchor parents w = w\<lparr>w_record := map_option (fmupd anchor parents) (w_record w)\<rparr>"

text \<open>The answer of the provider for a commit that no earlier window brought.\<close>

definition fetch_window ::
  "'e walk_env \<Rightarrow> walk \<Rightarrow> commit_id \<Rightarrow> nat \<Rightarrow> 'e dag_error + (commit_id list \<times> walk)" where
  "fetch_window env w anchor wanted =
     (let limit = max_visited (we_limits env);
          mx = max (min (min (limit - fcard (fmdom (w_colour w))) wanted) (w_ramp w)) 1;
          w = w\<lparr>w_ramp := saturating_mul (w_ramp w) WINDOW_RAMP\<rparr> in
      rbind (map_err Provider (we_window env anchor mx (we_kind env))) (\<lambda>window.
      rbind (check_deadline env w) (\<lambda>w.
      let (found, w) = absorb_window limit anchor w None window in
      rbind (ok_or (UnknownCommit anchor) found) (\<lambda>parents. Inr (parents, w)))))"

definition load :: "'e walk_env \<Rightarrow> walk \<Rightarrow> commit_id \<Rightarrow> nat \<Rightarrow> 'e dag_error + (commit_id list \<times> walk)" where
  "load env w anchor wanted =
     (let visited = fcard (fmdom (w_colour w)) in
      if visited \<ge> max_visited (we_limits env) then Inl (VisitLimit visited)
      else
        rbind (check_deadline env w) (\<lambda>w.
        rbind
          (case fmlookup (w_prefetched w) anchor of
             Some parents \<Rightarrow> Inr (parents, w\<lparr>w_prefetched := fmdrop anchor (w_prefetched w)\<rparr>)
           | None \<Rightarrow> fetch_window env w anchor wanted)
          (\<lambda>(parents, w). Inr (parents, record_parents anchor parents w))))"

definition set_colour :: "commit_id \<Rightarrow> colour \<Rightarrow> walk \<Rightarrow> walk" where
  "set_colour anchor c w = w\<lparr>w_colour := fmupd anchor c (w_colour w)\<rparr>"

section \<open>Depth-first search\<close>

record frame =
  fr_id :: commit_id
  fr_parents :: "commit_id list"
  fr_next :: nat

type_synonym 's visitor = "'s \<Rightarrow> commit_id \<Rightarrow> bool \<times> 's"

definition frame_work :: "frame \<Rightarrow> nat" where
  "frame_work f = Suc (length (fr_parents f) - fr_next f)"

lemma check_deadline_colour: "check_deadline env w = Inr w' \<Longrightarrow> w_colour w' = w_colour w"
  by (auto simp: check_deadline_def split: option.splits if_splits)

lemma absorb_window_colour [simp]: "w_colour (snd (absorb_window limit anchor w found es)) = w_colour w"
  by (induction limit anchor w found es rule: absorb_window.induct) auto

lemma fetch_window_colour: "fetch_window env w anchor wanted = Inr (ps, w') \<Longrightarrow> w_colour w' = w_colour w"
  by (auto simp: fetch_window_def Let_def result_simps case_prod_unfold dest!: check_deadline_colour)

lemma load_colour:
  assumes "load env w anchor wanted = Inr (ps, w')"
  shows "w_colour w' = w_colour w" "fcard (fmdom (w_colour w)) < max_visited (we_limits env)"
proof -
  have room: "\<not> fcard (fmdom (w_colour w)) \<ge> max_visited (we_limits env)"
    using assms by (auto simp: load_def Let_def split: if_splits)
  then show "fcard (fmdom (w_colour w)) < max_visited (we_limits env)" by simp
  obtain v u where v: "check_deadline env w = Inr v"
    and u: "(case fmlookup (w_prefetched v) anchor of
             Some parents \<Rightarrow> Inr (parents, v\<lparr>w_prefetched := fmdrop anchor (w_prefetched v)\<rparr>)
           | None \<Rightarrow> fetch_window env v anchor wanted) = Inr (ps, u)" "w' = record_parents anchor ps u"
    using assms room by (auto simp: load_def Let_def rbind_eq_Inr)
  have "w_colour u = w_colour v"
    using u(1) by (auto dest: fetch_window_colour split: option.splits)
  then show "w_colour w' = w_colour w"
    using u(2) check_deadline_colour [OF v] by (simp add: record_parents_def)
qed

lemma set_colour_new:
  assumes "load env w parent wanted = Inr (ps, w')" "fmlookup (w_colour w) parent = None"
  shows "max_visited (we_limits env) - fcard (fmdom (w_colour (set_colour parent c w'))) <
    max_visited (we_limits env) - fcard (fmdom (w_colour w))"
  using load_colour [OF assms(1)] assms(2)
  by (simp add: set_colour_def fmdom_notI fcard_finsert_disjoint)

lemma set_colour_any: "fcard (fmdom (w_colour w)) \<le> fcard (fmdom (w_colour (set_colour i c w)))"
  by (simp add: set_colour_def fcard_mono fsubset_finsertI)

function dfs_loop ::
  "'e walk_env \<Rightarrow> 's visitor \<Rightarrow> walk \<Rightarrow> 's \<Rightarrow> frame list \<Rightarrow> 'e dag_error + (dfs_outcome \<times> walk \<times> 's)" where
  "dfs_loop env on_enter w s [] = Inr (Complete, w, s)"
| "dfs_loop env on_enter w s (fr # stack) =
     (if fr_next fr < length (fr_parents fr) then
        (let parent = fr_parents fr ! fr_next fr; fr = fr\<lparr>fr_next := fr_next fr + 1\<rparr> in
         case fmlookup (w_colour w) parent of
           Some Grey \<Rightarrow> Inl (Cycle parent)
         | Some Black \<Rightarrow> dfs_loop env on_enter w s (fr # stack)
         | None \<Rightarrow>
             (case load env w parent USIZE_MAX of
                Inl e \<Rightarrow> Inl e
              | Inr (parents, w) \<Rightarrow>
                  (let w = set_colour parent Grey w; (stop, s) = on_enter s parent in
                   if stop then Inr (Hit, w, s)
                   else dfs_loop env on_enter w s
                          (\<lparr>fr_id = parent, fr_parents = parents, fr_next = 0\<rparr> # fr # stack))))
      else dfs_loop env on_enter (set_colour (fr_id fr) Black w) s stack)"
  by pat_completeness auto
termination
  by (relation "measures [\<lambda>(env, on_enter, w, s, stack). max_visited (we_limits env) - fcard (fmdom (w_colour w)),
    \<lambda>(env, on_enter, w, s, stack). sum_list (map frame_work stack)]")
    (use set_colour_any in \<open>auto simp: frame_work_def set_colour_new diff_le_mono2 le_neq_implies_less\<close>)

definition dfs ::
  "'e walk_env \<Rightarrow> 's visitor \<Rightarrow> walk \<Rightarrow> commit_id \<Rightarrow> 's \<Rightarrow> 'e dag_error + (dfs_outcome \<times> walk \<times> 's)" where
  "dfs env on_enter w start s =
     (case load env w start USIZE_MAX of
        Inl e \<Rightarrow> Inl e
      | Inr (parents, w) \<Rightarrow>
          (let w = set_colour start Grey w; (stop, s) = on_enter s start in
           if stop then Inr (Hit, w, s)
           else dfs_loop env on_enter w s [\<lparr>fr_id = start, fr_parents = parents, fr_next = 0\<rparr>]))"

section \<open>The questions\<close>

text \<open>\<open>clock\<close> is the clock the deadline is compared with.\<close>

definition walk_env_of ::
  "'e window \<Rightarrow> (nat \<Rightarrow> nat) \<Rightarrow> traversal_limits \<Rightarrow> window_kind \<Rightarrow> 'e walk_env" where
  "walk_env_of window clock limits kind =
     \<lparr>we_window = window, we_limits = limits, we_kind = kind, we_clock = clock\<rparr>"

definition is_ancestor ::
  "'e window \<Rightarrow> (nat \<Rightarrow> nat) \<Rightarrow> commit_id \<Rightarrow> commit_id \<Rightarrow> traversal_limits \<Rightarrow> 'e dag_error + bool" where
  "is_ancestor window clock ancestor descendant limits =
     rbind (dfs (walk_env_of window clock limits Ancestry) (\<lambda>s c. (c = ancestor, s)) walk_new descendant ())
       (\<lambda>(outcome, _). Inr (outcome = Hit))"

function first_parent_loop ::
  "'e walk_env \<Rightarrow> nat \<Rightarrow> walk \<Rightarrow> commit_id \<Rightarrow> commit_id list \<Rightarrow> 'e dag_error + commit_id list" where
  "first_parent_loop env mx w current history =
     (case load env w current (mx - length history) of
        Inl e \<Rightarrow> Inl e
      | Inr (parents, w) \<Rightarrow>
          (let w = set_colour current Grey w; history = history @ [current] in
           if length history \<ge> mx then Inr history
           else case parents of
                  [] \<Rightarrow> Inr history
                | first # _ \<Rightarrow>
                    if first |\<in>| fmdom (w_colour w) then Inl (Cycle first)
                    else first_parent_loop env mx w first history))"
  by pat_completeness auto
termination
  by (relation "measure (\<lambda>(env, mx, w, current, history). mx - length history)") auto

declare first_parent_loop.simps [simp del]

definition first_parent_history ::
  "'e window \<Rightarrow> (nat \<Rightarrow> nat) \<Rightarrow> commit_id \<Rightarrow> nat \<Rightarrow> traversal_limits \<Rightarrow> 'e dag_error + commit_id list" where
  "first_parent_history window clock head mx limits =
     (if mx = 0 then Inr []
      else first_parent_loop (walk_env_of window clock limits FirstParent) mx walk_new head [])"

definition ancestors ::
  "'e window \<Rightarrow> (nat \<Rightarrow> nat) \<Rightarrow> commit_id \<Rightarrow> traversal_limits \<Rightarrow> 'e dag_error + commit_id list" where
  "ancestors window clock head limits =
     rbind (dfs (walk_env_of window clock limits Ancestry) (\<lambda>order c. (False, order @ [c])) walk_new head [])
       (\<lambda>(_, _, order). Inr order)"

text \<open>An \<open>Ancestry\<close> is its \<open>parents\<close> map.\<close>

type_synonym ancestry_map = "(commit_id, commit_id list) fmap"

definition ancestry_contains :: "ancestry_map \<Rightarrow> commit_id \<Rightarrow> bool" where
  "ancestry_contains a c \<longleftrightarrow> c |\<in>| fmdom a"

definition ancestry_len :: "ancestry_map \<Rightarrow> nat" where
  "ancestry_len a = fcard (fmdom a)"

definition ancestry_difference :: "ancestry_map \<Rightarrow> ancestry_map \<Rightarrow> commit_id list" where
  "ancestry_difference a other =
     sorted_list_of_fset (ffilter (\<lambda>c. \<not> ancestry_contains other c) (fmdom a))"

definition ancestry ::
  "'e window \<Rightarrow> (nat \<Rightarrow> nat) \<Rightarrow> commit_id \<Rightarrow> traversal_limits \<Rightarrow> 'e dag_error + ancestry_map" where
  "ancestry window clock head limits =
     rbind (dfs (walk_env_of window clock limits Ancestry) (\<lambda>s c. (False, s))
              (walk_new\<lparr>w_record := Some fmempty\<rparr>) head ())
       (\<lambda>(_, w, _). Inr (case w_record w of Some r \<Rightarrow> r | None \<Rightarrow> fmempty))"

end
