(* ===== verification/Dag_Search.thy ===== *)
theory Dag_Search
  imports Dag_Walk
begin

text \<open>
  Correctness of the walks of \<open>Dag_Walk\<close>. The specification is the commit graph itself: \<open>dag c\<close> is the
  parent list of a known commit and \<open>None\<close> for an unknown one. The locale \<open>parent_provider\<close> is the contract
  of \<^verbatim>\<open>ParentProvider::ancestry_window\<close>; inside it the depth-first loop is proved once, by an invariant over
  the colours and the stack.
\<close>

type_synonym dag = "commit_id \<Rightarrow> commit_id list option"

definition edge :: "dag \<Rightarrow> commit_id \<Rightarrow> commit_id \<Rightarrow> bool" where
  "edge dag c p \<longleftrightarrow> (\<exists>ps. dag c = Some ps \<and> p \<in> set ps)"

abbreviation reach :: "dag \<Rightarrow> commit_id \<Rightarrow> commit_id \<Rightarrow> bool" where
  "reach dag \<equiv> (edge dag)\<^sup>*\<^sup>*"

section \<open>The provider's contract\<close>

locale parent_provider =
  fixes dag :: dag
    and window :: "'e window"
  assumes window_sound: "window start mx kind = Inr es \<Longrightarrow> (c, ps) \<in> set es \<Longrightarrow> dag c = Some ps"
    and window_anchor: "window start mx kind = Inr es \<Longrightarrow> 0 < mx \<Longrightarrow> dag start = Some ps \<Longrightarrow> (start, ps) \<in> set es"

text \<open>What the walk keeps from earlier windows is still the graph's own answer.\<close>

definition sound_walk :: "dag \<Rightarrow> walk \<Rightarrow> bool" where
  "sound_walk dag w \<longleftrightarrow> (\<forall>c ps. fmlookup (w_prefetched w) c = Some ps \<longrightarrow> dag c = Some ps)"

definition provider_failed :: "'e window \<Rightarrow> 'e \<Rightarrow> bool" where
  "provider_failed window x \<longleftrightarrow> (\<exists>start mx kind. window start mx kind = Inl x)"

lemma sound_walk_simps [simp]:
  "sound_walk dag (set_colour i c w) = sound_walk dag w"
  "sound_walk dag (record_parents i ps w) = sound_walk dag w"
  "sound_walk dag (w\<lparr>w_ramp := n\<rparr>) = sound_walk dag w"
  by (simp_all add: sound_walk_def set_colour_def record_parents_def)

lemma walk_new_sound [simp]: "sound_walk dag (walk_new\<lparr>w_record := r\<rparr>)" "sound_walk dag walk_new"
  by (simp_all add: sound_walk_def walk_new_def)

lemma check_deadline_same:
  "check_deadline env w = Inr w' \<Longrightarrow>
   w_colour w' = w_colour w \<and> w_prefetched w' = w_prefetched w \<and> w_record w' = w_record w"
  by (auto simp: check_deadline_def split: option.splits if_splits)

lemma check_deadline_Inl: "check_deadline env w = Inl e \<Longrightarrow> e = Deadline \<and> deadline (we_limits env) \<noteq> None"
  by (auto simp: check_deadline_def split: option.splits if_splits)

lemma absorb_window_record [simp]: "w_record (snd (absorb_window limit anchor w found es)) = w_record w"
  by (induction limit anchor w found es rule: absorb_window.induct) auto

lemma absorb_window_sound:
  "sound_walk dag w \<Longrightarrow> (\<And>c ps. (c, ps) \<in> set es \<Longrightarrow> dag c = Some ps) \<Longrightarrow>
   sound_walk dag (snd (absorb_window limit anchor w found es))"
proof (induction limit anchor w found es rule: absorb_window.induct)
  case (1 limit anchor w found)
  then show ?case by simp
next
  case (2 limit anchor w found commit parents rest)
  have "dag commit = Some parents" using "2.prems"(2) by simp
  then have kept: "sound_walk dag (w\<lparr>w_prefetched := (case fmlookup (w_prefetched w) commit of
      None \<Rightarrow> fmupd commit parents (w_prefetched w) | Some _ \<Rightarrow> w_prefetched w)\<rparr>)"
    using "2.prems"(1) by (cases "fmlookup (w_prefetched w) commit") (simp_all add: sound_walk_def)
  have rest: "\<And>c ps. (c, ps) \<in> set rest \<Longrightarrow> dag c = Some ps" using "2.prems"(2) by simp
  consider "commit = anchor"
    | "commit \<noteq> anchor" "commit |\<notin>| fmdom (w_colour w) \<and> fcard (fmdom (w_prefetched w)) < limit"
    | "commit \<noteq> anchor" "\<not> (commit |\<notin>| fmdom (w_colour w) \<and> fcard (fmdom (w_prefetched w)) < limit)"
    by blast
  then show ?case
    using "2.IH"(1) [OF _ "2.prems"(1) rest] "2.IH"(2) [OF _ _ kept rest] "2.IH"(3) [OF _ _ "2.prems"(1) rest]
    by cases (simp_all del: fmupd_lookup, blast)
qed

lemma absorb_window_found:
  "(\<And>c ps. (c, ps) \<in> set es \<Longrightarrow> dag c = Some ps) \<Longrightarrow> (\<And>ps. found = Some ps \<Longrightarrow> dag anchor = Some ps) \<Longrightarrow>
   fst (absorb_window limit anchor w found es) =
     (if anchor \<in> fst ` set es \<or> found \<noteq> None then dag anchor else None)"
  by (induction limit anchor w found es rule: absorb_window.induct) (auto split: option.splits)

section \<open>Loading one commit\<close>

definition load_post :: "dag \<Rightarrow> 'e walk_env \<Rightarrow> walk \<Rightarrow> commit_id \<Rightarrow> 'e dag_error + (commit_id list \<times> walk) \<Rightarrow> bool" where
  "load_post dag env w anchor r \<longleftrightarrow>
     (case r of
        Inl (VisitLimit n) \<Rightarrow> n = fcard (fmdom (w_colour w)) \<and> n \<ge> max_visited (we_limits env)
      | Inl Deadline \<Rightarrow> deadline (we_limits env) \<noteq> None
      | Inl (Provider x) \<Rightarrow> provider_failed (we_window env) x
      | Inl (UnknownCommit c) \<Rightarrow> c = anchor \<and> dag anchor = None \<and> fcard (fmdom (w_colour w)) < max_visited (we_limits env)
      | Inl (Cycle c) \<Rightarrow> False
      | Inr (ps, w') \<Rightarrow>
          dag anchor = Some ps \<and> sound_walk dag w' \<and> w_colour w' = w_colour w \<and>
          w_record w' = map_option (fmupd anchor ps) (w_record w) \<and>
          fcard (fmdom (w_colour w)) < max_visited (we_limits env))"

context parent_provider
begin

lemma fetch_window_post:
  assumes env: "we_window env = window" and sound: "sound_walk dag w"
  shows "case fetch_window env w anchor wanted of
      Inl e \<Rightarrow> e = Deadline \<and> deadline (we_limits env) \<noteq> None \<or> (\<exists>x. e = Provider x \<and> provider_failed window x) \<or>
        e = UnknownCommit anchor \<and> dag anchor = None
    | Inr (ps, w') \<Rightarrow> dag anchor = Some ps \<and> sound_walk dag w' \<and> w_colour w' = w_colour w \<and> w_record w' = w_record w"
proof -
  let ?mx = "max (min (min (max_visited (we_limits env) - fcard (fmdom (w_colour w))) wanted) (w_ramp w)) 1"
  let ?w = "w\<lparr>w_ramp := saturating_mul (w_ramp w) WINDOW_RAMP\<rparr>"
  show ?thesis
  proof (cases "window anchor ?mx (we_kind env)")
    case (Inl x)
    then show ?thesis
      by (auto simp: fetch_window_def Let_def env provider_failed_def)
  next
    case (Inr es)
    have "0 < ?mx" by (simp add: less_max_iff_disj)
    note entries = window_sound [OF Inr] and own = window_anchor [OF Inr this]
    show ?thesis
    proof (cases "check_deadline env ?w")
      case (Inl e)
      then show ?thesis
        using Inr check_deadline_Inl [OF Inl] by (simp add: fetch_window_def Let_def env)
    next
      case deadline: (Inr v)
      let ?r = "absorb_window (max_visited (we_limits env)) anchor v None es"
      have v: "sound_walk dag v" "w_colour v = w_colour w" "w_record v = w_record w"
        using sound check_deadline_same [OF deadline] by (simp_all add: sound_walk_def)
      have found: "fst ?r = dag anchor"
        using absorb_window_found [of es dag None anchor] entries own
        by (cases "dag anchor") (simp_all, force)
      have kept: "sound_walk dag (snd ?r)"
        using absorb_window_sound [OF v(1)] entries by blast
      show ?thesis
        using Inr deadline found kept v
        by (cases "dag anchor") (simp_all add: fetch_window_def Let_def env case_prod_unfold)
    qed
  qed
qed

lemma load_correct:
  assumes env: "we_window env = window" and sound: "sound_walk dag w"
  shows "load_post dag env w anchor (load env w anchor wanted)"
proof (cases "fcard (fmdom (w_colour w)) \<ge> max_visited (we_limits env)")
  case True
  then show ?thesis by (simp add: load_def load_post_def)
next
  case room: False
  show ?thesis
  proof (cases "check_deadline env w")
    case (Inl e)
    then show ?thesis
      using room check_deadline_Inl [OF Inl] by (simp add: load_def load_post_def)
  next
    case (Inr v)
    have v: "sound_walk dag v" "w_colour v = w_colour w" "w_record v = w_record w"
      using sound check_deadline_same [OF Inr] by (simp_all add: sound_walk_def)
    show ?thesis
    proof (cases "fmlookup (w_prefetched v) anchor")
      case None
      have "load env w anchor wanted = rbind (fetch_window env v anchor wanted)
          (\<lambda>(parents, w). Inr (parents, record_parents anchor parents w))"
        using room Inr None by (simp add: load_def)
      then show ?thesis
        using fetch_window_post [OF env v(1), of anchor wanted] room v
        by (cases "fetch_window env v anchor wanted") (auto simp: load_post_def env record_parents_def sound_walk_def)
    next
      case (Some ps)
      then have "dag anchor = Some ps" using v(1) by (simp add: sound_walk_def)
      then show ?thesis
        using room Inr Some v
        by (auto simp: load_def load_post_def record_parents_def sound_walk_def split: if_splits)
    qed
  qed
qed

end

section \<open>The invariant of the depth-first loop\<close>

abbreviation black :: "(commit_id, colour) fmap \<Rightarrow> commit_id \<Rightarrow> bool" where
  "black colour c \<equiv> fmlookup colour c = Some Black"

text \<open>
  The stack is a path of the graph, read from its top: every scanned parent of a frame is finished,
  except the one the frame above was opened for.
\<close>

fun stack_ok :: "dag \<Rightarrow> (commit_id, colour) fmap \<Rightarrow> commit_id option \<Rightarrow> frame list \<Rightarrow> bool" where
  "stack_ok dag colour child [] = True"
| "stack_ok dag colour child (f # stack) =
     (dag (fr_id f) = Some (fr_parents f) \<and> fr_next f \<le> length (fr_parents f) \<and>
      (\<forall>p \<in> set (take (fr_next f) (fr_parents f)). black colour p \<or> child = Some p) \<and>
      (\<forall>u. child = Some u \<longrightarrow> u \<in> set (take (fr_next f) (fr_parents f))) \<and>
      stack_ok dag colour (Some (fr_id f)) stack)"

definition colours_ok :: "dag \<Rightarrow> commit_id \<Rightarrow> (commit_id, colour) fmap \<Rightarrow> commit_id list \<Rightarrow> bool" where
  "colours_ok dag start colour grey \<longleftrightarrow>
     distinct grey \<and> (\<forall>c. fmlookup colour c = Some Grey \<longleftrightarrow> c \<in> set grey) \<and>
     (\<forall>c. black colour c \<longrightarrow> dag c \<noteq> None \<and> (\<forall>p. edge dag c p \<longrightarrow> black colour p)) \<and>
     (\<forall>c. c |\<in>| fmdom colour \<longrightarrow> reach dag start c) \<and> start |\<in>| fmdom colour \<and>
     acyclic {(c, p). black colour c \<and> edge dag c p}"

lemma stack_ok_mono:
  assumes "\<And>c. black colour c \<Longrightarrow> black colour' c"
  shows "stack_ok dag colour child stack \<Longrightarrow> stack_ok dag colour' child stack"
  by (induction stack arbitrary: child) (use assms in auto)

lemma stack_path:
  "stack_ok dag colour child (f # stack) \<Longrightarrow> g \<in> set stack \<Longrightarrow> (edge dag)\<^sup>+\<^sup>+ (fr_id g) (fr_id f)"
proof (induction stack arbitrary: child f)
  case Nil
  then show ?case by simp
next
  case (Cons h stack)
  have step: "edge dag (fr_id h) (fr_id f)"
    using Cons.prems(1) by (auto simp: edge_def dest: in_set_takeD)
  show ?case
  proof (cases "g = h")
    case True
    with step show ?thesis by auto
  next
    case False
    then have "(edge dag)\<^sup>+\<^sup>+ (fr_id g) (fr_id h)"
      using Cons.IH [of "Some (fr_id f)" h] Cons.prems by simp
    with step show ?thesis by (rule tranclp.trancl_into_trancl [rotated])
  qed
qed

lemma colours_grow:
  assumes ok: "colours_ok dag start colour grey" and new: "fmlookup colour c = None"
    and from_grey: "\<exists>g. g |\<in>| fmdom colour \<and> edge dag g c"
  shows "colours_ok dag start (fmupd c Grey colour) (c # grey)"
proof -
  have "reach dag start c"
    using ok from_grey by (auto simp: colours_ok_def intro: rtranclp.rtrancl_into_rtrancl)
  moreover have "c \<notin> set grey"
    using ok new unfolding colours_ok_def by (metis option.distinct(1))
  moreover have "black (fmupd c Grey colour) d \<longleftrightarrow> black colour d" for d
    using new by auto
  ultimately show ?thesis
    using ok new by (auto simp: colours_ok_def)
qed

lemma colours_finish:
  assumes ok: "colours_ok dag start colour (c # grey)" and known: "dag c \<noteq> None"
    and parents: "\<And>p. edge dag c p \<Longrightarrow> black colour p"
  shows "colours_ok dag start (fmupd c Black colour) grey"
proof -
  have grey: "fmlookup colour c = Some Grey"
    using ok by (simp add: colours_ok_def)
  let ?old = "{(d, p). black colour d \<and> edge dag d p}"
  let ?new = "{(d, p). black (fmupd c Black colour) d \<and> edge dag d p}"
  have closed: "black colour p" if "(d, p) \<in> ?old" for d p
    using ok that by (auto simp: colours_ok_def)
  have new: "?new = ?old \<union> {c} \<times> {p. edge dag c p}"
    using grey by (auto split: if_splits)
  have "acyclic ?new"
  proof -
    have "(x, c) \<notin> ?new" for x
    proof
      assume "(x, c) \<in> ?new"
      then have "black colour c" using new closed parents by blast
      then show False using grey by simp
    qed
    then have no_in: "(x, c) \<notin> ?new\<^sup>+" for x
      by (meson tranclD2)
    have "(x, y) \<in> ?old\<^sup>+" if "(x, y) \<in> ?new\<^sup>+" "x \<noteq> c" for x y
      using that
    proof (induction rule: trancl_induct)
      case (base y)
      then show ?case using new by auto
    next
      case (step y z)
      have "y \<noteq> c" using no_in step.hyps(1) by blast
      then have "(y, z) \<in> ?old" using step.hyps(2) new by auto
      then show ?case using step by (meson trancl_into_trancl)
    qed
    moreover have "acyclic ?old"
      using ok by (simp add: colours_ok_def)
    ultimately show ?thesis
      using no_in unfolding acyclic_def by blast
  qed
  moreover have "(fmlookup (fmupd c Black colour) d = Some Grey) = (d \<in> set grey)" for d
    using ok by (auto simp: colours_ok_def)
  moreover have "dag d \<noteq> None \<and> (\<forall>p. edge dag d p \<longrightarrow> black (fmupd c Black colour) p)"
    if "black (fmupd c Black colour) d" for d
    using that ok known parents by (cases "d = c") (auto simp: colours_ok_def)
  moreover have "reach dag start d" if "d |\<in>| fmdom (fmupd c Black colour)" for d
    using that ok fmdomI [OF grey] by (auto simp: colours_ok_def)
  ultimately show ?thesis
    using ok unfolding colours_ok_def by (simp del: fmupd_lookup)
qed

section \<open>What a search returns\<close>

text \<open>The visitor's state after it saw \<open>order\<close> without asking to stop.\<close>

fun visits :: "'s visitor \<Rightarrow> 's \<Rightarrow> commit_id list \<Rightarrow> 's option" where
  "visits v s [] = Some s"
| "visits v s (c # cs) = (if fst (v s c) then None else visits v (snd (v s c)) cs)"

lemma visits_snoc:
  "visits v s (cs @ [c]) =
     (case visits v s cs of None \<Rightarrow> None | Some t \<Rightarrow> if fst (v t c) then None else Some (snd (v t c)))"
  by (induction cs arbitrary: s) auto

definition entered :: "dag \<Rightarrow> commit_id \<Rightarrow> walk \<Rightarrow> commit_id list \<Rightarrow> bool" where
  "entered dag start w order \<longleftrightarrow>
     distinct order \<and> fset_of_list order = fmdom (w_colour w) \<and> (\<exists>rest. order = start # rest) \<and>
     (\<forall>c \<in> set order. dag c \<noteq> None) \<and>
     (\<forall>r. w_record w = Some r \<longrightarrow> (\<forall>c. fmlookup r c = (if c \<in> set order then dag c else None)))"

definition dfs_inv ::
  "dag \<Rightarrow> 'e walk_env \<Rightarrow> commit_id \<Rightarrow> 's visitor \<Rightarrow> 's \<Rightarrow> walk \<Rightarrow> 's \<Rightarrow> frame list \<Rightarrow> commit_id list \<Rightarrow> bool" where
  "dfs_inv dag env start v s0 w s stack order \<longleftrightarrow>
     sound_walk dag w \<and> stack_ok dag (w_colour w) None stack \<and>
     colours_ok dag start (w_colour w) (map fr_id stack) \<and> entered dag start w order \<and>
     visits v s0 order = Some s \<and> fcard (fmdom (w_colour w)) \<le> max_visited (we_limits env)"

definition dfs_post ::
  "dag \<Rightarrow> 'e walk_env \<Rightarrow> commit_id \<Rightarrow> 's visitor \<Rightarrow> 's \<Rightarrow> 'e dag_error + (dfs_outcome \<times> walk \<times> 's) \<Rightarrow> bool" where
  "dfs_post dag env start v s0 r \<longleftrightarrow>
     (case r of
        Inr (Complete, w, s) \<Rightarrow> \<exists>order. dfs_inv dag env start v s0 w s [] order
      | Inr (Hit, w, s) \<Rightarrow>
          \<exists>order t c. visits v s0 order = Some t \<and> v t c = (True, s) \<and> reach dag start c \<and> dag c \<noteq> None
      | Inl (UnknownCommit c) \<Rightarrow> reach dag start c \<and> dag c = None
      | Inl (Cycle c) \<Rightarrow> reach dag start c \<and> (edge dag)\<^sup>+\<^sup>+ c c
      | Inl (VisitLimit n) \<Rightarrow>
          n = max_visited (we_limits env) \<and> (\<exists>S. finite S \<and> n < card S \<and> S \<subseteq> {c. reach dag start c})
      | Inl Deadline \<Rightarrow> deadline (we_limits env) \<noteq> None
      | Inl (Provider x) \<Rightarrow> provider_failed (we_window env) x)"

lemma entered_grow:
  assumes "entered dag start w order" and "fmlookup (w_colour w) c = None" and "dag c = Some ps"
    and "w_colour w' = w_colour w" "w_record w' = map_option (fmupd c ps) (w_record w)"
  shows "entered dag start (set_colour c Grey w') (order @ [c])"
proof -
  have "c \<notin> set order"
    using assms(1,2) unfolding entered_def by (metis fmdom_notI fset_of_list_elem)
  then show ?thesis
    using assms by (cases "w_record w") (auto simp: entered_def set_colour_def fset_of_list.rep_eq)
qed

lemma visit_limit_witness:
  assumes ok: "colours_ok dag start (w_colour w) grey" and new: "fmlookup (w_colour w) c = None"
    and reached: "reach dag start c"
  shows "\<exists>S. finite S \<and> fcard (fmdom (w_colour w)) < card S \<and> S \<subseteq> {c. reach dag start c}"
proof (intro exI conjI)
  let ?S = "insert c (fset (fmdom (w_colour w)))"
  show "finite ?S" by simp
  have "c |\<notin>| fmdom (w_colour w)" using new by (rule fmdom_notI)
  then show "fcard (fmdom (w_colour w)) < card ?S" by (simp add: fcard.rep_eq)
  show "?S \<subseteq> {c. reach dag start c}"
    using ok reached by (auto simp: colours_ok_def)
qed

lemma dfs_inv_advance:
  assumes inv: "dfs_inv dag env start v s0 w s (f # stack) order"
    and more: "fr_next f < length (fr_parents f)" and seen: "black (w_colour w) (fr_parents f ! fr_next f)"
  shows "dfs_inv dag env start v s0 w s (f\<lparr>fr_next := fr_next f + 1\<rparr> # stack) order"
  using inv more seen by (auto simp: dfs_inv_def take_Suc_conv_app_nth)

lemma dfs_inv_pop:
  assumes inv: "dfs_inv dag env start v s0 w s (f # stack) order" and finished: "\<not> fr_next f < length (fr_parents f)"
  shows "dfs_inv dag env start v s0 (set_colour (fr_id f) Black w) s stack order"
proof -
  have f: "dag (fr_id f) = Some (fr_parents f)" "\<forall>p \<in> set (fr_parents f). black (w_colour w) p"
    and stack: "stack_ok dag (w_colour w) (Some (fr_id f)) stack"
    using inv finished by (auto simp: dfs_inv_def)
  have colours: "colours_ok dag start (fmupd (fr_id f) Black (w_colour w)) (map fr_id stack)"
    using inv f by (intro colours_finish) (auto simp: dfs_inv_def edge_def)
  have mem: "fr_id f |\<in>| fmdom (w_colour w)"
    using inv by (auto simp: dfs_inv_def colours_ok_def intro: fmdomI)
  have "stack_ok dag (fmupd (fr_id f) Black (w_colour w)) None stack"
  proof (cases stack)
    case (Cons g st)
    then show ?thesis
      using stack stack_ok_mono [of "w_colour w" "fmupd (fr_id f) Black (w_colour w)" dag "Some (fr_id g)" st] by auto
  qed simp
  then show ?thesis
    using inv colours mem
    by (simp add: dfs_inv_def set_colour_def entered_def sound_walk_def finsert_absorb)
qed

lemma dfs_inv_push:
  assumes inv: "dfs_inv dag env start v s0 w s (f # stack) order"
    and more: "fr_next f < length (fr_parents f)" and parent: "fr_parents f ! fr_next f = parent"
    and new: "fmlookup (w_colour w) parent = None"
    and loaded: "load_post dag env w parent (Inr (ps, w'))" and go: "v s parent = (False, s')"
  shows "dfs_inv dag env start v s0 (set_colour parent Grey w') s'
    (\<lparr>fr_id = parent, fr_parents = ps, fr_next = 0\<rparr> # f\<lparr>fr_next := fr_next f + 1\<rparr> # stack) (order @ [parent])"
proof -
  have w': "dag parent = Some ps" "sound_walk dag w'" "w_colour w' = w_colour w"
    "w_record w' = map_option (fmupd parent ps) (w_record w)"
    "fcard (fmdom (w_colour w)) < max_visited (we_limits env)"
    using loaded by (simp_all add: load_post_def)
  have f: "dag (fr_id f) = Some (fr_parents f)" "fr_id f |\<in>| fmdom (w_colour w)"
    and colours: "colours_ok dag start (w_colour w) (map fr_id (f # stack))"
    using inv by (auto simp: dfs_inv_def colours_ok_def intro: fmdomI)
  have step: "edge dag (fr_id f) parent"
    using f(1) more parent by (auto simp: edge_def)
  have grown: "colours_ok dag start (fmupd parent Grey (w_colour w)) (parent # map fr_id (f # stack))"
    using colours_grow [OF colours new] f(2) step by blast
  have keep: "black (w_colour w) c \<Longrightarrow> black (fmupd parent Grey (w_colour w)) c" for c
    using new by auto
  have "stack_ok dag (fmupd parent Grey (w_colour w)) (Some parent) (f\<lparr>fr_next := fr_next f + 1\<rparr> # stack)"
    using inv more parent keep stack_ok_mono [OF keep, where stack = stack]
    by (auto simp: dfs_inv_def take_Suc_conv_app_nth simp del: fmupd_lookup)
  moreover have "entered dag start (set_colour parent Grey w') (order @ [parent])"
    using inv new w' by (intro entered_grow [of dag start w order parent ps w']) (simp_all add: dfs_inv_def)
  moreover have "fcard (fmdom (w_colour (set_colour parent Grey w'))) \<le> max_visited (we_limits env)"
    using w'(3,5) new by (simp add: set_colour_def fmdom_notI fcard_finsert_disjoint)
  moreover have "visits v s0 (order @ [parent]) = Some s'"
    using inv go by (simp add: dfs_inv_def visits_snoc)
  ultimately show ?thesis
    using grown w' by (simp add: dfs_inv_def set_colour_def sound_walk_def)
qed

lemma dfs_inv_top:
  assumes inv: "dfs_inv dag env start v s0 w s (f # stack) order" and more: "fr_next f < length (fr_parents f)"
  shows "colours_ok dag start (w_colour w) (map fr_id (f # stack))"
    and "reach dag start (fr_parents f ! fr_next f)"
proof -
  show colours: "colours_ok dag start (w_colour w) (map fr_id (f # stack))"
    using inv by (simp add: dfs_inv_def)
  have "edge dag (fr_id f) (fr_parents f ! fr_next f)"
    using inv more by (auto simp: dfs_inv_def edge_def)
  moreover have "fr_id f |\<in>| fmdom (w_colour w)"
    using colours by (auto simp: colours_ok_def intro: fmdomI)
  ultimately show "reach dag start (fr_parents f ! fr_next f)"
    using colours by (auto simp: colours_ok_def intro: rtranclp.rtrancl_into_rtrancl)
qed

lemma dfs_inv_cycle:
  assumes inv: "dfs_inv dag env start v s0 w s (f # stack) order" and more: "fr_next f < length (fr_parents f)"
    and grey: "fmlookup (w_colour w) (fr_parents f ! fr_next f) = Some Grey"
  shows "(edge dag)\<^sup>+\<^sup>+ (fr_parents f ! fr_next f) (fr_parents f ! fr_next f)"
proof -
  let ?parent = "fr_parents f ! fr_next f"
  have "dag (fr_id f) = Some (fr_parents f)" and on_stack: "?parent \<in> fr_id ` set (f # stack)"
    and path: "stack_ok dag (w_colour w) None (f # stack)"
    using inv grey by (auto simp: dfs_inv_def colours_ok_def)
  then have "edge dag (fr_id f) ?parent"
    using more by (auto simp: edge_def)
  moreover have "?parent = fr_id f \<or> (edge dag)\<^sup>+\<^sup>+ ?parent (fr_id f)"
    using on_stack stack_path [OF path] by auto
  ultimately show ?thesis
    by (metis tranclp.r_into_trancl tranclp.trancl_into_trancl)
qed

lemma dfs_post_load_error:
  assumes colours: "colours_ok dag start (w_colour w) grey" and new: "fmlookup (w_colour w) c = None"
    and reached: "reach dag start c" and room: "fcard (fmdom (w_colour w)) \<le> max_visited (we_limits env)"
    and failed: "load_post dag env w c (Inl e)"
  shows "dfs_post dag env start v s0 (Inl e)"
proof (cases e)
  case (VisitLimit n)
  then show ?thesis
    using failed room visit_limit_witness [OF colours new reached] by (auto simp: load_post_def dfs_post_def)
qed (use failed reached in \<open>auto simp: load_post_def dfs_post_def\<close>)

declare dfs_loop.simps(2) [simp del]

lemma dfs_loop_steps:
  "\<not> fr_next f < length (fr_parents f) \<Longrightarrow>
     dfs_loop env v w s (f # stack) = dfs_loop env v (set_colour (fr_id f) Black w) s stack"
  "fr_next f < length (fr_parents f) \<Longrightarrow> fmlookup (w_colour w) (fr_parents f ! fr_next f) = Some Grey \<Longrightarrow>
     dfs_loop env v w s (f # stack) = Inl (Cycle (fr_parents f ! fr_next f))"
  "fr_next f < length (fr_parents f) \<Longrightarrow> fmlookup (w_colour w) (fr_parents f ! fr_next f) = Some Black \<Longrightarrow>
     dfs_loop env v w s (f # stack) = dfs_loop env v w s (f\<lparr>fr_next := fr_next f + 1\<rparr> # stack)"
  "fr_next f < length (fr_parents f) \<Longrightarrow> fmlookup (w_colour w) (fr_parents f ! fr_next f) = None \<Longrightarrow>
     load env w (fr_parents f ! fr_next f) USIZE_MAX = Inl e \<Longrightarrow> dfs_loop env v w s (f # stack) = Inl e"
  "fr_next f < length (fr_parents f) \<Longrightarrow> fmlookup (w_colour w) (fr_parents f ! fr_next f) = None \<Longrightarrow>
     load env w (fr_parents f ! fr_next f) USIZE_MAX = Inr (ps, w') \<Longrightarrow>
     v s (fr_parents f ! fr_next f) = (stop, s') \<Longrightarrow>
     dfs_loop env v w s (f # stack) =
       (if stop then Inr (Hit, set_colour (fr_parents f ! fr_next f) Grey w', s')
        else dfs_loop env v (set_colour (fr_parents f ! fr_next f) Grey w') s'
          (\<lparr>fr_id = fr_parents f ! fr_next f, fr_parents = ps, fr_next = 0\<rparr> #
           f\<lparr>fr_next := fr_next f + 1\<rparr> # stack))"
  by (rule trans [OF dfs_loop.simps(2)], simp add: Let_def)+

context parent_provider
begin

lemma dfs_loop_correct:
  assumes env: "we_window env = window"
  shows "dfs_inv dag env start v s0 w s stack order \<Longrightarrow> dfs_post dag env start v s0 (dfs_loop env v w s stack)"
  using env
proof (induction env v w s stack arbitrary: order rule: dfs_loop.induct)
  case (1 env v w s)
  then show ?case by (auto simp: dfs_post_def)
next
  case (2 env v w s f stack)
  note inv = "2.prems"(1) and env = "2.prems"(2)
  let ?parent = "fr_parents f ! fr_next f" and ?f = "f\<lparr>fr_next := fr_next f + 1\<rparr>"
  show ?case
  proof (cases "fr_next f < length (fr_parents f)")
    case False
    then show ?thesis
      using "2.IH"(3) [OF False dfs_inv_pop [OF inv False] env] by (simp only: dfs_loop_steps(1) [OF False])
  next
    case more: True
    note colours = dfs_inv_top(1) [OF inv more] and reached = dfs_inv_top(2) [OF inv more]
    consider (grey) "fmlookup (w_colour w) ?parent = Some Grey" | (black) "black (w_colour w) ?parent"
      | (new) "fmlookup (w_colour w) ?parent = None"
      by (metis colour.exhaust option.exhaust)
    then show ?thesis
    proof cases
      case grey
      then show ?thesis
        using dfs_inv_cycle [OF inv more grey] reached by (simp add: dfs_loop_steps(2) [OF more grey] dfs_post_def)
    next
      case black
      then show ?thesis
        using "2.IH"(2) [OF more refl refl black refl dfs_inv_advance [OF inv more black] env]
        by (simp only: dfs_loop_steps(3) [OF more black])
    next
      case new
      have post: "load_post dag env w ?parent (load env w ?parent USIZE_MAX)"
        using inv env by (intro load_correct) (simp_all add: dfs_inv_def)
      show ?thesis
      proof (cases "load env w ?parent USIZE_MAX")
        case (Inl e)
        have "dfs_post dag env start v s0 (Inl e)"
          using inv post Inl by (intro dfs_post_load_error [OF colours new reached]) (simp_all add: dfs_inv_def)
        then show ?thesis by (simp add: dfs_loop_steps(4) [OF more new Inl])
      next
        case (Inr r)
        obtain ps w' where r: "r = (ps, w')" by (cases r)
        obtain stop s' where go: "v s ?parent = (stop, s')" by (cases "v s ?parent")
        note unfold = dfs_loop_steps(5) [where v = v, OF more new Inr [unfolded r] go]
        show ?thesis
        proof (cases stop)
          case True
          have "dag ?parent \<noteq> None" using post Inr r by (simp add: load_post_def)
          moreover have "visits v s0 order = Some s" using inv by (simp add: dfs_inv_def)
          ultimately have "dfs_post dag env start v s0 (Inr (Hit, set_colour ?parent Grey w', s'))"
            using go True reached by (auto simp: dfs_post_def)
          then show ?thesis using True by (simp add: unfold)
        next
          case False
          have go': "v s ?parent = (False, s')" using go False by simp
          have inv': "dfs_inv dag env start v s0 (set_colour ?parent Grey w') s'
              (\<lparr>fr_id = ?parent, fr_parents = ps, fr_next = 0\<rparr> # ?f # stack) (order @ [?parent])"
            by (rule dfs_inv_push [OF inv more refl new post [unfolded Inr r] go'])
          from "2.IH"(1) [OF more refl refl new Inr r [symmetric] refl refl go [symmetric] False this env]
          show ?thesis using False by (simp add: unfold)
        qed
      qed
    qed
  qed
qed

lemma dfs_correct:
  assumes env: "we_window env = window" and sound: "sound_walk dag w"
    and fresh: "w_colour w = fmempty" "w_record w \<in> {None, Some fmempty}"
  shows "dfs_post dag env start v s0 (dfs env v w start s0)"
proof -
  have post: "load_post dag env w start (load env w start USIZE_MAX)"
    by (rule load_correct [OF env sound])
  show ?thesis
  proof (cases "load env w start USIZE_MAX")
    case (Inl e)
    have "\<exists>S. finite S \<and> 0 < card S \<and> S \<subseteq> {c. reach dag start c}"
      by (rule exI [of _ "{start}"]) simp
    then have "dfs_post dag env start v s0 (Inl e)"
      using post fresh unfolding Inl by (cases e) (auto simp: load_post_def dfs_post_def fcard_fempty)
    then show ?thesis by (simp add: dfs_def Inl)
  next
    case (Inr r)
    obtain ps w' where r: "r = (ps, w')" by (cases r)
    obtain stop s' where go: "v s0 start = (stop, s')" by (cases "v s0 start")
    have w': "dag start = Some ps" "sound_walk dag w'" "w_colour w' = fmempty"
      "w_record w' = map_option (fmupd start ps) (w_record w)" "0 < max_visited (we_limits env)"
      using post fresh unfolding Inr r by (simp_all add: load_post_def)
    show ?thesis
    proof (cases stop)
      case True
      have "dfs_post dag env start v s0 (Inr (Hit, set_colour start Grey w', s'))"
        using go True w'(1) exI [of "\<lambda>order. visits v s0 order = Some s0" "[]"]
        by (simp add: dfs_post_def) blast
      then show ?thesis using Inr r go True by (simp add: dfs_def)
    next
      case False
      have "entered dag start (set_colour start Grey w') [start]"
        using w' fresh(2) by (auto simp: entered_def set_colour_def)
      moreover have "{(c, p). black (fmupd start Grey fmempty) c \<and> edge dag c p} = {}"
        by (auto split: if_splits)
      then have "acyclic {(c, p). black (fmupd start Grey fmempty) c \<and> edge dag c p}"
        by (simp only: acyclic_def) simp
      then have "colours_ok dag start (fmupd start Grey fmempty) [start]"
        unfolding colours_ok_def by (intro conjI) (auto split: if_splits)
      ultimately have "dfs_inv dag env start v s0 (set_colour start Grey w') s'
          [\<lparr>fr_id = start, fr_parents = ps, fr_next = 0\<rparr>] [start]"
        using w' go False
        by (simp add: dfs_inv_def set_colour_def sound_walk_def fcard_finsert_disjoint fcard_fempty)
      from dfs_loop_correct [OF env this] show ?thesis
        using Inr r go False by (simp add: dfs_def)
    qed
  qed
qed

end

section \<open>Complete searches\<close>

lemma complete_black:
  assumes "dfs_inv dag env start v s0 w s [] order" "reach dag start c"
  shows "black (w_colour w) c"
  using assms(2)
proof (induction rule: rtranclp_induct)
  case base
  have "start |\<in>| fmdom (w_colour w)" and no_grey: "fmlookup (w_colour w) c \<noteq> Some Grey" for c
    using assms(1) by (auto simp: dfs_inv_def colours_ok_def)
  then obtain k where "fmlookup (w_colour w) start = Some k" by (auto elim: fmdomE)
  then show ?case using no_grey [of start] by (cases k) auto
next
  case (step c d)
  then show ?case using assms(1) by (auto simp: dfs_inv_def colours_ok_def)
qed

lemma complete_order:
  assumes inv: "dfs_inv dag env start v s0 w s [] order"
  shows "set order = {c. reach dag start c}" "distinct order" "hd order = start"
    "\<And>c. reach dag start c \<Longrightarrow> dag c \<noteq> None"
proof -
  have dom: "set order = fset (fmdom (w_colour w))" and order: "distinct order" "hd order = start"
    "\<forall>c \<in> set order. dag c \<noteq> None"
    using inv by (auto simp: dfs_inv_def entered_def simp flip: fset_of_list.rep_eq)
  have "c \<in> fset (fmdom (w_colour w)) \<longleftrightarrow> reach dag start c" for c
    using inv complete_black [OF inv, of c] by (auto simp: dfs_inv_def colours_ok_def intro: fmdomI)
  then show reached: "set order = {c. reach dag start c}" using dom by auto
  show "distinct order" "hd order = start" by fact+
  show "\<And>c. reach dag start c \<Longrightarrow> dag c \<noteq> None" using order(3) reached by blast
qed

lemma complete_acyclic:
  assumes inv: "dfs_inv dag env start v s0 w s [] order" and reached: "reach dag start c"
  shows "\<not> (edge dag)\<^sup>+\<^sup>+ c c"
proof
  let ?R = "{(c, p). black (w_colour w) c \<and> edge dag c p}"
  have path: "(c, d) \<in> ?R\<^sup>+" if "(edge dag)\<^sup>+\<^sup>+ c d" for d
    using that
  proof (induction rule: tranclp_induct)
    case (base d)
    then show ?case using complete_black [OF inv reached] by auto
  next
    case (step d e)
    have "reach dag start d"
      using reached step.hyps(1) by (meson rtranclp_trans tranclp_into_rtranclp)
    then have "(d, e) \<in> ?R" using complete_black [OF inv] step.hyps(2) by simp
    with step.IH show ?case by (rule trancl_into_trancl)
  qed
  assume "(edge dag)\<^sup>+\<^sup>+ c c"
  then have "(c, c) \<in> ?R\<^sup>+" by (rule path)
  moreover have "acyclic ?R" using inv by (simp add: dfs_inv_def colours_ok_def)
  ultimately show False by (simp add: acyclic_def)
qed

section \<open>Windows are retrieval hints\<close>

text \<open>
  Without a deadline and with a provider that does not fail, loading a commit is a function of the graph
  and of the number of commits entered, whatever the windows brought along.
\<close>

definition quiet :: "'e walk_env \<Rightarrow> bool" where
  "quiet env \<longleftrightarrow> deadline (we_limits env) = None \<and> (\<forall>x. \<not> provider_failed (we_window env) x)"

definition answer :: "'e dag_error + (dfs_outcome \<times> walk \<times> 's) \<Rightarrow>
    'e dag_error + (dfs_outcome \<times> (commit_id, commit_id list) fmap option \<times> 's)" where
  "answer r = rbind r (\<lambda>(outcome, w, s). Inr (outcome, w_record w, s))"

definition same_walk :: "dag \<Rightarrow> walk \<Rightarrow> walk \<Rightarrow> bool" where
  "same_walk dag w w' \<longleftrightarrow>
     sound_walk dag w \<and> sound_walk dag w' \<and> w_colour w = w_colour w' \<and> w_record w = w_record w'"

lemma same_walk_set_colour: "same_walk dag w w' \<Longrightarrow> same_walk dag (set_colour c k w) (set_colour c k w')"
  by (simp add: same_walk_def) (simp add: set_colour_def)

locale two_providers = parent_provider dag window + other: parent_provider dag other_window
  for dag :: dag and window other_window :: "'e window"
begin

lemma load_agrees:
  assumes "we_window env = window" "we_window env' = other_window" "quiet env" "quiet env'"
    and "we_limits env = we_limits env'" and same: "same_walk dag w w'"
  shows "(\<exists>e. load env w a n = Inl e \<and> load env' w' a n = Inl e) \<or>
    (\<exists>ps u u'. load env w a n = Inr (ps, u) \<and> load env' w' a n = Inr (ps, u') \<and> same_walk dag u u')"
proof -
  have "load_post dag env w a (load env w a n)" "load_post dag env' w' a (load env' w' a n)"
    using load_correct [OF assms(1)] other.load_correct [OF assms(2)] same by (simp_all add: same_walk_def)
  then show ?thesis
    using assms(3-5) same
    by (cases "load env w a n"; cases "load env' w' a n")
      (auto simp: load_post_def quiet_def same_walk_def split: dag_error.splits)
qed

lemma dfs_loop_agrees:
  assumes "we_window env = window" "we_window env' = other_window" "quiet env" "quiet env'"
    and "we_limits env = we_limits env'"
  shows "same_walk dag w w' \<Longrightarrow> answer (dfs_loop env v w s stack) = answer (dfs_loop env' v w' s stack)"
  using assms
proof (induction env v w s stack arbitrary: w' rule: dfs_loop.induct)
  case (1 env v w s)
  then show ?case by (simp add: answer_def same_walk_def)
next
  case (2 env v w s f stack)
  note same = "2.prems"(1) and rest = "2.prems"(2-6)
  let ?parent = "fr_parents f ! fr_next f" and ?f = "f\<lparr>fr_next := fr_next f + 1\<rparr>"
  have colour: "w_colour w' = w_colour w" using same by (simp add: same_walk_def)
  show ?case
  proof (cases "fr_next f < length (fr_parents f)")
    case False
    show ?thesis
      using "2.IH"(3) [OF False same_walk_set_colour [OF same] rest]
      unfolding dfs_loop_steps(1) [OF False] .
  next
    case more: True
    consider (grey) "fmlookup (w_colour w) ?parent = Some Grey" | (black) "black (w_colour w) ?parent"
      | (new) "fmlookup (w_colour w) ?parent = None"
      by (metis colour.exhaust option.exhaust)
    then show ?thesis
    proof cases
      case grey
      then show ?thesis
        using colour by (simp add: answer_def dfs_loop_steps(2) [OF more])
    next
      case black
      have "black (w_colour w') ?parent" using black colour by simp
      then show ?thesis
        using "2.IH"(2) [OF more refl refl black refl same rest]
        unfolding dfs_loop_steps(3) [OF more black] by (simp only: dfs_loop_steps(3) [OF more])
    next
      case new
      have new': "fmlookup (w_colour w') ?parent = None" using new colour by simp
      obtain stop t where go: "v s ?parent = (stop, t)" by (cases "v s ?parent")
      consider (err) e where "load env w ?parent USIZE_MAX = Inl e" "load env' w' ?parent USIZE_MAX = Inl e"
        | (ok) ps u u' where "load env w ?parent USIZE_MAX = Inr (ps, u)"
          "load env' w' ?parent USIZE_MAX = Inr (ps, u')" "same_walk dag u u'"
        using load_agrees [OF rest same] by blast
      then show ?thesis
      proof cases
        case err
        then show ?thesis
          by (simp only: dfs_loop_steps(4) [OF more new] dfs_loop_steps(4) [OF more new'] answer_def rbind.simps)
      next
        case ok
        note both = dfs_loop_steps(5) [where v = v, OF more new ok(1) go]
          dfs_loop_steps(5) [where v = v, OF more new' ok(2) go]
        show ?thesis
        proof (cases stop)
          case True
          then show ?thesis
            using ok(3) unfolding both by (simp add: answer_def same_walk_def set_colour_def)
        next
          case False
          from "2.IH"(1) [OF more refl refl new ok(1) refl refl refl go [symmetric] False
              same_walk_set_colour [OF ok(3)] rest]
          show ?thesis using False unfolding both by simp
        qed
      qed
    qed
  qed
qed

lemma dfs_agrees:
  assumes "we_window env = window" "we_window env' = other_window" "quiet env" "quiet env'"
    and "we_limits env = we_limits env'" and same: "same_walk dag w w'"
  shows "answer (dfs env v w start s) = answer (dfs env' v w' start s)"
proof -
  obtain stop t where go: "v s start = (stop, t)" by (cases "v s start")
  consider (err) e where "load env w start USIZE_MAX = Inl e" "load env' w' start USIZE_MAX = Inl e"
    | (ok) ps u u' where "load env w start USIZE_MAX = Inr (ps, u)"
      "load env' w' start USIZE_MAX = Inr (ps, u')" "same_walk dag u u'"
    using load_agrees [OF assms] by blast
  then show ?thesis
  proof cases
    case err
    then show ?thesis by (simp add: dfs_def answer_def)
  next
    case ok
    note loop = dfs_loop_agrees [OF assms(1-5) same_walk_set_colour [OF ok(3)]]
    show ?thesis
      using ok loop by (cases stop) (simp_all add: dfs_def go answer_def same_walk_def set_colour_def)
  qed
qed

end

end
