(* ===== verification/Dag_History.thy ===== *)
theory Dag_History
  imports Dag_Search
begin

text \<open>
  \<^verbatim>\<open>crates/ledger-dag/src/lib.rs\<close>: the in-memory provider \<^verbatim>\<open>MemoryDag\<close>, which meets the contract of
  \<open>Dag_Search\<close>, and what \<open>is_ancestor\<close>, \<open>ancestors\<close>, \<open>ancestry\<close> and \<open>first_parent_history\<close> answer over any
  provider that does.
\<close>

section \<open>The in-memory provider\<close>

record memory_dag =
  md_parents :: "(commit_id, commit_id list) fmap"
  md_window :: nat

definition memory_new :: memory_dag where
  "memory_new = \<lparr>md_parents = fmempty, md_window = 1\<rparr>"

definition with_window :: "nat \<Rightarrow> memory_dag \<Rightarrow> memory_dag" where
  "with_window window d = d\<lparr>md_window := max window 1\<rparr>"

definition memory_insert :: "commit_id \<Rightarrow> commit_id list \<Rightarrow> memory_dag \<Rightarrow> memory_dag" where
  "memory_insert c parents d = d\<lparr>md_parents := fmupd c parents (md_parents d)\<rparr>"

definition memory_get :: "memory_dag \<Rightarrow> commit_id \<Rightarrow> commit_id list option" where
  "memory_get d c = fmlookup (md_parents d) c"

definition memory_len :: "memory_dag \<Rightarrow> nat" where
  "memory_len d = fcard (fmdom (md_parents d))"

text \<open>The inner loop of the breadth-first window: queue every known parent once.\<close>

fun enqueue_parents ::
  "(commit_id, commit_id list) fmap \<Rightarrow> commit_id list \<Rightarrow> commit_id list \<Rightarrow> commit_id fset \<Rightarrow>
   commit_id list \<times> commit_id fset" where
  "enqueue_parents known [] queue queued = (queue, queued)"
| "enqueue_parents known (p # follow) queue queued =
     (if p |\<in>| fmdom known \<and> p |\<notin>| queued
      then enqueue_parents known follow (queue @ [p]) (finsert p queued)
      else enqueue_parents known follow queue queued)"

text \<open>\<open>None\<close> is the panic of indexing the map with an unknown commit.\<close>

function bfs_window ::
  "(commit_id, commit_id list) fmap \<Rightarrow> nat \<Rightarrow> window_kind \<Rightarrow> commit_id list \<Rightarrow> commit_id fset \<Rightarrow>
   (commit_id \<times> commit_id list) list \<Rightarrow> (commit_id \<times> commit_id list) list option" where
  "bfs_window known mx kind [] queued out = Some out"
| "bfs_window known mx kind (c # queue) queued out =
     (if length out \<ge> mx then Some out
      else case fmlookup known c of
             None \<Rightarrow> None
           | Some parents \<Rightarrow>
               (let follow = (case kind of Ancestry \<Rightarrow> parents | FirstParent \<Rightarrow> take (min (length parents) 1) parents);
                    (queue, queued) = enqueue_parents known follow queue queued in
                bfs_window known mx kind queue queued (out @ [(c, parents)])))"
  by pat_completeness auto
termination
  by (relation "measure (\<lambda>(known, mx, kind, queue, queued, out). mx - length out)") auto

definition memory_ancestry_window ::
  "memory_dag \<Rightarrow> commit_id \<Rightarrow> nat \<Rightarrow> window_kind \<Rightarrow> (commit_id \<times> commit_id list) list option" where
  "memory_ancestry_window d start mx kind =
     (let mx = max (min (md_window d) mx) 1;
          known = start |\<in>| fmdom (md_parents d) in
      bfs_window (md_parents d) mx kind (if known then [start] else []) (if known then {|start|} else {||}) [])"

datatype memory_error = IndexPanic

definition memory_window :: "memory_dag \<Rightarrow> memory_error window" where
  "memory_window d start mx kind = ok_or IndexPanic (memory_ancestry_window d start mx kind)"

lemma enqueue_known:
  "set (fst (enqueue_parents known follow queue queued)) \<subseteq> set queue \<union> fset (fmdom known)"
  by (induction known follow queue queued rule: enqueue_parents.induct) (simp_all, blast)

lemma bfs_window_Some:
  assumes "set queue \<subseteq> fset (fmdom known)"
  shows "\<exists>more. bfs_window known mx kind queue queued out = Some (out @ more) \<and>
    (\<forall>(c, ps) \<in> set more. fmlookup known c = Some ps) \<and>
    (length out < mx \<longrightarrow> queue \<noteq> [] \<longrightarrow> (\<exists>ps. (hd queue, ps) \<in> set more))"
  using assms
proof (induction known mx kind queue queued out rule: bfs_window.induct)
  case (1 known mx kind queued out)
  then show ?case by simp
next
  case (2 known mx kind c queue queued out)
  obtain parents where parents: "fmlookup known c = Some parents"
    using "2.prems" by (auto elim: fmdomE)
  let ?follow = "case kind of Ancestry \<Rightarrow> parents | FirstParent \<Rightarrow> take (min (length parents) 1) parents"
  obtain queue' queued' where enq: "enqueue_parents known ?follow queue queued = (queue', queued')"
    by (cases "enqueue_parents known ?follow queue queued")
  have "set queue' \<subseteq> fset (fmdom known)"
    using enqueue_known [of known ?follow queue queued] "2.prems" enq by auto
  then show ?case
    using "2.IH" [OF _ parents refl enq [symmetric] refl] parents enq
    by (cases "mx \<le> length out") fastforce+
qed

lemma memory_window_ok:
  "\<exists>es. memory_window d start mx kind = Inr es \<and> (\<forall>(c, ps) \<in> set es. fmlookup (md_parents d) c = Some ps) \<and>
     (start |\<in>| fmdom (md_parents d) \<longrightarrow> (\<exists>ps. (start, ps) \<in> set es))"
proof (cases "start |\<in>| fmdom (md_parents d)")
  case True
  then show ?thesis
    using bfs_window_Some [of "[start]" "md_parents d" "max (min (md_window d) mx) 1" kind "{|start|}" "[]"]
    by (auto simp: memory_window_def memory_ancestry_window_def Let_def)
next
  case False
  then show ?thesis
    by (simp add: memory_window_def memory_ancestry_window_def Let_def)
qed

lemma memory_never_fails: "\<not> provider_failed (memory_window d) x"
  unfolding provider_failed_def by (metis memory_window_ok sum.distinct(1))

interpretation memory: parent_provider "fmlookup (md_parents d)" "memory_window d" for d
proof
  fix start mx kind es c ps
  assume "memory_window d start mx kind = Inr es" "(c, ps) \<in> set es"
  then show "fmlookup (md_parents d) c = Some ps"
    using memory_window_ok [of d start mx kind] by auto
next
  fix start mx kind es ps
  assume "memory_window d start mx kind = Inr es" "fmlookup (md_parents d) start = Some ps"
  then show "(start, ps) \<in> set es"
    using memory_window_ok [of d start mx kind] by (fastforce intro: fmdomI)
qed

text \<open>A provider that only answers single commits, through the default window.\<close>

interpretation single: parent_provider "\<lambda>c. case parents c of Inr known \<Rightarrow> known | Inl _ \<Rightarrow> None" "default_window parents"
  for parents :: "commit_id \<Rightarrow> 'e + commit_id list option"
  by unfold_locales (auto simp: default_window_def rbind_eq_Inr split: option.splits)

interpretation memory_pair: two_providers "fmlookup m" "memory_window \<lparr>md_parents = m, md_window = i\<rparr>"
  "memory_window \<lparr>md_parents = m, md_window = j\<rparr>" for m i j
  using memory.parent_provider_axioms [of "\<lparr>md_parents = m, md_window = i\<rparr>"]
    memory.parent_provider_axioms [of "\<lparr>md_parents = m, md_window = j\<rparr>"]
  by (simp add: two_providers_def)

section \<open>What each question answers\<close>

definition history_ok :: "dag \<Rightarrow> commit_id \<Rightarrow> bool" where
  "history_ok dag head \<longleftrightarrow>
     (\<forall>c. reach dag head c \<longrightarrow> dag c \<noteq> None \<and> \<not> (edge dag)\<^sup>+\<^sup>+ c c)"

text \<open>Why a walk may fail: each error is justified by the graph, the limits or the provider.\<close>

fun error_ok :: "dag \<Rightarrow> 'e window \<Rightarrow> commit_id \<Rightarrow> traversal_limits \<Rightarrow> 'e dag_error \<Rightarrow> bool" where
  "error_ok dag window head limits (UnknownCommit c) \<longleftrightarrow> reach dag head c \<and> dag c = None"
| "error_ok dag window head limits (Cycle c) \<longleftrightarrow> reach dag head c \<and> (edge dag)\<^sup>+\<^sup>+ c c"
| "error_ok dag window head limits (VisitLimit n) \<longleftrightarrow>
     n = max_visited limits \<and> (\<exists>S. finite S \<and> n < card S \<and> S \<subseteq> {c. reach dag head c})"
| "error_ok dag window head limits Deadline \<longleftrightarrow> deadline limits \<noteq> None"
| "error_ok dag window head limits (Provider x) \<longleftrightarrow> provider_failed window x"

lemma dfs_post_error: "dfs_post dag env start v s0 (Inl e) \<longleftrightarrow> error_ok dag (we_window env) start (we_limits env) e"
  by (cases e) (auto simp: dfs_post_def)

lemma walk_env_of_simps [simp]:
  "we_window (walk_env_of window clock limits kind) = window"
  "we_limits (walk_env_of window clock limits kind) = limits"
  by (simp_all add: walk_env_of_def)

lemma walk_new_simps [simp]: "w_colour walk_new = fmempty" "w_record walk_new = None"
  by (simp_all add: walk_new_def)

lemma complete_history_ok: "dfs_inv dag env start v s0 w s [] order \<Longrightarrow> history_ok dag start"
  using complete_acyclic complete_order(4) by (fastforce simp: history_ok_def)

lemma visits_never: "(\<And>t c. fst (v t c) = False) \<Longrightarrow> visits v s cs = Some (foldl (\<lambda>t c. snd (v t c)) s cs)"
  by (induction cs arbitrary: s) auto

lemma foldl_snoc: "foldl (\<lambda>order c. order @ [c]) xs cs = xs @ cs"
  by (induction cs arbitrary: xs) auto

lemma visits_search: "visits (\<lambda>s c. (c = a, ())) () cs = Some () \<longleftrightarrow> a \<notin> set cs"
  by (induction cs) auto

lemma quiet_history_no_error:
  assumes "history_ok dag head" "deadline limits = None" "\<And>x. \<not> provider_failed window x"
    and "finite {c. reach dag head c}" "card {c. reach dag head c} \<le> max_visited limits"
  shows "\<not> error_ok dag window head limits e"
proof (cases e)
  case (VisitLimit n)
  have "card S \<le> max_visited limits" if "S \<subseteq> {c. reach dag head c}" for S
    using card_mono [OF assms(4) that] assms(5) by simp
  then show ?thesis using VisitLimit by (auto simp: not_less)
qed (use assms in \<open>auto simp: history_ok_def\<close>)

lemma load_record: "load env w a n = Inr (ps, w') \<Longrightarrow> w_record w' = None \<longleftrightarrow> w_record w = None"
proof -
  have fetch: "fetch_window env v a n = Inr (ps, u) \<Longrightarrow> w_record u = w_record v" for v u
    by (auto simp: fetch_window_def Let_def result_simps case_prod_unfold dest!: check_deadline_same)
  assume "load env w a n = Inr (ps, w')"
  then show ?thesis
    by (auto simp: load_def Let_def rbind_eq_Inr record_parents_def
        dest!: fetch check_deadline_same split: if_splits option.splits)
qed

lemma dfs_loop_record:
  "dfs_loop env v w s stack = Inr (outcome, w', s') \<Longrightarrow> w_record w' = None \<longleftrightarrow> w_record w = None"
proof (induction env v w s stack rule: dfs_loop.induct)
  case (1 env v w s)
  then show ?case by simp
next
  case (2 env v w s f stack)
  show ?case
    using "2.prems" "2.IH"
    by (subst (asm) dfs_loop.simps(2))
      (auto simp: Let_def set_colour_def dest!: load_record split: if_splits option.splits colour.splits sum.splits prod.splits)
qed

lemma dfs_record:
  "dfs env v w start s = Inr (outcome, w', s') \<Longrightarrow> w_record w' = None \<longleftrightarrow> w_record w = None"
  by (auto simp: dfs_def Let_def set_colour_def dest!: load_record dfs_loop_record
      split: sum.splits prod.splits if_splits)

context parent_provider
begin

lemma ancestors_post:
  "case ancestors window clock head limits of
     Inr order \<Rightarrow> distinct order \<and> set order = {c. reach dag head c} \<and> hd order = head \<and> history_ok dag head
   | Inl e \<Rightarrow> error_ok dag window head limits e"
proof -
  let ?env = "walk_env_of window clock limits Ancestry" and ?v = "\<lambda>order c. (False, order @ [c])"
  have post: "dfs_post dag ?env head ?v [] (dfs ?env ?v walk_new head [])"
    by (rule dfs_correct) simp_all
  show ?thesis
  proof (cases "dfs ?env ?v walk_new head []")
    case (Inl e)
    then show ?thesis using post by (simp add: ancestors_def dfs_post_error)
  next
    case (Inr r)
    obtain outcome w s where r: "r = (outcome, w, s)" by (cases r)
    have "outcome = Complete" using post unfolding Inr r by (cases outcome) (auto simp: dfs_post_def)
    then obtain order where inv: "dfs_inv dag ?env head ?v [] w s [] order"
      using post unfolding Inr r by (auto simp: dfs_post_def)
    have "s = order" using inv by (simp add: dfs_inv_def visits_never foldl_snoc)
    then show ?thesis
      using complete_order [OF inv] complete_history_ok [OF inv] Inr r by (simp add: ancestors_def)
  qed
qed

lemma ancestry_post:
  "case ancestry window clock head limits of
     Inr a \<Rightarrow> (\<forall>c. fmlookup a c = (if reach dag head c then dag c else None)) \<and> history_ok dag head
   | Inl e \<Rightarrow> error_ok dag window head limits e"
proof -
  let ?env = "walk_env_of window clock limits Ancestry" and ?v = "\<lambda>s c. (False, s)"
  let ?w = "walk_new\<lparr>w_record := Some fmempty\<rparr>"
  have post: "dfs_post dag ?env head ?v () (dfs ?env ?v ?w head ())"
    by (rule dfs_correct) simp_all
  show ?thesis
  proof (cases "dfs ?env ?v ?w head ()")
    case (Inl e)
    then show ?thesis using post by (simp add: ancestry_def dfs_post_error)
  next
    case (Inr r)
    obtain outcome w s where r: "r = (outcome, w, s)" by (cases r)
    have "outcome = Complete" using post unfolding Inr r by (cases outcome) (auto simp: dfs_post_def)
    then obtain order where inv: "dfs_inv dag ?env head ?v () w s [] order"
      using post unfolding Inr r by (auto simp: dfs_post_def)
    obtain a where a: "w_record w = Some a"
      using Inr r dfs_record [of ?env ?v ?w head "()"] by auto
    have "fmlookup a c = (if reach dag head c then dag c else None)" for c
      using inv a complete_order(1) [OF inv] by (auto simp: dfs_inv_def entered_def)
    then show ?thesis
      using complete_history_ok [OF inv] Inr r a by (simp add: ancestry_def)
  qed
qed

lemma is_ancestor_post:
  "case is_ancestor window clock a head limits of
     Inr found \<Rightarrow> found \<longleftrightarrow> reach dag head a \<and> dag a \<noteq> None
   | Inl e \<Rightarrow> error_ok dag window head limits e"
proof -
  let ?env = "walk_env_of window clock limits Ancestry" and ?v = "\<lambda>s c. (c = a, s)"
  have post: "dfs_post dag ?env head ?v () (dfs ?env ?v walk_new head ())"
    by (rule dfs_correct) simp_all
  show ?thesis
  proof (cases "dfs ?env ?v walk_new head ()")
    case (Inl e)
    then show ?thesis using post by (simp add: is_ancestor_def dfs_post_error)
  next
    case (Inr r)
    obtain outcome w s where r: "r = (outcome, w, s)" by (cases r)
    show ?thesis
    proof (cases outcome)
      case Hit
      then have "reach dag head a \<and> dag a \<noteq> None"
        using post unfolding Inr r by (auto simp: dfs_post_def)
      then show ?thesis unfolding is_ancestor_def Inr r by (simp add: Hit)
    next
      case Complete
      then obtain order where inv: "dfs_inv dag ?env head ?v () w s [] order"
        using post unfolding Inr r by (auto simp: dfs_post_def)
      have "a \<notin> set order" using inv by (simp add: dfs_inv_def visits_search)
      then show ?thesis
        using complete_order(1) [OF inv] unfolding is_ancestor_def Inr r by (simp add: Complete)
    qed
  qed
qed

end

section \<open>First-parent history\<close>

text \<open>The reference: follow position 0 for at most \<open>n\<close> commits.\<close>

fun first_parents :: "dag \<Rightarrow> nat \<Rightarrow> commit_id \<Rightarrow> commit_id list" where
  "first_parents dag 0 c = []"
| "first_parents dag (Suc n) c = c # (case dag c of Some (p # _) \<Rightarrow> first_parents dag n p | _ \<Rightarrow> [])"

text \<open>
  What justifies an error on the way along the chain: an unknown commit on it, a commit that occurs on it
  twice, a chain longer than the visit limit, a deadline that was set, a failure of the provider.
\<close>

fun chain_error_ok :: "dag \<Rightarrow> 'e window \<Rightarrow> commit_id list \<Rightarrow> traversal_limits \<Rightarrow> 'e dag_error \<Rightarrow> bool" where
  "chain_error_ok dag window chain limits (UnknownCommit c) \<longleftrightarrow> c \<in> set chain \<and> dag c = None"
| "chain_error_ok dag window chain limits (Cycle c) \<longleftrightarrow>
     (\<exists>i j. i < j \<and> j < length chain \<and> chain ! i = c \<and> chain ! j = c)"
| "chain_error_ok dag window chain limits (VisitLimit n) \<longleftrightarrow> n = max_visited limits \<and> n < length chain"
| "chain_error_ok dag window chain limits Deadline \<longleftrightarrow> deadline limits \<noteq> None"
| "chain_error_ok dag window chain limits (Provider x) \<longleftrightarrow> provider_failed window x"

definition good_chain :: "dag \<Rightarrow> traversal_limits \<Rightarrow> commit_id list \<Rightarrow> bool" where
  "good_chain dag limits chain \<longleftrightarrow>
     distinct chain \<and> (\<forall>c \<in> set chain. dag c \<noteq> None) \<and> length chain \<le> max_visited limits"

lemma good_chain_no_error:
  assumes "good_chain dag limits chain" "deadline limits = None" "\<And>x. \<not> provider_failed window x"
  shows "\<not> chain_error_ok dag window chain limits e"
  using assms by (cases e) (auto simp: good_chain_def nth_eq_iff_index_eq)

lemma first_parents_nonempty: "0 < n \<Longrightarrow> \<exists>cs. first_parents dag n c = c # cs"
  by (cases n) auto

lemma repeated_in_chain:
  assumes "c \<in> set xs"
  shows "\<exists>i j. i < j \<and> j < length (xs @ c # ys) \<and> (xs @ c # ys) ! i = c \<and> (xs @ c # ys) ! j = c"
proof -
  obtain i where "i < length xs" "xs ! i = c" using assms by (auto simp: in_set_conv_nth)
  then show ?thesis by (intro exI [of _ i] exI [of _ "length xs"]) (simp add: nth_append)
qed

context parent_provider
begin

lemma first_parent_loop_post:
  assumes "we_window env = window" "sound_walk dag w" "length history < mx"
    and "fmdom (w_colour w) = fset_of_list history" "distinct history" "current \<notin> set history"
    and "\<forall>c \<in> set history. dag c \<noteq> None" "length history \<le> max_visited (we_limits env)"
  shows "case first_parent_loop env mx w current history of
      Inr h \<Rightarrow> h = history @ first_parents dag (mx - length history) current \<and> good_chain dag (we_limits env) h
    | Inl e \<Rightarrow> chain_error_ok dag window (history @ first_parents dag (mx - length history) current) (we_limits env) e"
  using assms
proof (induction env mx w current history rule: first_parent_loop.induct)
  case (1 env mx w current history)
  let ?history = "history @ [current]"
  have post: "load_post dag env w current (load env w current (mx - length history))"
    by (rule load_correct [OF "1.prems"(1,2)])
  have left: "mx - length history = Suc (mx - length ?history)"
    using "1.prems"(3) by simp
  have visited: "fcard (fmdom (w_colour w)) = length history"
    using "1.prems"(4,5) by (simp add: fcard_def fset_of_list.rep_eq distinct_card)
  show ?case
  proof (cases "load env w current (mx - length history)")
    case (Inl e)
    then have "first_parent_loop env mx w current history = Inl e"
      by (subst first_parent_loop.simps) simp
    moreover have "chain_error_ok dag window (history @ first_parents dag (mx - length history) current) (we_limits env) e"
    proof -
      have "load_post dag env w current (Inl e)" using post Inl by simp
      then show ?thesis
        using "1.prems"(1,8) visited unfolding left by (cases e) (auto simp: load_post_def)
    qed
    ultimately show ?thesis by simp
  next
    case (Inr loaded)
    then obtain ps u where loaded: "load env w current (mx - length history) = Inr (ps, u)" by (cases loaded) auto
    let ?u = "set_colour current Grey u"
    have u: "dag current = Some ps" "sound_walk dag ?u" "w_colour u = w_colour w"
      and room: "length history < max_visited (we_limits env)"
      using post visited unfolding loaded by (simp_all add: load_post_def)
    then have colours: "fmdom (w_colour ?u) = fset_of_list ?history"
      using "1.prems"(4) by (simp add: set_colour_def fset_eq_iff fset_of_list_elem)
    have loop: "first_parent_loop env mx w current history = (if length ?history \<ge> mx then Inr ?history
        else case ps of [] \<Rightarrow> Inr ?history
          | first # _ \<Rightarrow> if first |\<in>| fmdom (w_colour ?u) then Inl (Cycle first)
              else first_parent_loop env mx ?u first ?history)"
      by (subst first_parent_loop.simps) (simp add: loaded Let_def)
    show ?thesis
    proof (cases "length ?history \<ge> mx \<or> ps = []")
      case True
      then have "first_parents dag (mx - length history) current = [current]"
        using u(1) unfolding left by (cases "mx - length ?history") (auto split: list.splits)
      moreover have "first_parent_loop env mx w current history = Inr ?history" using True loop by auto
      ultimately show ?thesis using "1.prems" u(1) room by (auto simp: good_chain_def)
    next
      case False
      then obtain p rest where ps: "ps = p # rest" by (cases ps) auto
      have chain: "history @ first_parents dag (mx - length history) current =
          ?history @ first_parents dag (mx - length ?history) p"
        using u(1) ps unfolding left by simp
      show ?thesis
      proof (cases "p |\<in>| fmdom (w_colour ?u)")
        case True
        obtain cs where "first_parents dag (mx - length ?history) p = p # cs"
          using first_parents_nonempty [of "mx - length ?history" dag p] False by auto
        moreover have "p \<in> set ?history" using True by (simp only: colours fset_of_list_elem)
        ultimately show ?thesis
          unfolding chain loop using False ps True repeated_in_chain [of p ?history cs] by simp
      next
        case new: False
        have "case first_parent_loop env mx ?u p ?history of
            Inr h \<Rightarrow> h = ?history @ first_parents dag (mx - length ?history) p \<and> good_chain dag (we_limits env) h
          | Inl e \<Rightarrow> chain_error_ok dag window (?history @ first_parents dag (mx - length ?history) p) (we_limits env) e"
          using False new "1.prems" u colours room
          by (intro "1.IH" [OF loaded refl refl refl _ ps]) (auto simp: fset_of_list_elem)
        then show ?thesis unfolding chain loop using False ps new by simp
      qed
    qed
  qed
qed

lemma first_parent_history_post:
  "case first_parent_history window clock head mx limits of
      Inr h \<Rightarrow> h = first_parents dag mx head \<and> good_chain dag limits h
    | Inl e \<Rightarrow> chain_error_ok dag window (first_parents dag mx head) limits e"
proof (cases "mx = 0")
  case False
  then show ?thesis
    using first_parent_loop_post [of "walk_env_of window clock limits FirstParent" walk_new "[]" mx head]
    by (simp add: first_parent_history_def split: sum.splits)
qed (simp add: first_parent_history_def good_chain_def)

end

section \<open>Properties\<close>

text \<open>A two-commit history for the witnesses.\<close>

definition commit_a :: commit_id where "commit_a = CommitId (ContentId ''a'')"
definition commit_b :: commit_id where "commit_b = CommitId (ContentId ''b'')"

definition demo_dag :: memory_dag where
  "demo_dag = with_window 16 (memory_insert commit_b [commit_a] (memory_insert commit_a [] memory_new))"

lemma demo_distinct [simp]: "commit_a \<noteq> commit_b" "commit_b \<noteq> commit_a"
  by (simp_all add: commit_a_def commit_b_def)

lemma demo_dag_lookup:
  "fmlookup (md_parents demo_dag) c = (if c = commit_b then Some [commit_a] else if c = commit_a then Some [] else None)"
  by (simp add: demo_dag_def with_window_def memory_insert_def memory_new_def)

lemma demo_edge: "edge (fmlookup (md_parents demo_dag)) c p \<longleftrightarrow> c = commit_b \<and> p = commit_a"
  by (simp add: edge_def demo_dag_lookup)

lemma demo_reach: "reach (fmlookup (md_parents demo_dag)) commit_b c \<longleftrightarrow> c = commit_b \<or> c = commit_a"
proof
  assume "reach (fmlookup (md_parents demo_dag)) commit_b c"
  then show "c = commit_b \<or> c = commit_a" by (induction rule: rtranclp_induct) (auto simp: demo_edge)
qed (auto simp: demo_edge)

lemma demo_history_ok: "history_ok (fmlookup (md_parents demo_dag)) commit_b"
proof -
  have "\<not> (edge (fmlookup (md_parents demo_dag)))\<^sup>+\<^sup>+ c c" for c
  proof
    assume loop: "(edge (fmlookup (md_parents demo_dag)))\<^sup>+\<^sup>+ c c"
    have "c = commit_b" using tranclpD [OF loop] by (auto simp: demo_edge)
    moreover have "c = commit_a" using loop by (cases rule: tranclp.cases) (auto simp: demo_edge)
    ultimately show False by simp
  qed
  then show ?thesis by (auto simp: history_ok_def demo_reach demo_dag_lookup)
qed

text \<open>
  C10. \<open>ancestors\<close> over any provider that meets its contract: an answer lists every commit reachable from
  the head exactly once, head first, and certifies that the history is complete and acyclic; every error
  is justified (a reachable unknown commit, a reachable cycle, more reachable commits than the visit
  limit, a deadline that was set, a provider failure).
\<close>

theorem ancestors_spec:
  assumes "parent_provider dag window"
  shows "case ancestors window clock head limits of
      Inr order \<Rightarrow> distinct order \<and> set order = {c. reach dag head c} \<and> hd order = head \<and> history_ok dag head
    | Inl e \<Rightarrow> error_ok dag window head limits e"
  by (rule parent_provider.ancestors_post [OF assms])

theorem ancestors_spec_witness:
  "case ancestors (memory_window demo_dag) (\<lambda>_. 0) commit_b DEFAULT_LIMITS of
      Inr order \<Rightarrow> distinct order \<and> set order = {commit_b, commit_a} \<and> hd order = commit_b
    | Inl e \<Rightarrow> False"
proof -
  have quiet: "\<not> error_ok (fmlookup (md_parents demo_dag)) (memory_window demo_dag) commit_b DEFAULT_LIMITS e" for e
    by (rule quiet_history_no_error [OF demo_history_ok])
      (auto simp: DEFAULT_LIMITS_def memory_never_fails demo_reach Collect_disj_eq card_insert_if)
  show ?thesis
    using ancestors_spec [OF memory.parent_provider_axioms [of demo_dag], where clock = "\<lambda>_. 0" and head = commit_b
        and limits = DEFAULT_LIMITS] quiet
    by (auto simp: demo_reach split: sum.splits)
qed

text \<open>
  C11. The walk always answers when it can: if the reachable history is complete, acyclic, finite and no
  larger than the visit limit, and neither a deadline nor the provider interferes, then \<open>ancestors\<close>,
  \<open>ancestry\<close> and \<open>is_ancestor\<close> all return a result.
\<close>

theorem walks_return:
  assumes "parent_provider dag window" and "history_ok dag head" "deadline limits = None"
    and "\<And>x. \<not> provider_failed window x"
    and "finite {c. reach dag head c}" "card {c. reach dag head c} \<le> max_visited limits"
  shows "(\<exists>order. ancestors window clock head limits = Inr order) \<and>
    (\<exists>a. ancestry window clock head limits = Inr a) \<and>
    (\<exists>found. is_ancestor window clock c head limits = Inr found)"
  using parent_provider.ancestors_post [OF assms(1), where clock = clock and head = head and limits = limits]
    parent_provider.ancestry_post [OF assms(1), where clock = clock and head = head and limits = limits]
    parent_provider.is_ancestor_post [OF assms(1), where clock = clock and a = c and head = head and limits = limits]
    quiet_history_no_error [OF assms(2-6)]
  by (fastforce split: sum.splits)

theorem walks_return_witness:
  "\<exists>found. is_ancestor (memory_window demo_dag) (\<lambda>_. 0) commit_a commit_b DEFAULT_LIMITS = Inr found"
proof -
  have "finite {c. reach (fmlookup (md_parents demo_dag)) commit_b c}"
    "card {c. reach (fmlookup (md_parents demo_dag)) commit_b c} \<le> max_visited DEFAULT_LIMITS"
    by (auto simp: DEFAULT_LIMITS_def demo_reach Collect_disj_eq card_insert_if)
  then show ?thesis
    using walks_return [OF memory.parent_provider_axioms demo_history_ok, where limits = DEFAULT_LIMITS
        and clock = "\<lambda>_. 0" and c = commit_a]
    by (simp add: memory_never_fails DEFAULT_LIMITS_def)
qed

text \<open>
  C12. \<open>is_ancestor\<close> decides reachability: whenever it returns, it returns true exactly for a known commit
  reachable from the descendant through any parent edges; otherwise its error is justified.
\<close>

theorem is_ancestor_spec:
  assumes "parent_provider dag window"
  shows "case is_ancestor window clock ancestor descendant limits of
      Inr found \<Rightarrow> found \<longleftrightarrow> reach dag descendant ancestor \<and> dag ancestor \<noteq> None
    | Inl e \<Rightarrow> error_ok dag window descendant limits e"
  by (rule parent_provider.is_ancestor_post [OF assms])

theorem is_ancestor_spec_witness:
  "case is_ancestor (memory_window demo_dag) (\<lambda>_. 0) commit_b commit_a DEFAULT_LIMITS of
      Inr found \<Rightarrow> \<not> found
    | Inl e \<Rightarrow> error_ok (fmlookup (md_parents demo_dag)) (memory_window demo_dag) commit_a DEFAULT_LIMITS e"
proof -
  have "\<not> reach (fmlookup (md_parents demo_dag)) commit_a commit_b"
    by (auto simp: demo_edge elim: converse_rtranclpE)
  then show ?thesis
    using is_ancestor_spec [OF memory.parent_provider_axioms [of demo_dag], where clock = "\<lambda>_. 0"
        and ancestor = commit_b and descendant = commit_a and limits = DEFAULT_LIMITS]
    by (auto split: sum.splits)
qed

text \<open>
  C13. Retrieval windows never change an answer: two providers of the same graph, with any windows, give
  the same result (value or error) for \<open>ancestors\<close>, \<open>ancestry\<close> and \<open>is_ancestor\<close> when neither fails and no
  deadline is set.
\<close>

theorem windows_irrelevant:
  assumes "parent_provider dag window" "parent_provider dag window'" and "deadline limits = None"
    and "\<And>x. \<not> provider_failed window x" "\<And>x. \<not> provider_failed window' x"
  shows "ancestors window clock head limits = ancestors window' clock' head limits \<and>
    ancestry window clock head limits = ancestry window' clock' head limits \<and>
    is_ancestor window clock c head limits = is_ancestor window' clock' c head limits"
proof -
  let ?env = "walk_env_of window clock limits Ancestry" and ?env' = "walk_env_of window' clock' limits Ancestry"
  have "two_providers dag window window'"
    using assms(1,2) by (simp add: two_providers_def)
  note agree = two_providers.dfs_agrees [OF this, of ?env ?env']
  have "quiet ?env" "quiet ?env'"
    using assms(3-5) by (simp_all add: quiet_def)
  then have same: "answer (dfs ?env v (walk_new\<lparr>w_record := r\<rparr>) head s) =
      answer (dfs ?env' v (walk_new\<lparr>w_record := r\<rparr>) head s)" for v r s
    by (intro agree) (simp_all add: same_walk_def)
  have new: "walk_new\<lparr>w_record := None\<rparr> = walk_new" by (simp add: walk_new_def)
  have alt:
    "ancestors w k head limits = rbind (answer (dfs (walk_env_of w k limits Ancestry)
       (\<lambda>order c. (False, order @ [c])) (walk_new\<lparr>w_record := None\<rparr>) head [])) (\<lambda>(_, _, order). Inr order)"
    "ancestry w k head limits = rbind (answer (dfs (walk_env_of w k limits Ancestry) (\<lambda>s c. (False, s))
       (walk_new\<lparr>w_record := Some fmempty\<rparr>) head ())) (\<lambda>(_, r, _). Inr (case r of Some r \<Rightarrow> r | None \<Rightarrow> fmempty))"
    "is_ancestor w k c head limits = rbind (answer (dfs (walk_env_of w k limits Ancestry) (\<lambda>s d. (d = c, s))
       (walk_new\<lparr>w_record := None\<rparr>) head ())) (\<lambda>(outcome, _). Inr (outcome = Hit))" for w k
    unfolding ancestors_def ancestry_def is_ancestor_def answer_def rbind_assoc new
    by (simp_all add: case_prod_unfold)
  show ?thesis
    unfolding alt same by simp
qed

theorem windows_irrelevant_witness:
  "ancestors (memory_window (with_window 1 demo_dag)) (\<lambda>_. 0) commit_b DEFAULT_LIMITS =
   ancestors (memory_window (with_window 256 demo_dag)) (\<lambda>_. 0) commit_b DEFAULT_LIMITS"
  using windows_irrelevant [of "fmlookup (md_parents demo_dag)" "memory_window (with_window 1 demo_dag)"
      "memory_window (with_window 256 demo_dag)" DEFAULT_LIMITS "\<lambda>_. 0" commit_b "\<lambda>_. 0"]
    memory.parent_provider_axioms [of "with_window 1 demo_dag"]
    memory.parent_provider_axioms [of "with_window 256 demo_dag"]
  by (simp add: memory_never_fails DEFAULT_LIMITS_def with_window_def)

text \<open>
  C16. \<open>first_parent_history\<close> returns the first-parent chain of the head, cut at the requested length: an
  answer is exactly that chain, its commits are known and distinct and within the visit limit. Every error
  is justified: an unknown commit on the chain, a commit that occurs on it twice, a chain longer than the
  visit limit, a deadline that was set, a provider failure. When no deadline is set and the provider does
  not fail, the chain is returned whenever it is good.
\<close>

theorem first_parent_history_spec:
  assumes "parent_provider dag window"
  shows "(case first_parent_history window clock head mx limits of
      Inr h \<Rightarrow> h = first_parents dag mx head \<and> good_chain dag limits h
    | Inl e \<Rightarrow> chain_error_ok dag window (first_parents dag mx head) limits e) \<and>
    (deadline limits = None \<longrightarrow> (\<forall>x. \<not> provider_failed window x) \<longrightarrow> good_chain dag limits (first_parents dag mx head) \<longrightarrow>
       first_parent_history window clock head mx limits = Inr (first_parents dag mx head))"
  using parent_provider.first_parent_history_post [OF assms, where clock = clock and head = head and mx = mx and limits = limits]
    good_chain_no_error [of dag limits "first_parents dag mx head" window]
  by (auto split: sum.splits)

theorem first_parent_history_spec_witness:
  "first_parent_history (memory_window demo_dag) (\<lambda>_. 0) commit_b 2 DEFAULT_LIMITS = Inr [commit_b, commit_a]"
proof -
  have "first_parents (fmlookup (md_parents demo_dag)) 2 commit_b = [commit_b, commit_a]"
    by (simp add: numeral_2_eq_2 demo_dag_lookup)
  then show ?thesis
    using first_parent_history_spec [OF memory.parent_provider_axioms, of demo_dag, where clock = "\<lambda>_. 0" and head = commit_b
        and mx = 2 and limits = DEFAULT_LIMITS]
    by (simp add: memory_never_fails good_chain_def DEFAULT_LIMITS_def demo_dag_lookup)
qed

end
