(* ===== verification/Dag_Merge_Base.thy ===== *)
theory Dag_Merge_Base
  imports Dag_History
begin

text \<open>
  \<^verbatim>\<open>crates/ledger-dag/src/lib.rs\<close>, the merge inputs: best common ancestors, the merge base, ahead/behind
  counts and the analysis that classifies a merge. A question that walks twice takes one clock per walk.
\<close>

section \<open>Best common ancestors\<close>

datatype merge_base = Unique commit_id | Ambiguous "commit_id list" | Unrelated

definition parents_in :: "ancestry_map \<Rightarrow> commit_id \<Rightarrow> commit_id list" where
  "parents_in a c = (case fmlookup a c of None \<Rightarrow> [] | Some ps \<Rightarrow> ps)"

definition mentioned :: "ancestry_map \<Rightarrow> commit_id set" where
  "mentioned a = (\<Union>c \<in> fset (fmdom a). set (parents_in a c))"

lemma mentioned_finite [simp]: "finite (mentioned a)"
  by (simp add: mentioned_def)

lemma parents_in_mentioned: "set (parents_in a c) \<subseteq> mentioned a"
  by (cases "c |\<in>| fmdom a") (auto simp: mentioned_def parents_in_def fmdom_notD)

text \<open>The marking loop; the top of the stack is the head of the list.\<close>

function dominate :: "ancestry_map \<Rightarrow> commit_id fset \<Rightarrow> commit_id list \<Rightarrow> commit_id fset" where
  "dominate a dominated [] = dominated"
| "dominate a dominated (c # stack) =
     (if c |\<in>| dominated then dominate a dominated stack
      else dominate a (finsert c dominated) (rev (parents_in a c) @ stack))"
  by pat_completeness auto
termination
proof (relation "measures [\<lambda>(a, dominated, stack). card ((mentioned a \<union> set stack) - fset dominated),
    \<lambda>(a, dominated, stack). length stack]", goal_cases)
  case (2 a dominated c stack)
  then have "(mentioned a \<union> set (c # stack)) - fset dominated = (mentioned a \<union> set stack) - fset dominated"
    by auto
  then show ?case by simp
next
  case (3 a dominated c stack)
  have "(mentioned a \<union> set (rev (parents_in a c) @ stack)) - fset (finsert c dominated) \<subset>
      (mentioned a \<union> set (c # stack)) - fset dominated"
    using 3 parents_in_mentioned [of a c] by auto
  then have "card ((mentioned a \<union> set (rev (parents_in a c) @ stack)) - fset (finsert c dominated)) <
      card ((mentioned a \<union> set (c # stack)) - fset dominated)"
    by (intro psubset_card_mono) simp_all
  then show ?case by simp
qed simp

definition best_common_ancestors :: "ancestry_map \<Rightarrow> ancestry_map \<Rightarrow> commit_id list" where
  "best_common_ancestors a b =
     (let common = filter (ancestry_contains b) (sorted_list_of_fset (fmdom a));
          dominated = dominate a {||} (rev (concat (map (parents_in a) common))) in
      sorted_list_of_fset (fset_of_list (filter (\<lambda>c. c |\<notin>| dominated) common)))"

fun classify_base :: "commit_id list \<Rightarrow> merge_base" where
  "classify_base [] = Unrelated"
| "classify_base [c] = Unique c"
| "classify_base best = Ambiguous best"

definition merge_base_of ::
  "'e window \<Rightarrow> (nat \<Rightarrow> nat) \<Rightarrow> (nat \<Rightarrow> nat) \<Rightarrow> commit_id \<Rightarrow> commit_id \<Rightarrow> traversal_limits \<Rightarrow> 'e dag_error + merge_base" where
  "merge_base_of window clock clock' a b limits =
     rbind (ancestry window clock a limits) (\<lambda>left.
     rbind (ancestry window clock' b limits) (\<lambda>right.
     Inr (classify_base (best_common_ancestors left right))))"

section \<open>Counts and the analysis\<close>

definition ahead_behind_counts :: "ancestry_map \<Rightarrow> ancestry_map \<Rightarrow> nat \<times> nat" where
  "ahead_behind_counts t s =
     (fcard (ffilter (\<lambda>c. \<not> ancestry_contains t c) (fmdom s)),
      fcard (ffilter (\<lambda>c. \<not> ancestry_contains s c) (fmdom t)))"

definition ahead_behind ::
  "'e window \<Rightarrow> (nat \<Rightarrow> nat) \<Rightarrow> (nat \<Rightarrow> nat) \<Rightarrow> commit_id \<Rightarrow> commit_id \<Rightarrow> traversal_limits \<Rightarrow> 'e dag_error + (nat \<times> nat)" where
  "ahead_behind window clock clock' target source limits =
     rbind (ancestry window clock target limits) (\<lambda>t.
     rbind (ancestry window clock' source limits) (\<lambda>s.
     Inr (ahead_behind_counts t s)))"

datatype relation = Equal | SourceContained | FastForward | Divergent merge_base

record analysis =
  an_relation :: relation
  an_ahead :: nat
  an_behind :: nat

definition analyze_with_ancestries ::
  "'e window \<Rightarrow> (nat \<Rightarrow> nat) \<Rightarrow> (nat \<Rightarrow> nat) \<Rightarrow> commit_id \<Rightarrow> commit_id \<Rightarrow> traversal_limits \<Rightarrow>
   'e dag_error + (analysis \<times> ancestry_map \<times> ancestry_map)" where
  "analyze_with_ancestries window clock clock' target source limits =
     rbind (ancestry window clock target limits) (\<lambda>t.
       if target = source then Inr (\<lparr>an_relation = Equal, an_ahead = 0, an_behind = 0\<rparr>, t, t)
       else
         rbind (ancestry window clock' source limits) (\<lambda>s.
         let (ahead, behind) = ahead_behind_counts t s;
             relation =
               (if ancestry_contains t source then SourceContained
                else if ancestry_contains s target then FastForward
                else Divergent (classify_base (best_common_ancestors t s))) in
         Inr (\<lparr>an_relation = relation, an_ahead = ahead, an_behind = behind\<rparr>, t, s)))"

definition analyze ::
  "'e window \<Rightarrow> (nat \<Rightarrow> nat) \<Rightarrow> (nat \<Rightarrow> nat) \<Rightarrow> commit_id \<Rightarrow> commit_id \<Rightarrow> traversal_limits \<Rightarrow> 'e dag_error + analysis" where
  "analyze window clock clock' target source limits =
     rbind (analyze_with_ancestries window clock clock' target source limits) (\<lambda>(analysis, _). Inr analysis)"

section \<open>What the marking loop marks\<close>

lemma edge_fmap: "edge (fmlookup a) c p \<longleftrightarrow> p \<in> set (parents_in a c)"
  by (cases "fmlookup a c") (auto simp: edge_def parents_in_def)

lemma dominate_reach:
  assumes "\<And>c p. c |\<in>| dominated \<Longrightarrow> edge (fmlookup a) c p \<Longrightarrow> p |\<in>| dominated \<or> p \<in> set stack"
  shows "x |\<in>| dominate a dominated stack \<longleftrightarrow> (\<exists>c. (c |\<in>| dominated \<or> c \<in> set stack) \<and> reach (fmlookup a) c x)"
  using assms
proof (induction a dominated stack rule: dominate.induct)
  case (1 a dominated)
  have "x |\<in>| dominated" if "c |\<in>| dominated" "reach (fmlookup a) c x" for c
    using that(2,1) by (induction rule: rtranclp_induct) (use "1" in auto)
  then show ?case by auto
next
  case (2 a dominated c stack)
  show ?case
  proof (cases "c |\<in>| dominated")
    case True
    then show ?thesis using "2.IH"(1) "2.prems" by auto
  next
    case False
    have "x |\<in>| dominate a (finsert c dominated) (rev (parents_in a c) @ stack) \<longleftrightarrow>
        (\<exists>d. (d |\<in>| finsert c dominated \<or> d \<in> set (rev (parents_in a c) @ stack)) \<and> reach (fmlookup a) d x)"
      using "2.prems" by (intro "2.IH"(2) [OF False]) (auto simp: edge_fmap)
    also have "\<dots> \<longleftrightarrow> (\<exists>d. (d |\<in>| dominated \<or> d \<in> set (c # stack)) \<and> reach (fmlookup a) d x)"
      by (auto simp: edge_fmap [symmetric] intro: converse_rtranclp_into_rtranclp)
    finally show ?thesis using False by simp
  qed
qed

lemma best_common_mem:
  "c \<in> set (best_common_ancestors a b) \<longleftrightarrow>
     c |\<in>| fmdom a \<and> c |\<in>| fmdom b \<and>
     \<not> (\<exists>d. d |\<in>| fmdom a \<and> d |\<in>| fmdom b \<and> (edge (fmlookup a))\<^sup>+\<^sup>+ d c)"
proof -
  let ?common = "filter (ancestry_contains b) (sorted_list_of_fset (fmdom a))"
  have "c |\<in>| dominate a {||} (rev (concat (map (parents_in a) ?common))) \<longleftrightarrow>
      (\<exists>d p. d |\<in>| fmdom a \<and> d |\<in>| fmdom b \<and> edge (fmlookup a) d p \<and> reach (fmlookup a) p c)"
    by (subst dominate_reach) (auto simp: edge_fmap ancestry_contains_def)
  also have "\<dots> \<longleftrightarrow> (\<exists>d. d |\<in>| fmdom a \<and> d |\<in>| fmdom b \<and> (edge (fmlookup a))\<^sup>+\<^sup>+ d c)"
    by (meson tranclpD rtranclp_into_tranclp2)
  finally show ?thesis
    by (auto simp: best_common_ancestors_def Let_def ancestry_contains_def fset_of_list.rep_eq)
qed

lemma best_common_sorted: "sorted_wrt (<) (best_common_ancestors a b)"
  by (simp add: best_common_ancestors_def Let_def)

section \<open>Merge bases over the graph\<close>

definition common_ancestor :: "dag \<Rightarrow> commit_id \<Rightarrow> commit_id \<Rightarrow> commit_id \<Rightarrow> bool" where
  "common_ancestor dag x y c \<longleftrightarrow> reach dag x c \<and> reach dag y c"

definition best_common :: "dag \<Rightarrow> commit_id \<Rightarrow> commit_id \<Rightarrow> commit_id \<Rightarrow> bool" where
  "best_common dag x y c \<longleftrightarrow>
     common_ancestor dag x y c \<and> \<not> (\<exists>d. common_ancestor dag x y d \<and> (edge dag)\<^sup>+\<^sup>+ d c)"

text \<open>What one traversal gives: exactly the reachable part of the graph.\<close>

definition ancestry_of :: "dag \<Rightarrow> commit_id \<Rightarrow> ancestry_map \<Rightarrow> bool" where
  "ancestry_of dag head a \<longleftrightarrow>
     (\<forall>c. fmlookup a c = (if reach dag head c then dag c else None)) \<and> history_ok dag head"

lemma ancestry_of_dom: "ancestry_of dag head a \<Longrightarrow> c |\<in>| fmdom a \<longleftrightarrow> reach dag head c"
  by (auto simp: ancestry_of_def history_ok_def fmlookup_dom_iff)

lemma ancestry_of_path:
  assumes "ancestry_of dag head a" "reach dag head d"
  shows "(edge (fmlookup a))\<^sup>+\<^sup>+ d c \<longleftrightarrow> (edge dag)\<^sup>+\<^sup>+ d c"
proof -
  have edge_iff: "edge (fmlookup a) c p \<longleftrightarrow> reach dag head c \<and> edge dag c p" for c p
    using assms(1) by (auto simp: ancestry_of_def edge_def)
  show ?thesis
  proof
    assume "(edge (fmlookup a))\<^sup>+\<^sup>+ d c"
    then show "(edge dag)\<^sup>+\<^sup>+ d c"
      by (induction rule: tranclp_induct) (auto simp: edge_iff intro: tranclp.trancl_into_trancl)
  next
    assume "(edge dag)\<^sup>+\<^sup>+ d c"
    then show "(edge (fmlookup a))\<^sup>+\<^sup>+ d c"
    proof (induction rule: tranclp_induct)
      case (base c)
      then show ?case using assms(2) by (simp add: edge_iff tranclp.r_into_trancl)
    next
      case (step c e)
      have "reach dag head c" using assms(2) step.hyps(1) by (meson rtranclp_trans tranclp_into_rtranclp)
      then have "edge (fmlookup a) c e" using edge_iff step.hyps(2) by blast
      with step.IH show ?case by (rule tranclp.trancl_into_trancl)
    qed
  qed
qed

lemma best_common_set:
  assumes "ancestry_of dag x a" "ancestry_of dag y b"
  shows "set (best_common_ancestors a b) = {c. best_common dag x y c}"
  using ancestry_of_dom [OF assms(1)] ancestry_of_dom [OF assms(2)] ancestry_of_path [OF assms(1)]
  by (auto simp: best_common_mem best_common_def common_ancestor_def)

lemma common_below_best:
  assumes "ancestry_of dag x a" "common_ancestor dag x y c"
  shows "\<exists>m. best_common dag x y m \<and> reach dag m c"
proof -
  let ?S = "{c. common_ancestor dag x y c}"
  let ?R = "{(d, e). d \<in> ?S \<and> e \<in> ?S \<and> (edge dag)\<^sup>+\<^sup>+ d e}"
  have fin: "finite ?S"
    using ancestry_of_dom [OF assms(1)]
    by (intro finite_subset [of ?S "fset (fmdom a)"]) (auto simp: common_ancestor_def)
  have "finite ?R" by (rule finite_subset [of _ "?S \<times> ?S"]) (use fin in auto)
  moreover have "acyclic ?R"
  proof -
    have "trans ?R" by (auto intro!: transI intro: tranclp_trans)
    moreover have "(d, d) \<notin> ?R" for d
      using assms(1) by (auto simp: ancestry_of_def history_ok_def common_ancestor_def)
    ultimately show ?thesis by (simp add: acyclic_def trancl_id)
  qed
  ultimately have "wf ?R" by (rule finite_acyclic_wf)
  then obtain m where m: "m \<in> ?S" "reach dag m c" and least: "\<And>d. (d, m) \<in> ?R \<Longrightarrow> \<not> (d \<in> ?S \<and> reach dag d c)"
    using wfE_min [of ?R c "{d. d \<in> ?S \<and> reach dag d c}"] assms(2) by auto
  have "\<not> (edge dag)\<^sup>+\<^sup>+ d m" if d: "common_ancestor dag x y d" for d
  proof
    assume above: "(edge dag)\<^sup>+\<^sup>+ d m"
    then have "(d, m) \<in> ?R" using d m(1) by simp
    moreover have "reach dag d c" using above m(2) by (meson rtranclp_trans tranclp_into_rtranclp)
    ultimately show False using least d by blast
  qed
  then have "best_common dag x y m"
    using m(1) by (auto simp: best_common_def)
  then show ?thesis using m(2) by blast
qed

fun base_ok :: "dag \<Rightarrow> commit_id \<Rightarrow> commit_id \<Rightarrow> merge_base \<Rightarrow> bool" where
  "base_ok dag x y Unrelated \<longleftrightarrow> (\<forall>c. \<not> common_ancestor dag x y c)"
| "base_ok dag x y (Unique m) \<longleftrightarrow>
     common_ancestor dag x y m \<and> (\<forall>c. common_ancestor dag x y c \<longrightarrow> reach dag m c)"
| "base_ok dag x y (Ambiguous ms) \<longleftrightarrow>
     2 \<le> length ms \<and> sorted_wrt (<) ms \<and> set ms = {c. best_common dag x y c}"

lemma classify_base_ok:
  assumes "ancestry_of dag x a" "ancestry_of dag y b"
  shows "base_ok dag x y (classify_base (best_common_ancestors a b))"
proof -
  note mem = best_common_set [OF assms] and below = common_below_best [OF assms(1), of y]
  show ?thesis
  proof (cases "best_common_ancestors a b" rule: classify_base.cases)
    case 1
    then show ?thesis using mem below by auto
  next
    case (2 m)
    then have "best_common dag x y c \<longleftrightarrow> c = m" for c using mem by auto
    then show ?thesis using 2 below by (auto simp: best_common_def)
  next
    case (3 m n ms)
    then show ?thesis using mem best_common_sorted [of a b] by auto
  qed
qed

context parent_provider
begin

lemma ancestry_result:
  "ancestry window clock head limits = Inr a \<Longrightarrow> ancestry_of dag head a"
  "ancestry window clock head limits = Inl e \<Longrightarrow> error_ok dag window head limits e"
  using ancestry_post [where clock = clock and head = head and limits = limits] by (simp_all add: ancestry_of_def)

end

lemma counts_card:
  assumes "ancestry_of dag x t" "ancestry_of dag y s"
  shows "ahead_behind_counts t s =
    (card {c. reach dag y c \<and> \<not> reach dag x c}, card {c. reach dag x c \<and> \<not> reach dag y c})"
proof -
  have "fset (ffilter (\<lambda>c. \<not> ancestry_contains t c) (fmdom s)) = {c. reach dag y c \<and> \<not> reach dag x c}"
    "fset (ffilter (\<lambda>c. \<not> ancestry_contains s c) (fmdom t)) = {c. reach dag x c \<and> \<not> reach dag y c}"
    using ancestry_of_dom [OF assms(1)] ancestry_of_dom [OF assms(2)]
    by (auto simp: ancestry_contains_def)
  then show ?thesis by (simp only: ahead_behind_counts_def fcard.rep_eq)
qed

section \<open>Properties\<close>

text \<open>
  C14. \<open>merge_base\<close> answers with the best common ancestors of the two histories: \<open>Unrelated\<close> when there is no
  common ancestor; \<open>Unique m\<close> only when \<open>m\<close> is a common ancestor from which every common ancestor is
  reachable; \<open>Ambiguous\<close> with all of the (at least two) maximal common ancestors in ascending order.
  Errors are those of the two walks.
\<close>

theorem merge_base_spec:
  assumes "parent_provider dag window"
  shows "case merge_base_of window clock clock' a b limits of
      Inr base \<Rightarrow> base_ok dag a b base
    | Inl e \<Rightarrow> error_ok dag window a limits e \<or> error_ok dag window b limits e"
  using parent_provider.ancestry_result [OF assms] classify_base_ok
  by (cases "ancestry window clock a limits"; cases "ancestry window clock' b limits")
    (simp_all add: merge_base_of_def)

theorem merge_base_spec_witness:
  "case merge_base_of (memory_window demo_dag) (\<lambda>_. 0) (\<lambda>_. 0) commit_b commit_b DEFAULT_LIMITS of
      Inr base \<Rightarrow> base = Unique commit_b
    | Inl e \<Rightarrow> False"
proof -
  let ?dag = "fmlookup (md_parents demo_dag)"
  have quiet: "\<not> error_ok ?dag (memory_window demo_dag) commit_b DEFAULT_LIMITS e" for e
    by (rule quiet_history_no_error [OF demo_history_ok])
      (auto simp: DEFAULT_LIMITS_def memory_never_fails demo_reach Collect_disj_eq card_insert_if)
  have best: "best_common ?dag commit_b commit_b c \<longleftrightarrow> c = commit_b" for c
  proof -
    have "(edge ?dag)\<^sup>+\<^sup>+ commit_b commit_a" "\<not> (edge ?dag)\<^sup>+\<^sup>+ commit_b commit_b"
      "\<not> (edge ?dag)\<^sup>+\<^sup>+ commit_a commit_b"
      using demo_history_ok by (auto simp: demo_edge demo_reach history_ok_def dest: tranclpD)
    then show ?thesis
      by (auto simp: best_common_def common_ancestor_def demo_reach)
  qed
  then have "Collect (best_common ?dag commit_b commit_b) = {commit_b}" by auto
  moreover have "\<not> reach ?dag commit_a commit_b"
    by (auto simp: demo_edge elim: converse_rtranclpE)
  ultimately have "base = Unique commit_b" if "base_ok ?dag commit_b commit_b base" for base
    using that distinct_card [of "case base of Ambiguous ms \<Rightarrow> ms | _ \<Rightarrow> []"]
    by (cases base) (auto simp: best common_ancestor_def demo_reach strict_sorted_iff)
  then show ?thesis
    using merge_base_spec [OF memory.parent_provider_axioms [of demo_dag], where clock = "\<lambda>_. 0"
        and clock' = "\<lambda>_. 0" and a = commit_b and b = commit_b and limits = DEFAULT_LIMITS] quiet
    by (auto split: sum.splits)
qed

text \<open>
  C15. The merge analysis classifies the pair as the merge protocol defines it (equal heads, source
  contained in the target, fast-forward, or divergent with the merge base), and counts exactly the
  commits that one side has and the other lacks.
\<close>

theorem analyze_spec:
  assumes "parent_provider dag window" and "analyze window clock clock' target source limits = Inr an"
  shows "an_ahead an = card {c. reach dag source c \<and> \<not> reach dag target c} \<and>
    an_behind an = card {c. reach dag target c \<and> \<not> reach dag source c} \<and>
    (case an_relation an of
       Equal \<Rightarrow> target = source
     | SourceContained \<Rightarrow> target \<noteq> source \<and> reach dag target source
     | FastForward \<Rightarrow> \<not> reach dag target source \<and> reach dag source target
     | Divergent base \<Rightarrow> \<not> reach dag target source \<and> \<not> reach dag source target \<and> base_ok dag target source base)"
proof -
  obtain t where t: "ancestry window clock target limits = Inr t"
    using assms(2) by (auto simp: analyze_def analyze_with_ancestries_def rbind_eq_Inr)
  note t' = parent_provider.ancestry_result(1) [OF assms(1) t]
  show ?thesis
  proof (cases "target = source")
    case True
    then show ?thesis using assms(2) t by (auto simp: analyze_def analyze_with_ancestries_def)
  next
    case False
    obtain s where s: "ancestry window clock' source limits = Inr s"
      using assms(2) False t by (auto simp: analyze_def analyze_with_ancestries_def rbind_eq_Inr)
    note s' = parent_provider.ancestry_result(1) [OF assms(1) s]
    show ?thesis
      using assms(2) False t s counts_card [OF t' s'] classify_base_ok [OF t' s']
        ancestry_of_dom [OF t', of source] ancestry_of_dom [OF s', of target]
      by (auto simp: analyze_def analyze_with_ancestries_def ancestry_contains_def)
  qed
qed

theorem analyze_spec_witness:
  "\<exists>an. analyze (memory_window demo_dag) (\<lambda>_. 0) (\<lambda>_. 0) commit_b commit_b DEFAULT_LIMITS = Inr an \<and>
     an_ahead an = 0 \<and> an_behind an = 0"
proof -
  let ?dag = "fmlookup (md_parents demo_dag)"
  have quiet: "\<not> error_ok ?dag (memory_window demo_dag) commit_b DEFAULT_LIMITS e" for e
    by (rule quiet_history_no_error [OF demo_history_ok])
      (auto simp: DEFAULT_LIMITS_def memory_never_fails demo_reach Collect_disj_eq card_insert_if)
  then obtain an where an: "analyze (memory_window demo_dag) (\<lambda>_. 0) (\<lambda>_. 0) commit_b commit_b DEFAULT_LIMITS = Inr an"
    using memory.ancestry_result(2) [of demo_dag "\<lambda>_. 0" commit_b DEFAULT_LIMITS]
    by (cases "ancestry (memory_window demo_dag) (\<lambda>_. 0) commit_b DEFAULT_LIMITS")
      (auto simp: analyze_def analyze_with_ancestries_def)
  from analyze_spec [OF memory.parent_provider_axioms [of demo_dag] this] show ?thesis
    using an by auto
qed

end
