(* ===== verification/Dag_Windows.thy ===== *)
theory Dag_Windows
  imports Dag_History
begin

text \<open>
  How many times a walk asks its provider (\<^verbatim>\<open>crates/ledger-dag/src/lib.rs\<close>, \<open>window_calls\<close>). A walk with a
  deadline reads the clock once for every commit it visits and once more for every answer of the
  provider, so the number of calls is observable: it is what separates the deadlines a walk meets from
  those it misses.
\<close>

section \<open>First-parent chains\<close>

lemma first_parents_take: "first_parents dag (min k n) c = take k (first_parents dag n c)"
proof (induction n arbitrary: k c)
  case (Suc n)
  then show ?case by (cases k) (auto split: option.splits list.splits)
qed simp

text \<open>Where the chain has another commit, it is the first parent.\<close>

lemma first_parents_drop:
  assumes "i < length (first_parents dag n c)"
  shows "drop i (first_parents dag n c) = first_parents dag (n - i) (first_parents dag n c ! i)"
  using assms
proof (induction n arbitrary: i c)
  case (Suc n)
  then show ?case by (cases i) (auto split: option.splits list.splits)
qed simp

lemma first_parents_next:
  assumes "Suc i < length (first_parents dag n c)"
  shows "\<exists>rest. dag (first_parents dag n c ! i) = Some (first_parents dag n c ! Suc i # rest)"
  using assms
proof (induction n arbitrary: i c)
  case (Suc n)
  then obtain p rest where p: "dag c = Some (p # rest)" by (auto split: option.splits list.splits)
  then have chain: "first_parents dag (Suc n) c = c # first_parents dag n p" by simp
  show ?case
  proof (cases i)
    case 0
    obtain cs where "first_parents dag n p = p # cs" using Suc.prems chain 0 by (cases n) auto
    then show ?thesis using p 0 unfolding chain by simp
  next
    case (Suc k)
    then show ?thesis using Suc.IH [of k p] Suc.prems unfolding chain by simp
  qed
qed simp

section \<open>A first-parent window of the in-memory provider\<close>

definition with_parents :: "dag \<Rightarrow> commit_id \<Rightarrow> commit_id \<times> commit_id list" where
  "with_parents dag c = (c, the (dag c))"

lemma bfs_first_parents:
  assumes "length out + n = mx" "\<forall>x \<in> set (first_parents (fmlookup known) n c). fmlookup known x \<noteq> None"
    "distinct (first_parents (fmlookup known) n c)"
    "set (tl (first_parents (fmlookup known) n c)) \<inter> fset queued = {}"
  shows "bfs_window known mx FirstParent [c] queued out =
    Some (out @ map (with_parents (fmlookup known)) (first_parents (fmlookup known) n c))"
  using assms
proof (induction n arbitrary: c queued out)
  case (Suc n)
  obtain ps where ps: "fmlookup known c = Some ps" using Suc.prems(2) by auto
  show ?case
  proof (cases "n = 0 \<or> ps = []")
    case True
    then show ?thesis
      using Suc.prems(1) ps by (cases ps) (auto simp: with_parents_def min_def split: prod.splits)
  next
    case False
    then obtain p rest m where p: "ps = p # rest" "n = Suc m" by (cases ps; cases n) auto
    have chain: "first_parents (fmlookup known) (Suc n) c = c # first_parents (fmlookup known) n p" using ps p by simp
    note prems = Suc.prems [unfolded chain]
    have head: "\<exists>cs. first_parents (fmlookup known) n p = p # cs" using p(2) by simp
    have known: "p |\<in>| fmdom known" "p |\<notin>| queued"
      using prems(2,4) head by (auto intro: fmdomI)
    have "bfs_window known mx FirstParent [p] (finsert p queued) (out @ [(c, ps)]) =
        Some ((out @ [(c, ps)]) @ map (with_parents (fmlookup known)) (first_parents (fmlookup known) n p))"
      by (rule Suc.IH) (use prems head in auto)
    then show ?thesis
      using Suc.prems(1) p ps known unfolding chain by (simp add: with_parents_def)
  qed
qed simp

lemma memory_first_parents:
  assumes "good_chain (fmlookup (md_parents d)) limits (first_parents (fmlookup (md_parents d)) (max (min (md_window d) mx) 1) c)"
  shows "memory_window d c mx FirstParent =
    Inr (map (with_parents (fmlookup (md_parents d)))
      (first_parents (fmlookup (md_parents d)) (max (min (md_window d) mx) 1) c))"
proof -
  let ?dag = "fmlookup (md_parents d)" and ?k = "max (min (md_window d) mx) 1"
  have chain: "\<exists>cs. first_parents ?dag ?k c = c # cs" by (rule first_parents_nonempty) simp
  then have known: "c |\<in>| fmdom (md_parents d)" using assms by (auto simp: good_chain_def intro: fmdomI)
  have "bfs_window (md_parents d) ?k FirstParent [c] {|c|} [] = Some ([] @ map (with_parents ?dag) (first_parents ?dag ?k c))"
    by (rule bfs_first_parents) (use assms chain in \<open>auto simp: good_chain_def\<close>)
  then show ?thesis using known by (simp add: memory_window_def memory_ancestry_window_def Let_def)
qed

section \<open>One commit of the walk\<close>

text \<open>Entries of a window that are all new are all kept.\<close>

lemma absorb_new:
  assumes "\<forall>c \<in> set cs. c \<noteq> anchor \<and> c |\<notin>| fmdom (w_colour w) \<and> c |\<notin>| fmdom (w_prefetched w)" "distinct cs"
    "fcard (fmdom (w_prefetched w)) + length cs \<le> limit"
  shows "\<exists>m. absorb_window limit anchor w found (map (with_parents dag) cs) = (found, w\<lparr>w_prefetched := m\<rparr>) \<and>
    (\<forall>c. fmlookup m c = (if c \<in> set cs then Some (the (dag c)) else fmlookup (w_prefetched w) c))"
  using assms
proof (induction cs arbitrary: w)
  case (Cons x cs)
  let ?w = "w\<lparr>w_prefetched := fmupd x (the (dag x)) (w_prefetched w)\<rparr>"
  have new: "fmlookup (w_prefetched w) x = None" using Cons.prems(1) by (simp add: fmdom_notD)
  have step: "absorb_window limit anchor w found (map (with_parents dag) (x # cs)) =
      absorb_window limit anchor ?w found (map (with_parents dag) cs)"
    using Cons.prems new by (simp add: with_parents_def)
  have "fcard (fmdom (w_prefetched ?w)) = Suc (fcard (fmdom (w_prefetched w)))"
    using Cons.prems(1) by (simp add: fcard_finsert_disjoint)
  then obtain m where "absorb_window limit anchor ?w found (map (with_parents dag) cs) = (found, ?w\<lparr>w_prefetched := m\<rparr>)"
    "\<forall>c. fmlookup m c = (if c \<in> set cs then Some (the (dag c)) else fmlookup (w_prefetched ?w) c)"
    using Cons.IH [of ?w] Cons.prems by auto
  then show ?case unfolding step by auto
next
  case Nil
  then show ?case by (auto intro!: exI [of _ "w_prefetched w"])
qed

text \<open>
  The state of the walk before position \<open>i\<close> of the chain: \<open>calls\<close> answers were received, the next call
  asks for \<open>ask\<close> commits, and the commits up to \<open>done\<close> are at hand.
\<close>

definition walk_at :: "dag \<Rightarrow> commit_id list \<Rightarrow> nat \<Rightarrow> nat \<Rightarrow> nat \<Rightarrow> nat \<Rightarrow> walk \<Rightarrow> bool" where
  "walk_at dag chain i done ask calls w \<longleftrightarrow>
     w_reads w = i + calls \<and> w_ramp w = ask \<and> fmdom (w_colour w) = fset_of_list (take i chain) \<and>
     (\<forall>c. fmlookup (w_prefetched w) c = (if c \<in> set (drop i (take done chain)) then dag c else None)) \<and> w_record w = None"

text \<open>A walk along a good chain that has a deadline, on a clock that strikes at reading \<open>r\<close>.\<close>

definition timed_walk ::
  "memory_dag \<Rightarrow> commit_id list \<Rightarrow> commit_id \<Rightarrow> traversal_limits \<Rightarrow> (nat \<Rightarrow> nat) \<Rightarrow> nat \<Rightarrow> bool" where
  "timed_walk d chain head limits clock r \<longleftrightarrow>
     first_parents (fmlookup (md_parents d)) (length chain) head = chain \<and>
     good_chain (fmlookup (md_parents d)) limits chain \<and>
     (\<exists>t. deadline limits = Some t \<and> (\<forall>k. clock k < t \<longleftrightarrow> k < r))"

lemma timed_facts:
  assumes "timed_walk d chain head limits clock r"
  shows "first_parents (fmlookup (md_parents d)) (length chain) head = chain" "distinct chain"
    "\<forall>c \<in> set chain. fmlookup (md_parents d) c \<noteq> None" "length chain \<le> max_visited limits"
    "\<exists>t. deadline limits = Some t \<and> (\<forall>k. clock k < t \<longleftrightarrow> k < r)"
  using assms unfolding timed_walk_def good_chain_def by blast+

lemma walk_at_facts:
  assumes "walk_at dag chain i done ask calls w"
  shows "w_reads w = i + calls" "w_ramp w = ask" "fmdom (w_colour w) = fset_of_list (take i chain)"
    "fmlookup (w_prefetched w) c = (if c \<in> set (drop i (take done chain)) then dag c else None)" "w_record w = None"
  using assms unfolding walk_at_def by simp_all

lemma timed_check:
  assumes "timed_walk d chain head limits clock r"
  shows "check_deadline (walk_env_of window clock limits kind) w =
    (if w_reads w < r then Inr (w\<lparr>w_reads := w_reads w + 1\<rparr>) else Inl Deadline)"
proof -
  obtain t where t: "deadline limits = Some t" and "\<forall>k. clock k < t \<longleftrightarrow> k < r" using timed_facts(5) [OF assms] by blast
  then have "t \<le> clock k \<longleftrightarrow> \<not> k < r" for k by (simp add: not_less [symmetric])
  then show ?thesis by (simp add: check_deadline_def walk_env_of_def t)
qed

lemma timed_room:
  assumes "timed_walk d chain head limits clock r" "walk_at dag chain i done ask calls w" "i < length chain"
  shows "fcard (fmdom (w_colour w)) = i" "i < max_visited limits"
proof -
  have "distinct (take i chain)" using timed_facts(2) [OF assms(1)] by simp
  then show "fcard (fmdom (w_colour w)) = i"
    using assms(3) unfolding walk_at_facts(3) [OF assms(2)] by (simp add: fcard_def fset_of_list.rep_eq distinct_card)
  show "i < max_visited limits" using timed_facts(4) [OF assms(1)] assms(3) by simp
qed

lemma load_served:
  assumes timed: "timed_walk d chain head limits clock r" and w: "walk_at dag chain i done ask calls w"
    and i: "i < length chain" "i < done" and dag: "dag = fmlookup (md_parents d)"
  shows "if i + calls < r
    then \<exists>w'. load (walk_env_of window clock limits kind) w (chain ! i) wanted = Inr (the (dag (chain ! i)), w') \<and>
           walk_at dag chain (Suc i) done ask calls (set_colour (chain ! i) Grey w')
    else load (walk_env_of window clock limits kind) w (chain ! i) wanted = Inl Deadline"
proof -
  note at = walk_at_facts [OF w]
  have good: "distinct chain" "dag (chain ! i) \<noteq> None"
    using timed_facts(2,3) [OF timed] i(1) nth_mem [OF i(1)] unfolding dag by blast+
  have "drop i (take done chain) = chain ! i # drop (Suc i) (take done chain)"
    using i by (simp add: Cons_nth_drop_Suc [symmetric])
  moreover have "distinct (drop i (take done chain))" using good(1) by simp
  ultimately have here: "chain ! i \<in> set (drop i (take done chain))"
    and rest: "set (drop (Suc i) (take done chain)) = set (drop i (take done chain)) - {chain ! i}" by auto
  have hit: "fmlookup (w_prefetched w) (chain ! i) = Some (the (dag (chain ! i)))"
    using good(2) here by (simp add: at(4))
  let ?w = "w\<lparr>w_reads := Suc (i + calls), w_prefetched := fmdrop (chain ! i) (w_prefetched w)\<rparr>"
  have "walk_at dag chain (Suc i) done ask calls (set_colour (chain ! i) Grey ?w)"
    unfolding walk_at_def rest using i(1) by (simp add: at set_colour_def take_Suc_conv_app_nth fset_eq_iff fset_of_list_elem)
  moreover have "load (walk_env_of window clock limits kind) w (chain ! i) wanted =
      (if i + calls < r then Inr (the (dag (chain ! i)), ?w) else Inl Deadline)"
    using timed_room [OF timed w i(1)]
    by (simp add: load_def timed_check [OF timed] at(1,5) hit record_parents_def Let_def)
  ultimately show ?thesis by simp
qed

text \<open>The window of a call: the part of the chain from \<open>i\<close> on, as far as it was asked for and is offered.\<close>

lemma chain_window:
  assumes timed: "timed_walk d chain head limits clock r" and i: "i < length chain" and ask: "0 < ask"
  shows "memory_window d (chain ! i) (max (min (min (max_visited limits - i) (length chain - i)) ask) 1) FirstParent =
    Inr (map (with_parents (fmlookup (md_parents d)))
      (chain ! i # drop (Suc i) (take (i + min ask (max (md_window d) 1)) chain)))"
proof -
  let ?dag = "fmlookup (md_parents d)" and ?m = "min ask (max (md_window d) 1)"
  let ?asked = "max (min (min (max_visited limits - i) (length chain - i)) ask) 1"
  note facts = timed_facts [OF timed]
  have asked: "max (min (md_window d) ?asked) 1 = min ?m (length chain - i)"
    using ask i facts(4) by (auto simp: min_def max_def)
  have "first_parents ?dag (min ?m (length chain - i)) (chain ! i) = take ?m (first_parents ?dag (length chain - i) (chain ! i))"
    by (rule first_parents_take)
  also have "first_parents ?dag (length chain - i) (chain ! i) = drop i chain"
    using first_parents_drop [of i ?dag "length chain" head] i unfolding facts(1) by simp
  finally have window: "first_parents ?dag (min ?m (length chain - i)) (chain ! i) = take ?m (drop i chain)" .
  have "take ?m (chain ! i # drop (Suc i) chain) = chain ! i # take (?m - 1) (drop (Suc i) chain)"
    using ask by (simp add: take_Cons')
  then have cs: "take ?m (drop i chain) = chain ! i # drop (Suc i) (take (i + ?m) chain)"
    using i by (simp add: drop_take Cons_nth_drop_Suc)
  have "good_chain ?dag limits (take ?m (drop i chain))"
    using facts(2-4) unfolding good_chain_def by (auto dest!: in_set_takeD in_set_dropD)
  then show ?thesis
    using memory_first_parents [of d limits ?asked "chain ! i"] unfolding asked window cs by simp
qed

lemma load_fetched:
  assumes timed: "timed_walk d chain head limits clock r" and w: "walk_at dag chain i i ask calls w"
    and i: "i < length chain" and ask: "0 < ask" and dag: "dag = fmlookup (md_parents d)"
  shows "if Suc (i + calls) < r
    then \<exists>w'. load (walk_env_of (memory_window d) clock limits FirstParent) w (chain ! i) (length chain - i) =
             Inr (the (dag (chain ! i)), w') \<and>
           walk_at dag chain (Suc i) (i + min ask (max (md_window d) 1)) (saturating_mul ask WINDOW_RAMP) (Suc calls)
             (set_colour (chain ! i) Grey w')
    else load (walk_env_of (memory_window d) clock limits FirstParent) w (chain ! i) (length chain - i) = Inl Deadline"
proof -
  let ?env = "walk_env_of (memory_window d) clock limits FirstParent" and ?a = "Some (the (dag (chain ! i)))"
  define cs where "cs = drop (Suc i) (take (i + min ask (max (md_window d) 1)) chain)"
  note at = walk_at_facts [OF w] and room = timed_room [OF timed w i] and facts = timed_facts [OF timed]
  have none: "fmlookup (w_prefetched w) = (\<lambda>_. None)" by (simp add: fun_eq_iff at(4))
  then have empty: "w_prefetched w = fmempty" by (simp add: fmap_ext)
  let ?v = "w\<lparr>w_ramp := saturating_mul ask WINDOW_RAMP, w_reads := Suc (Suc (i + calls))\<rparr>"
  have apart: "c \<noteq> chain ! i" "c \<notin> set (take i chain)" "dag c \<noteq> None" if c: "c \<in> set cs" for c
  proof -
    have "c \<in> set (drop (Suc i) chain)" using c unfolding cs_def drop_take by (rule in_set_takeD)
    moreover have "set (take (Suc i) chain) \<inter> set (drop (Suc i) chain) = {}"
      by (rule set_take_disj_set_drop_if_distinct [OF facts(2)]) simp
    ultimately show "c \<noteq> chain ! i" "c \<notin> set (take i chain)" "dag c \<noteq> None"
      using i facts(3) by (auto simp: take_Suc_conv_app_nth dag dest: in_set_dropD)
  qed
  have "distinct cs" "length cs \<le> max_visited limits" using facts(2,4) by (simp_all add: cs_def)
  then obtain m where m: "absorb_window (max_visited limits) (chain ! i) ?v ?a (map (with_parents dag) cs) =
      (?a, ?v\<lparr>w_prefetched := m\<rparr>)"
    "\<forall>c. fmlookup m c = (if c \<in> set cs then Some (the (dag c)) else None)"
    using absorb_new [of cs "chain ! i" ?v "max_visited limits" ?a dag] apart
    by (auto simp: at(3) empty fset_of_list_elem fcard_fempty)
  have "fmlookup m c = (if c \<in> set cs then dag c else None)" for c using m(2) apart(3) by auto
  then have "walk_at dag chain (Suc i) (i + min ask (max (md_window d) 1)) (saturating_mul ask WINDOW_RAMP) (Suc calls)
      (set_colour (chain ! i) Grey (?v\<lparr>w_prefetched := m\<rparr>))"
    unfolding walk_at_def cs_def [symmetric] using i
    by (simp add: at set_colour_def take_Suc_conv_app_nth fset_eq_iff fset_of_list_elem)
  moreover have "load ?env w (chain ! i) (length chain - i) =
      (if Suc (i + calls) < r then Inr (the (dag (chain ! i)), ?v\<lparr>w_prefetched := m\<rparr>) else Inl Deadline)"
  proof -
    have kind: "we_kind ?env = FirstParent" by (simp add: walk_env_of_def)
    have answer: "memory_window d (chain ! i) (max (min (min (max_visited limits - i) (length chain - i)) ask) (Suc 0)) FirstParent =
        Inr ((chain ! i, the (dag (chain ! i))) # map (with_parents dag) cs)"
      using chain_window [OF timed i ask] unfolding cs_def [symmetric] dag [symmetric] by (simp add: with_parents_def)
    show ?thesis
      using room by (simp add: load_def fetch_window_def timed_check [OF timed] at(1,2,5) empty kind answer m(1)
          record_parents_def Let_def)
  qed
  ultimately show ?thesis by auto
qed

section \<open>The whole walk\<close>

lemma window_calls_from_grows:
  "window_calls_from n W done ask calls = Some k \<Longrightarrow> calls \<le> k \<and> (done < n \<longrightarrow> 0 < min ask W \<longrightarrow> calls < k)"
proof (induction n W "done" ask calls rule: window_calls_from.induct)
  case (1 n W "done" ask calls)
  then show ?case
    by (cases "done < n \<and> 0 < min ask W") (auto simp: window_calls_from.simps [of n W "done"] split: if_splits)
qed

text \<open>One commit: the walk goes on with an invariant number of calls ahead, or the clock strikes too early.\<close>

lemma walk_step:
  assumes timed: "timed_walk d chain head limits clock r" and w: "walk_at dag chain i done ask calls w"
    and i: "i < length chain" "i \<le> done" and ask: "0 < ask" and dag: "dag = fmlookup (md_parents d)"
    and left: "window_calls_from (length chain) (max (md_window d) 1) done ask calls = Some k"
  shows "(\<exists>w' done' ask' calls'.
      load (walk_env_of (memory_window d) clock limits FirstParent) w (chain ! i) (length chain - i) =
        Inr (the (dag (chain ! i)), w') \<and>
      walk_at dag chain (Suc i) done' ask' calls' (set_colour (chain ! i) Grey w') \<and> Suc i \<le> done' \<and> 0 < ask' \<and>
      window_calls_from (length chain) (max (md_window d) 1) done' ask' calls' = Some k \<and> Suc i + calls' \<le> r) \<or>
    load (walk_env_of (memory_window d) clock limits FirstParent) w (chain ! i) (length chain - i) = Inl Deadline \<and>
      r < length chain + k"
proof (cases "i < done")
  case True
  have "calls \<le> k" using window_calls_from_grows [OF left] by simp
  then show ?thesis
    using load_served [OF timed w i(1) True dag, of "memory_window d" FirstParent "length chain - i"] True ask left i(1)
    by (cases "i + calls < r") (fastforce, simp)
next
  case False
  then have done_eq: "done = i" using i(2) by simp
  let ?m = "min ask (max (md_window d) 1)"
  have more: "i < length chain \<and> 0 < ?m" using i(1) ask by simp
  have next_call: "window_calls_from (length chain) (max (md_window d) 1) (i + ?m) (saturating_mul ask WINDOW_RAMP) (Suc calls) = Some k"
    using left more unfolding done_eq by (subst (asm) window_calls_from.simps) (simp split: if_splits)
  have "calls < k" using window_calls_from_grows [OF left] more done_eq by simp
  moreover have "0 < saturating_mul ask WINDOW_RAMP"
    using ask by (simp add: saturating_mul_def WINDOW_RAMP_def USIZE_MAX_def)
  moreover have "Suc i \<le> i + ?m" using more by linarith
  ultimately show ?thesis
    using load_fetched [OF timed w [unfolded done_eq] i(1) ask dag] next_call i(1)
    by (cases "Suc (i + calls) < r") (fastforce, simp)
qed

lemma walk_loop:
  assumes timed: "timed_walk d chain head limits clock r" and dag: "dag = fmlookup (md_parents d)"
    and "walk_at dag chain i done ask calls w" "i < length chain" "i \<le> done" "0 < ask" "i + calls \<le> r"
    and "window_calls_from (length chain) (max (md_window d) 1) done ask calls = Some k"
  shows "first_parent_loop (walk_env_of (memory_window d) clock limits FirstParent) (length chain) w (chain ! i) (take i chain) =
    (if length chain + k \<le> r then Inr chain else Inl Deadline)"
  using assms(3-)
proof (induction "length chain - i" arbitrary: i "done" ask calls w rule: less_induct)
  case less
  let ?env = "walk_env_of (memory_window d) clock limits FirstParent" and ?n = "length chain"
  have len: "min (length chain) i = i" using less.prems(2) by simp
  have grow: "take i chain @ [chain ! i] = take (Suc i) chain" using less.prems(2) by (simp add: take_Suc_conv_app_nth)
  from walk_step [OF timed less.prems(1-4) dag less.prems(6)] show ?case
  proof (elim disjE exE conjE)
    assume "load ?env w (chain ! i) (?n - i) = Inl Deadline" "r < ?n + k"
    then show ?thesis by (subst first_parent_loop.simps) (simp add: len)
  next
    fix w' done' ask' calls'
    assume load: "load ?env w (chain ! i) (?n - i) = Inr (the (dag (chain ! i)), w')"
      and w': "walk_at dag chain (Suc i) done' ask' calls' (set_colour (chain ! i) Grey w')"
      and rest: "Suc i \<le> done'" "0 < ask'" "window_calls_from ?n (max (md_window d) 1) done' ask' calls' = Some k"
        "Suc i + calls' \<le> r"
    show ?thesis
    proof (cases "Suc i < ?n")
      case False
      then have last: "take (Suc i) chain = chain" "Suc i = ?n" using less.prems(2) by simp_all
      moreover have "k = calls'" using rest(1,3) last(2) by (subst (asm) window_calls_from.simps) simp
      ultimately show ?thesis
        using rest(4) load by (subst first_parent_loop.simps) (simp add: len grow Let_def)
    next
      case True
      obtain others where parents: "dag (chain ! i) = Some (chain ! Suc i # others)"
        using first_parents_next [of i dag "length chain" head] True timed_facts(1) [OF timed] by (auto simp: dag)
      have "chain ! Suc i \<notin> set (take (Suc i) chain)"
        using timed_facts(2) [OF timed] True by (auto simp: in_set_conv_nth nth_eq_iff_index_eq)
      then have new: "chain ! Suc i |\<notin>| fmdom (w_colour (set_colour (chain ! i) Grey w'))"
        by (simp add: walk_at_facts(3) [OF w'] fset_of_list_elem)
      have "first_parent_loop ?env ?n (set_colour (chain ! i) Grey w') (chain ! Suc i) (take (Suc i) chain) =
          (if ?n + k \<le> r then Inr chain else Inl Deadline)"
        using less.hyps [OF _ w' True rest(1,2,4,3)] less.prems(2) by simp
      then show ?thesis
        using True new by (subst first_parent_loop.simps) (simp add: len grow load parents Let_def)
    qed
  qed
qed

text \<open>
  C17. \<open>window_calls\<close> is the number of provider calls of a first-parent walk. A walk of the in-memory provider
  along a chain of \<open>n\<close> known, distinct commits reads the clock once for each commit and once for each
  call, so on a clock that passes the deadline at its reading \<open>r\<close> it returns the chain exactly when
  \<open>n\<close> plus \<open>window_calls n\<close> of the provider's window is at most \<open>r\<close>, and reports the deadline otherwise.
\<close>

theorem window_calls_exact:
  assumes "length (first_parents (fmlookup (md_parents d)) n head) = n"
    and "good_chain (fmlookup (md_parents d)) limits (first_parents (fmlookup (md_parents d)) n head)"
    and "deadline limits = Some t" "\<And>k. clock k < t \<longleftrightarrow> k < r"
    and "window_calls n (md_window d) = Some calls"
  shows "first_parent_history (memory_window d) clock head n limits =
    (if n + calls \<le> r then Inr (first_parents (fmlookup (md_parents d)) n head) else Inl Deadline)"
proof (cases "n = 0")
  case True
  then have "calls = 0" using assms(5) by (simp add: window_calls_def window_calls_from.simps)
  then show ?thesis using True by (simp add: first_parent_history_def)
next
  case False
  let ?chain = "first_parents (fmlookup (md_parents d)) n head"
  have timed: "timed_walk d ?chain head limits clock r"
    unfolding timed_walk_def assms(1) using assms(2-4) by auto
  have first: "?chain ! 0 = head" using first_parents_nonempty [of n "fmlookup (md_parents d)" head] False by auto
  have "walk_at (fmlookup (md_parents d)) ?chain 0 0 1 0 walk_new" by (simp add: walk_at_def walk_new_def)
  from walk_loop [OF timed refl this, of calls] show ?thesis
    using False assms(1,5) by (simp add: first_parent_history_def first window_calls_def)
qed

theorem window_calls_exact_witness:
  "window_calls 2 16 = Some 2 \<and>
   first_parent_history (memory_window demo_dag) id commit_b 2 \<lparr>max_visited = 10, deadline = Some 4\<rparr> =
     Inr [commit_b, commit_a] \<and>
   first_parent_history (memory_window demo_dag) id commit_b 2 \<lparr>max_visited = 10, deadline = Some 3\<rparr> = Inl Deadline"
proof -
  have chain: "first_parents (fmlookup (md_parents demo_dag)) 2 commit_b = [commit_b, commit_a]"
    by (simp add: numeral_2_eq_2 demo_dag_lookup)
  have calls: "window_calls 2 16 = Some 2"
    by (simp add: window_calls_def window_calls_from.simps saturating_mul_def USIZE_MAX_def WINDOW_RAMP_def)
  have window: "md_window demo_dag = 16" by (simp add: demo_dag_def with_window_def)
  have "first_parent_history (memory_window demo_dag) id commit_b 2 \<lparr>max_visited = 10, deadline = Some t\<rparr> =
      (if 2 + 2 \<le> t then Inr [commit_b, commit_a] else Inl Deadline)" for t
    using window_calls_exact [of demo_dag 2 commit_b "\<lparr>max_visited = 10, deadline = Some t\<rparr>" t id t 2] chain calls window
    by (simp add: good_chain_def demo_dag_lookup)
  then show ?thesis using calls by simp
qed

end
