(* ===== verification/Merge_ThreeWay.thy ===== *)
theory Merge_ThreeWay
  imports Rdf_Delta Core_Codec
begin

text \<open>
  \<^verbatim>\<open>crates/ledger-merge/src/lib.rs\<close>: the three-way structural merge, its bounded conflict report and the
  preview token. \<open>key\<close> is \<^verbatim>\<open>Quad::structural_key\<close> (see \<open>Rdf_Delta.key_of\<close>); nothing here depends on how
  the key is computed.
\<close>

section \<open>Strategies and limits\<close>

definition MERGE_ALGORITHM_V1 :: string where "MERGE_ALGORITHM_V1 = ''structural-slot/v1''"
definition MAX_REPORTED_CONFLICTS :: nat where "MAX_REPORTED_CONFLICTS = 1000"
definition MAX_REPORTED_QUADS_PER_SIDE :: nat where "MAX_REPORTED_QUADS_PER_SIDE = 64"
definition DEFAULT_CONFLICT_REPORT_BYTES :: nat where "DEFAULT_CONFLICT_REPORT_BYTES = 2 * 1024 * 1024"
definition MIN_CONFLICT_REPORT_BYTES :: nat where "MIN_CONFLICT_REPORT_BYTES = 1024"
definition MAX_CONFLICT_REPORT_BYTES :: nat where "MAX_CONFLICT_REPORT_BYTES = 64 * 1024 * 1024"
definition CONFLICT_ENTRY_FRAMING_BYTES :: nat where "CONFLICT_ENTRY_FRAMING_BYTES = 160"

datatype strategy = Abort | TakeTarget | TakeSource | Union

fun strategy_code :: "strategy \<Rightarrow> byte" where
  "strategy_code Abort = byte_of 0"
| "strategy_code TakeTarget = byte_of 1"
| "strategy_code TakeSource = byte_of 2"
| "strategy_code Union = byte_of 3"

fun strategy_str :: "strategy \<Rightarrow> string" where
  "strategy_str Abort = ''abort''"
| "strategy_str TakeTarget = ''take-target''"
| "strategy_str TakeSource = ''take-source''"
| "strategy_str Union = ''union''"

definition strategy_parse :: "string \<Rightarrow> strategy option" where
  "strategy_parse s =
     (if s = ''abort'' then Some Abort
      else if s = ''take-target'' then Some TakeTarget
      else if s = ''take-source'' then Some TakeSource
      else if s = ''union'' then Some Union
      else None)"

record side =
  sd_quads :: "quad list"
  sd_truncated :: bool

record conflict =
  cf_key :: structural_key
  cf_base :: side
  cf_target :: side
  cf_source :: side

record three_way_result =
  tw_merged :: "quad fset option"
  tw_conflicts :: "conflict list"
  tw_conflict_count :: nat
  tw_conflicts_truncated :: bool

record report_limits =
  rl_max_conflicts :: nat
  rl_max_quads_per_side :: nat
  rl_max_bytes :: nat

definition REPORT_DEFAULT :: report_limits where
  "REPORT_DEFAULT =
     \<lparr>rl_max_conflicts = MAX_REPORTED_CONFLICTS, rl_max_quads_per_side = MAX_REPORTED_QUADS_PER_SIDE,
      rl_max_bytes = DEFAULT_CONFLICT_REPORT_BYTES\<rparr>"

definition REPORT_SMALLEST :: report_limits where
  "REPORT_SMALLEST =
     \<lparr>rl_max_conflicts = MAX_REPORTED_CONFLICTS, rl_max_quads_per_side = MAX_REPORTED_QUADS_PER_SIDE,
      rl_max_bytes = MIN_CONFLICT_REPORT_BYTES\<rparr>"

datatype invalid_report_limit = InvalidReportLimit nat

definition with_max_bytes :: "nat \<Rightarrow> invalid_report_limit + report_limits" where
  "with_max_bytes n =
     (if \<not> (MIN_CONFLICT_REPORT_BYTES \<le> n \<and> n \<le> MAX_CONFLICT_REPORT_BYTES)
      then Inl (InvalidReportLimit n)
      else Inr (REPORT_DEFAULT\<lparr>rl_max_bytes := n\<rparr>))"

section \<open>The conflict report\<close>

definition json_byte_len :: "byte \<Rightarrow> nat" where
  "json_byte_len b =
     (if code b \<in> {34, 92, 8, 12, 10, 13, 9} then 2 else if code b \<le> 31 then 6 else 1)"

definition json_string_len :: "string \<Rightarrow> nat" where
  "json_string_len s = 2 + sum_list (map json_byte_len s)"

record reporter =
  rp_limits :: report_limits
  rp_remaining :: nat
  rp_conflicts :: "conflict list"
  rp_exhausted :: bool
  rp_incomplete :: bool

definition reporter_new :: "report_limits \<Rightarrow> reporter" where
  "reporter_new limits =
     \<lparr>rp_limits = limits, rp_remaining = rl_max_bytes limits, rp_conflicts = [],
      rp_exhausted = False, rp_incomplete = False\<rparr>"

definition charge :: "nat \<Rightarrow> reporter \<Rightarrow> bool \<times> reporter" where
  "charge cost r =
     (if cost > rp_remaining r then (False, r\<lparr>rp_exhausted := True\<rparr>)
      else (True, r\<lparr>rp_remaining := rp_remaining r - cost\<rparr>))"

fun list_quads :: "quad list \<Rightarrow> reporter \<Rightarrow> quad list \<times> reporter" where
  "list_quads [] r = ([], r)"
| "list_quads (q # qs) r =
     (case charge (json_string_len (quad_str q) + 1) r of
        (False, r) \<Rightarrow> ([], r)
      | (True, r) \<Rightarrow> (case list_quads qs r of (listed, r) \<Rightarrow> (q # listed, r)))"

definition report_side :: "quad fset \<Rightarrow> reporter \<Rightarrow> side \<times> reporter" where
  "report_side held r =
     (let (quads, r) =
            (if \<not> rp_exhausted r
             then list_quads (take (rl_max_quads_per_side (rp_limits r)) (sorted_list_of_fset held)) r
             else ([], r));
          truncated = length quads < fcard held in
      (\<lparr>sd_quads = quads, sd_truncated = truncated\<rparr>, r\<lparr>rp_incomplete := rp_incomplete r \<or> truncated\<rparr>))"

record slot =
  sl_base :: "quad fset"
  sl_target :: "quad fset"
  sl_source :: "quad fset"

definition key_cost :: "structural_key \<Rightarrow> nat" where
  "key_cost k =
     CONFLICT_ENTRY_FRAMING_BYTES + (case sk_graph k of None \<Rightarrow> 0 | Some g \<Rightarrow> json_string_len g) +
     json_string_len (sk_subject k) + json_string_len (sk_predicate k)"

definition offer :: "structural_key \<Rightarrow> slot \<Rightarrow> reporter \<Rightarrow> reporter" where
  "offer k s r =
     (if rp_exhausted r then r
      else if length (rp_conflicts r) = rl_max_conflicts (rp_limits r) then r\<lparr>rp_exhausted := True\<rparr>
      else case charge (key_cost k) r of
             (False, r) \<Rightarrow> r
           | (True, r) \<Rightarrow>
               (let (base, r) = report_side (sl_base s) r;
                    (target, r) = report_side (sl_target s) r;
                    (source, r) = report_side (sl_source s) r in
                r\<lparr>rp_conflicts := rp_conflicts r @
                  [\<lparr>cf_key = k, cf_base = base, cf_target = target, cf_source = source\<rparr>]\<rparr>))"

section \<open>The merge\<close>

definition empty_slot :: slot where
  "empty_slot = \<lparr>sl_base = {||}, sl_target = {||}, sl_source = {||}\<rparr>"

type_synonym slots = "(structural_key, slot) fmap"

definition slot_entry :: "slots \<Rightarrow> structural_key \<Rightarrow> slot" where
  "slot_entry slots k = (case fmlookup slots k of None \<Rightarrow> empty_slot | Some s \<Rightarrow> s)"

definition add_base :: "(quad \<Rightarrow> structural_key) \<Rightarrow> slots \<Rightarrow> quad \<Rightarrow> slots" where
  "add_base key slots q =
     (let s = slot_entry slots (key q) in fmupd (key q) (s\<lparr>sl_base := finsert q (sl_base s)\<rparr>) slots)"

definition add_target :: "(quad \<Rightarrow> structural_key) \<Rightarrow> slots \<Rightarrow> quad \<Rightarrow> slots" where
  "add_target key slots q =
     (let s = slot_entry slots (key q) in fmupd (key q) (s\<lparr>sl_target := finsert q (sl_target s)\<rparr>) slots)"

definition add_source :: "(quad \<Rightarrow> structural_key) \<Rightarrow> slots \<Rightarrow> quad \<Rightarrow> slots" where
  "add_source key slots q =
     (let s = slot_entry slots (key q) in fmupd (key q) (s\<lparr>sl_source := finsert q (sl_source s)\<rparr>) slots)"

definition partition_slots ::
  "(quad \<Rightarrow> structural_key) \<Rightarrow> quad fset \<Rightarrow> quad fset \<Rightarrow> quad fset \<Rightarrow> slots" where
  "partition_slots key base target source =
     (let slots = foldl (add_base key) fmempty (sorted_list_of_fset base);
          slots = foldl (add_target key) slots (sorted_list_of_fset target) in
      foldl (add_source key) slots (sorted_list_of_fset source))"

record merge_acc =
  ma_merged :: "quad fset"
  ma_reporter :: reporter
  ma_count :: nat

definition merge_step :: "strategy \<Rightarrow> merge_acc \<Rightarrow> structural_key \<times> slot \<Rightarrow> merge_acc" where
  "merge_step strategy acc entry =
     (let (k, s) = entry in
      if sl_target s = sl_base s \<or> sl_target s = sl_source s
      then acc\<lparr>ma_merged := ma_merged acc |\<union>| sl_source s\<rparr>
      else if sl_source s = sl_base s
      then acc\<lparr>ma_merged := ma_merged acc |\<union>| sl_target s\<rparr>
      else
        acc\<lparr>ma_count := ma_count acc + 1, ma_reporter := offer k s (ma_reporter acc),
            ma_merged := ma_merged acc |\<union>|
              (case strategy of
                 Abort \<Rightarrow> {||}
               | TakeTarget \<Rightarrow> sl_target s
               | TakeSource \<Rightarrow> sl_source s
               | Union \<Rightarrow> sl_target s |\<union>| sl_source s)\<rparr>)"

definition three_way_reported ::
  "(quad \<Rightarrow> structural_key) \<Rightarrow> quad fset \<Rightarrow> quad fset \<Rightarrow> quad fset \<Rightarrow> strategy \<Rightarrow> report_limits \<Rightarrow> three_way_result" where
  "three_way_reported key base target source strategy report =
     (let slots = partition_slots key base target source;
          acc = foldl (merge_step strategy)
                  \<lparr>ma_merged = {||}, ma_reporter = reporter_new report, ma_count = 0\<rparr>
                  (map (\<lambda>k. (k, slot_entry slots k)) (sorted_list_of_fset (fmdom slots))) in
      \<lparr>tw_merged = (if strategy \<noteq> Abort \<or> ma_count acc = 0 then Some (ma_merged acc) else None),
       tw_conflicts = rp_conflicts (ma_reporter acc),
       tw_conflict_count = ma_count acc,
       tw_conflicts_truncated = rp_exhausted (ma_reporter acc) \<or> rp_incomplete (ma_reporter acc)\<rparr>)"

definition three_way ::
  "(quad \<Rightarrow> structural_key) \<Rightarrow> quad fset \<Rightarrow> quad fset \<Rightarrow> quad fset \<Rightarrow> strategy \<Rightarrow> three_way_result" where
  "three_way key base target source strategy =
     three_way_reported key base target source strategy REPORT_DEFAULT"

section \<open>Preview tokens\<close>

datatype classification = FastForwardMerge | DivergentMerge

fun classification_code :: "classification \<Rightarrow> byte" where
  "classification_code FastForwardMerge = byte_of 1"
| "classification_code DivergentMerge = byte_of 2"

fun classification_str :: "classification \<Rightarrow> string" where
  "classification_str FastForwardMerge = ''fast_forward''"
| "classification_str DivergentMerge = ''divergent''"

record preview_identity =
  pi_graph :: graph_id
  pi_source_branch :: string
  pi_source_head :: commit_id
  pi_target_branch :: string
  pi_target_head :: commit_id
  pi_merge_base :: commit_id
  pi_classification :: classification
  pi_strategy :: strategy
  pi_merged_state_digest :: content_id

definition PREVIEW_TOKEN_V1_HEADER :: bytes where
  "PREVIEW_TOKEN_V1_HEADER = ''sculpin-ledger-merge-preview/v1'' @ [byte_of 0]"

text \<open>\<open>None\<close> is the panic of the length conversion.\<close>

definition preview_field :: "string \<Rightarrow> bytes option" where
  "preview_field value = map_option (\<lambda>len. u32_to_be_bytes len @ value) (u32_try_from (length value))"

definition effective_strategy :: "preview_identity \<Rightarrow> strategy" where
  "effective_strategy p =
     (case pi_classification p of FastForwardMerge \<Rightarrow> Abort | DivergentMerge \<Rightarrow> pi_strategy p)"

fun concat_options :: "'a list option list \<Rightarrow> 'a list option" where
  "concat_options [] = Some []"
| "concat_options (x # xs) =
     (case x of None \<Rightarrow> None | Some a \<Rightarrow> map_option (append a) (concat_options xs))"

definition preview_canonical_bytes :: "preview_identity \<Rightarrow> bytes option" where
  "preview_canonical_bytes p =
     concat_options
       [Some PREVIEW_TOKEN_V1_HEADER, preview_field (graph_str (pi_graph p)),
        preview_field (pi_source_branch p), preview_field (commit_id_str (pi_source_head p)),
        preview_field (pi_target_branch p), preview_field (commit_id_str (pi_target_head p)),
        preview_field (commit_id_str (pi_merge_base p)),
        Some [classification_code (pi_classification p)], Some [strategy_code (effective_strategy p)],
        preview_field MERGE_ALGORITHM_V1, preview_field (cid_str (pi_merged_state_digest p))]"

definition preview_token :: "(bytes \<Rightarrow> string) \<Rightarrow> preview_identity \<Rightarrow> string option" where
  "preview_token H p = map_option (\<lambda>bs. cid_str (for_bytes H bs)) (preview_canonical_bytes p)"

definition is_no_change :: "quad fset \<Rightarrow> quad fset \<Rightarrow> bool" where
  "is_no_change target merged = diff_is_empty (diff target merged)"

definition creates_nothing :: "quad fset \<Rightarrow> quad fset \<Rightarrow> quad fset \<Rightarrow> quad fset \<Rightarrow> bool" where
  "creates_nothing base target source merged \<longleftrightarrow>
     is_no_change target merged \<and> diff_is_empty (diff base source)"

section \<open>What the merge computes\<close>

text \<open>
  The reference: the three states restricted to one key, and the row of the merge table they select.
\<close>

definition at_key :: "(quad \<Rightarrow> structural_key) \<Rightarrow> structural_key \<Rightarrow> quad fset \<Rightarrow> quad fset" where
  "at_key key k X = ffilter (\<lambda>q. key q = k) X"

definition slot_at ::
  "(quad \<Rightarrow> structural_key) \<Rightarrow> quad fset \<Rightarrow> quad fset \<Rightarrow> quad fset \<Rightarrow> structural_key \<Rightarrow> slot" where
  "slot_at key base target source k =
     \<lparr>sl_base = at_key key k base, sl_target = at_key key k target, sl_source = at_key key k source\<rparr>"

definition conflicting :: "slot \<Rightarrow> bool" where
  "conflicting s \<longleftrightarrow> sl_target s \<noteq> sl_base s \<and> sl_source s \<noteq> sl_base s \<and> sl_target s \<noteq> sl_source s"

definition slot_result :: "strategy \<Rightarrow> slot \<Rightarrow> quad fset" where
  "slot_result strategy s =
     (if \<not> conflicting s then if sl_source s = sl_base s then sl_target s else sl_source s
      else case strategy of
             Abort \<Rightarrow> {||}
           | TakeTarget \<Rightarrow> sl_target s
           | TakeSource \<Rightarrow> sl_source s
           | Union \<Rightarrow> sl_target s |\<union>| sl_source s)"

definition conflict_keys ::
  "(quad \<Rightarrow> structural_key) \<Rightarrow> quad fset \<Rightarrow> quad fset \<Rightarrow> quad fset \<Rightarrow> structural_key fset" where
  "conflict_keys key base target source =
     ffilter (\<lambda>k. conflicting (slot_at key base target source k))
       (key |`| (base |\<union>| target |\<union>| source))"

definition merged_state ::
  "(quad \<Rightarrow> structural_key) \<Rightarrow> quad fset \<Rightarrow> quad fset \<Rightarrow> quad fset \<Rightarrow> strategy \<Rightarrow> quad fset" where
  "merged_state key base target source st =
     ffUnion ((\<lambda>k. slot_result st (slot_at key base target source k)) |`|
       (key |`| (base |\<union>| target |\<union>| source)))"

subsection \<open>The partition into slots\<close>

lemma at_key_simps:
  "at_key key k {||} = {||}"
  "at_key key k (finsert q X) = (if key q = k then finsert q (at_key key k X) else at_key key k X)"
  by (auto simp: at_key_def)

lemma slot_entry_upd: "slot_entry (fmupd k s m) k' = (if k = k' then s else slot_entry m k')"
  by (simp add: slot_entry_def)

lemma slots_add_base:
  "slot_entry (foldl (add_base key) m qs) k =
     (slot_entry m k)\<lparr>sl_base := sl_base (slot_entry m k) |\<union>| at_key key k (fset_of_list qs)\<rparr>"
  "fmdom (foldl (add_base key) m qs) = fmdom m |\<union>| key |`| fset_of_list qs"
  by (induction qs arbitrary: m) (auto simp: add_base_def Let_def slot_entry_upd at_key_simps)

lemma slots_add_target:
  "slot_entry (foldl (add_target key) m qs) k =
     (slot_entry m k)\<lparr>sl_target := sl_target (slot_entry m k) |\<union>| at_key key k (fset_of_list qs)\<rparr>"
  "fmdom (foldl (add_target key) m qs) = fmdom m |\<union>| key |`| fset_of_list qs"
  by (induction qs arbitrary: m) (auto simp: add_target_def Let_def slot_entry_upd at_key_simps)

lemma slots_add_source:
  "slot_entry (foldl (add_source key) m qs) k =
     (slot_entry m k)\<lparr>sl_source := sl_source (slot_entry m k) |\<union>| at_key key k (fset_of_list qs)\<rparr>"
  "fmdom (foldl (add_source key) m qs) = fmdom m |\<union>| key |`| fset_of_list qs"
  by (induction qs arbitrary: m) (auto simp: add_source_def Let_def slot_entry_upd at_key_simps)

lemma fset_of_sorted_list: "fset_of_list (sorted_list_of_fset X) = X"
  by (simp add: fset_of_list.rep_eq flip: fset_inject)

lemma partition_slots_entry:
  "slot_entry (partition_slots key base target source) k = slot_at key base target source k"
  by (simp add: partition_slots_def slots_add_base slots_add_target slots_add_source fset_of_sorted_list
      slot_at_def) (simp add: slot_entry_def empty_slot_def)

lemma partition_slots_dom:
  "fmdom (partition_slots key base target source) = key |`| (base |\<union>| target |\<union>| source)"
  by (auto simp: partition_slots_def slots_add_base slots_add_target slots_add_source fset_of_sorted_list)

subsection \<open>The loop over the slots\<close>

lemma merge_step_alt:
  "merge_step st acc (k, s) =
     \<lparr>ma_merged = ma_merged acc |\<union>| slot_result st s,
      ma_reporter = (if conflicting s then offer k s (ma_reporter acc) else ma_reporter acc),
      ma_count = (if conflicting s then Suc (ma_count acc) else ma_count acc)\<rparr>"
  by (cases acc) (auto simp: merge_step_def slot_result_def conflicting_def split: strategy.splits)

definition offer_all :: "(structural_key \<times> slot) list \<Rightarrow> reporter \<Rightarrow> reporter" where
  "offer_all es r = foldl (\<lambda>r e. offer (fst e) (snd e) r) r es"

lemma merge_fold:
  "ma_count (foldl (merge_step st) acc es) = ma_count acc + length (filter (conflicting \<circ> snd) es)"
  "ma_reporter (foldl (merge_step st) acc es) = offer_all (filter (conflicting \<circ> snd) es) (ma_reporter acc)"
  "ma_merged (foldl (merge_step st) acc es) =
     ma_merged acc |\<union>| ffUnion (fset_of_list (map (slot_result st \<circ> snd) es))"
proof (induction es arbitrary: acc)
  case (Cons e es)
  obtain k s where e: "e = (k, s)" by (cases e)
  {
    case 1 show ?case using Cons(1) by (simp add: e merge_step_alt)
  next
    case 2 show ?case using Cons(2) by (simp add: e merge_step_alt offer_all_def)
  next
    case 3 show ?case using Cons(3) by (simp add: e merge_step_alt funion_assoc)
  }
qed (simp_all add: offer_all_def)

definition conflict_entries ::
  "(quad \<Rightarrow> structural_key) \<Rightarrow> quad fset \<Rightarrow> quad fset \<Rightarrow> quad fset \<Rightarrow> (structural_key \<times> slot) list" where
  "conflict_entries key base target source =
     map (\<lambda>k. (k, slot_at key base target source k))
       (sorted_list_of_fset (conflict_keys key base target source))"

lemma filter_sorted_list: "filter P (sorted_list_of_fset X) = sorted_list_of_fset (ffilter P X)"
  by (rule strict_sorted_set_unique) (auto intro: sorted_wrt_filter)

lemma three_way_alt:
  "three_way_reported key base target source st report =
     (let n = fcard (conflict_keys key base target source);
          r = offer_all (conflict_entries key base target source) (reporter_new report) in
      \<lparr>tw_merged =
         (if st \<noteq> Abort \<or> n = 0 then Some (merged_state key base target source st) else None),
       tw_conflicts = rp_conflicts r, tw_conflict_count = n,
       tw_conflicts_truncated = rp_exhausted r \<or> rp_incomplete r\<rparr>)"
proof -
  let ?at = "slot_at key base target source"
  let ?es = "map (\<lambda>k. (k, ?at k)) (sorted_list_of_fset (key |`| (base |\<union>| target |\<union>| source)))"
  have es: "filter (conflicting \<circ> snd) ?es = conflict_entries key base target source"
    by (simp add: filter_map comp_def conflict_entries_def conflict_keys_def filter_sorted_list)
  have len: "length (conflict_entries key base target source) = fcard (conflict_keys key base target source)"
    by (simp add: conflict_entries_def)
  have img: "fset_of_list (map (slot_result st \<circ> snd) ?es) =
      (\<lambda>k. slot_result st (?at k)) |`| (key |`| (base |\<union>| target |\<union>| source))"
    by (simp add: comp_def fset_of_sorted_list)
  show ?thesis
    unfolding three_way_reported_def Let_def partition_slots_dom partition_slots_entry merge_fold es len img
      merged_state_def
    by simp
qed

lemma slot_result_sub:
  "slot_result st s |\<subseteq>| sl_base s |\<union>| sl_target s |\<union>| sl_source s"
  by (auto simp: slot_result_def split: strategy.splits if_splits)

lemma slot_at_mem:
  assumes "q |\<in>| slot_result st (slot_at key base target source k)"
  shows "key q = k"
  using assms slot_result_sub [of st "slot_at key base target source k"]
  by (auto simp: slot_at_def at_key_def)

lemma ffUnion_image_mem: "q |\<in>| ffUnion (f |`| X) \<longleftrightarrow> (\<exists>x. x |\<in>| X \<and> q |\<in>| f x)"
  by (auto simp: ffUnion.rep_eq)

lemma merged_mem:
  "q |\<in>| merged_state key base target source st \<longleftrightarrow>
   q |\<in>| slot_result st (slot_at key base target source (key q))"
proof -
  have "q |\<in>| base |\<union>| target |\<union>| source"
    if "q |\<in>| slot_result st (slot_at key base target source (key q))"
    using fsubsetD [OF slot_result_sub that] by (auto simp: slot_at_def at_key_def)
  then show ?thesis
    unfolding merged_state_def ffUnion_image_mem by (metis slot_at_mem fimageI)
qed

subsection \<open>The report\<close>

definition quads_cost :: "quad list \<Rightarrow> nat" where
  "quads_cost qs = sum_list (map (\<lambda>q. json_string_len (quad_str q) + 1) qs)"

definition conflict_cost :: "conflict \<Rightarrow> nat" where
  "conflict_cost c =
     key_cost (cf_key c) + quads_cost (sd_quads (cf_base c)) + quads_cost (sd_quads (cf_target c)) +
     quads_cost (sd_quads (cf_source c))"

definition side_ok :: "report_limits \<Rightarrow> quad fset \<Rightarrow> side \<Rightarrow> bool" where
  "side_ok l X s \<longleftrightarrow>
     take (length (sd_quads s)) (sorted_list_of_fset X) = sd_quads s \<and>
     length (sd_quads s) \<le> rl_max_quads_per_side l \<and>
     sd_truncated s = (length (sd_quads s) < fcard X)"

definition conflict_ok :: "report_limits \<Rightarrow> structural_key \<times> slot \<Rightarrow> conflict \<Rightarrow> bool" where
  "conflict_ok l e c \<longleftrightarrow>
     cf_key c = fst e \<and> side_ok l (sl_base (snd e)) (cf_base c) \<and>
     side_ok l (sl_target (snd e)) (cf_target c) \<and> side_ok l (sl_source (snd e)) (cf_source c)"

definition conflict_short :: "conflict \<Rightarrow> bool" where
  "conflict_short c \<longleftrightarrow>
     sd_truncated (cf_base c) \<or> sd_truncated (cf_target c) \<or> sd_truncated (cf_source c)"

definition report_inv :: "report_limits \<Rightarrow> (structural_key \<times> slot) list \<Rightarrow> reporter \<Rightarrow> bool" where
  "report_inv l es r \<longleftrightarrow>
     rp_limits r = l \<and>
     rl_max_bytes l = rp_remaining r + sum_list (map conflict_cost (rp_conflicts r)) \<and>
     length (rp_conflicts r) \<le> rl_max_conflicts l \<and>
     length (rp_conflicts r) \<le> length es \<and>
     list_all2 (conflict_ok l) (take (length (rp_conflicts r)) es) (rp_conflicts r) \<and>
     rp_incomplete r = list_ex conflict_short (rp_conflicts r) \<and>
     (if rp_exhausted r then length (rp_conflicts r) < length es \<or> rp_incomplete r
      else length (rp_conflicts r) = length es)"

lemma list_quads_spec:
  assumes "list_quads qs r = (listed, r')"
  shows "take (length listed) qs = listed \<and> length listed \<le> length qs \<and>
    rp_remaining r = rp_remaining r' + quads_cost listed \<and>
    rp_limits r' = rp_limits r \<and> rp_conflicts r' = rp_conflicts r \<and> rp_incomplete r' = rp_incomplete r \<and>
    rp_exhausted r' = (rp_exhausted r \<or> length listed < length qs)"
  using assms
proof (induction qs arbitrary: r listed)
  case (Cons q qs)
  let ?c = "json_string_len (quad_str q) + 1"
  show ?case
  proof (cases "?c > rp_remaining r")
    case True
    then show ?thesis using Cons.prems by (auto simp: charge_def quads_cost_def)
  next
    case False
    then obtain rest where rest: "list_quads qs (r\<lparr>rp_remaining := rp_remaining r - ?c\<rparr>) = (rest, r')"
      and listed: "listed = q # rest"
      using Cons.prems by (auto simp: charge_def split: prod.splits)
    show ?thesis using Cons.IH [OF rest] False by (auto simp: listed quads_cost_def)
  qed
qed (simp add: quads_cost_def)

lemma report_side_spec:
  assumes "report_side X r = (s, r')"
  shows "side_ok (rp_limits r) X s" "rp_remaining r = rp_remaining r' + quads_cost (sd_quads s)"
    "rp_limits r' = rp_limits r" "rp_conflicts r' = rp_conflicts r"
    "rp_incomplete r' = (rp_incomplete r \<or> sd_truncated s)"
    "rp_exhausted r \<Longrightarrow> rp_exhausted r'"
    "rp_exhausted r' \<Longrightarrow> rp_exhausted r \<or> sd_truncated s"
proof -
  let ?n = "rl_max_quads_per_side (rp_limits r)"
  have "side_ok (rp_limits r) X s \<and> rp_remaining r = rp_remaining r' + quads_cost (sd_quads s) \<and>
    rp_limits r' = rp_limits r \<and> rp_conflicts r' = rp_conflicts r \<and>
    rp_incomplete r' = (rp_incomplete r \<or> sd_truncated s) \<and> (rp_exhausted r \<longrightarrow> rp_exhausted r') \<and>
    (rp_exhausted r' \<longrightarrow> rp_exhausted r \<or> sd_truncated s)"
  proof (cases "rp_exhausted r")
    case True
    then show ?thesis using assms by (auto simp: report_side_def side_ok_def quads_cost_def Let_def fcard_fempty)
  next
    case False
    obtain ls r1 where ls: "list_quads (take ?n (sorted_list_of_fset X)) r = (ls, r1)"
      by (rule prod.exhaust)
    have r': "r' = r1\<lparr>rp_incomplete := rp_incomplete r1 \<or> length ls < fcard X\<rparr>"
      and s: "s = \<lparr>sd_quads = ls, sd_truncated = length ls < fcard X\<rparr>"
      using assms False by (auto simp: report_side_def ls Let_def)
    note spec = list_quads_spec [OF ls]
    have len: "length ls \<le> ?n" using spec by simp
    then have listed: "take (length ls) (sorted_list_of_fset X) = ls"
      using spec by (simp add: min.absorb1)
    have same: "rp_limits r1 = rp_limits r" "rp_conflicts r1 = rp_conflicts r" "rp_incomplete r1 = rp_incomplete r"
      "rp_remaining r = rp_remaining r1 + quads_cost ls"
      "rp_exhausted r1 \<longleftrightarrow> length ls < min (fcard X) ?n"
      using spec False by simp_all
    show ?thesis using len by (simp add: r' s same side_ok_def False listed)
  qed
  then show "side_ok (rp_limits r) X s" "rp_remaining r = rp_remaining r' + quads_cost (sd_quads s)"
    "rp_limits r' = rp_limits r" "rp_conflicts r' = rp_conflicts r"
    "rp_incomplete r' = (rp_incomplete r \<or> sd_truncated s)"
    "rp_exhausted r \<Longrightarrow> rp_exhausted r'"
    "rp_exhausted r' \<Longrightarrow> rp_exhausted r \<or> sd_truncated s" by simp_all
qed

lemma report_inv_new: "report_inv l [] (reporter_new l)"
  by (simp add: report_inv_def reporter_new_def)

lemma report_inv_listed:
  assumes inv: "report_inv l es r" and ex: "\<not> rp_exhausted r"
    and room: "length (rp_conflicts r) \<noteq> rl_max_conflicts l" and cost: "\<not> key_cost k > rp_remaining r"
  shows "report_inv l (es @ [(k, s)]) (offer k s r)"
proof -
  let ?r0 = "r\<lparr>rp_remaining := rp_remaining r - key_cost k\<rparr>"
  obtain b r1 where b: "report_side (sl_base s) ?r0 = (b, r1)" by (rule prod.exhaust)
  obtain t r2 where t: "report_side (sl_target s) r1 = (t, r2)" by (rule prod.exhaust)
  obtain u r3 where u: "report_side (sl_source s) r2 = (u, r3)" by (rule prod.exhaust)
  let ?c = "\<lparr>cf_key = k, cf_base = b, cf_target = t, cf_source = u\<rparr>"
  note specs = report_side_spec [OF b] report_side_spec [OF t] report_side_spec [OF u]
  have offer: "offer k s r = r3\<lparr>rp_conflicts := rp_conflicts r @ [?c]\<rparr>"
    using inv ex room cost specs(4,11,18) by (simp add: offer_def report_inv_def charge_def b t u)
  have ok: "conflict_ok l (k, s) ?c"
    using inv specs(1,3,8,10,15) by (simp add: conflict_ok_def report_inv_def)
  have bytes: "rp_remaining r = rp_remaining r3 + conflict_cost ?c"
    using cost specs(2,9,16) by (simp add: conflict_cost_def)
  have short: "rp_incomplete r3 = (rp_incomplete r \<or> conflict_short ?c)"
    using specs(5,12,19) by (auto simp: conflict_short_def)
  have stop: "rp_exhausted r3 \<Longrightarrow> conflict_short ?c"
    using specs(6,7,13,14,20,21) ex by (auto simp: conflict_short_def)
  have all: "length (rp_conflicts r) = length es" and ex_ok: "list_all2 (conflict_ok l) es (rp_conflicts r)"
    using inv ex by (auto simp: report_inv_def)
  show ?thesis
    using inv room specs(3,10,17) stop ok ex_ok
    by (simp add: report_inv_def offer bytes short all list_all2_appendI)
qed

lemma report_inv_offer:
  assumes inv: "report_inv l es r"
  shows "report_inv l (es @ [(k, s)]) (offer k s r)"
proof (cases "rp_exhausted r \<or> length (rp_conflicts r) = rl_max_conflicts l \<or> key_cost k > rp_remaining r")
  case True
  then have "offer k s r = r \<and> rp_exhausted r \<or> offer k s r = r\<lparr>rp_exhausted := True\<rparr>"
    using inv by (auto simp: offer_def charge_def report_inv_def)
  then show ?thesis using inv by (auto simp: report_inv_def split: if_splits)
next
  case False
  then show ?thesis using report_inv_listed [OF inv] by blast
qed

lemma report_inv_offer_all:
  assumes "report_inv l es r"
  shows "report_inv l (es @ fs) (offer_all fs r)"
  using assms
proof (induction fs arbitrary: es r)
  case (Cons f fs)
  obtain k s where f: "f = (k, s)" by (rule prod.exhaust)
  show ?case
    using Cons.IH [OF report_inv_offer [OF Cons.prems, of k s]] by (simp add: f offer_all_def)
qed (simp add: offer_all_def)

definition full_side :: "quad fset \<Rightarrow> side" where
  "full_side X = \<lparr>sd_quads = sorted_list_of_fset X, sd_truncated = False\<rparr>"

definition full_conflict :: "structural_key \<times> slot \<Rightarrow> conflict" where
  "full_conflict e =
     \<lparr>cf_key = fst e, cf_base = full_side (sl_base (snd e)), cf_target = full_side (sl_target (snd e)),
      cf_source = full_side (sl_source (snd e))\<rparr>"

lemma side_ok_full:
  assumes "side_ok l X s" and "\<not> sd_truncated s"
  shows "s = full_side X"
proof -
  have "fcard X \<le> length (sd_quads s)" using assms by (simp add: side_ok_def)
  then have "take (length (sd_quads s)) (sorted_list_of_fset X) = sorted_list_of_fset X" by simp
  then show ?thesis using assms by (simp add: side_ok_def full_side_def)
qed

lemma conflict_ok_full:
  assumes "conflict_ok l e c"
  shows "conflict_short c \<longleftrightarrow> c \<noteq> full_conflict e"
proof
  assume "conflict_short c"
  then show "c \<noteq> full_conflict e" by (auto simp: conflict_short_def full_conflict_def full_side_def)
next
  assume neq: "c \<noteq> full_conflict e"
  show "conflict_short c"
  proof (rule ccontr)
    assume "\<not> conflict_short c"
    then have "cf_base c = full_side (sl_base (snd e))" "cf_target c = full_side (sl_target (snd e))"
      "cf_source c = full_side (sl_source (snd e))" "cf_key c = fst e"
      using assms by (auto simp: conflict_ok_def conflict_short_def intro: side_ok_full)
    then have "c = full_conflict e" by (cases c) (simp add: full_conflict_def)
    with neq show False ..
  qed
qed

lemma list_all2_full:
  assumes "list_all2 (conflict_ok l) es cs"
  shows "list_ex conflict_short cs \<longleftrightarrow> cs \<noteq> map full_conflict es"
  using assms by (induction rule: list_all2_induct) (auto simp: conflict_ok_full)

lemma report_truncated_iff:
  assumes "report_inv l es r"
  shows "rp_exhausted r \<or> rp_incomplete r \<longleftrightarrow> rp_conflicts r \<noteq> map full_conflict es"
proof (cases "length (rp_conflicts r) = length es")
  case True
  then show ?thesis using assms list_all2_full [of l es "rp_conflicts r"]
    by (auto simp: report_inv_def split: if_splits)
next
  case False
  then have "rp_conflicts r \<noteq> map full_conflict es" by (metis length_map)
  then show ?thesis using assms False by (auto simp: report_inv_def split: if_splits)
qed

lemmas reported_inv = report_inv_offer_all [OF report_inv_new, simplified]

section \<open>Properties of the merge\<close>

fun swap_strategy :: "strategy \<Rightarrow> strategy" where
  "swap_strategy Abort = Abort"
| "swap_strategy TakeTarget = TakeSource"
| "swap_strategy TakeSource = TakeTarget"
| "swap_strategy Union = Union"

lemma swap_strategy_Abort: "swap_strategy st = Abort \<longleftrightarrow> st = Abort"
  by (cases st) simp_all

lemma slot_result_swap:
  "slot_result (swap_strategy st) (slot_at key base source target k) =
   slot_result st (slot_at key base target source k)"
  by (cases st) (auto simp: slot_result_def slot_at_def conflicting_def)

lemma conflict_keys_swap: "conflict_keys key base source target = conflict_keys key base target source"
  by (auto simp: conflict_keys_def slot_at_def conflicting_def)

lemma merged_state_swap:
  "merged_state key base source target (swap_strategy st) = merged_state key base target source st"
  by (rule fset_eqI) (simp add: merged_mem slot_result_swap)

lemma at_key_merged:
  "at_key key k (merged_state key base target source st) = slot_result st (slot_at key base target source k)"
  by (rule fset_eqI) (auto simp: at_key_def merged_mem dest: slot_at_mem)

lemma conflict_keys_empty:
  assumes "conflicting (slot_at key base target source k)"
  shows "k |\<in>| conflict_keys key base target source"
proof -
  have "k |\<in>| key |`| (base |\<union>| target |\<union>| source)"
  proof (rule ccontr)
    assume "k |\<notin>| key |`| (base |\<union>| target |\<union>| source)"
    then have "at_key key k base = {||}" "at_key key k target = {||}" "at_key key k source = {||}"
      by (auto simp: at_key_def)
    then show False using assms by (simp add: slot_at_def conflicting_def)
  qed
  then show ?thesis using assms by (simp add: conflict_keys_def)
qed

lemma conflict_set:
  "{k. at_key key k target \<noteq> at_key key k base \<and> at_key key k source \<noteq> at_key key k base \<and>
       at_key key k target \<noteq> at_key key k source} = fset (conflict_keys key base target source)"
proof -
  have "fset (conflict_keys key base target source) = {k. conflicting (slot_at key base target source k)}"
    by (auto simp: conflict_keys_empty) (simp add: conflict_keys_def)
  then show ?thesis by (simp add: conflicting_def slot_at_def)
qed

lemma slot_result_table:
  "slot_result st (slot_at key base target source k) =
     (if k |\<in>| conflict_keys key base target source
      then (case st of Abort \<Rightarrow> {||} | TakeTarget \<Rightarrow> at_key key k target | TakeSource \<Rightarrow> at_key key k source
            | Union \<Rightarrow> at_key key k target |\<union>| at_key key k source)
      else if at_key key k source = at_key key k base then at_key key k target else at_key key k source)"
proof -
  have "k |\<in>| conflict_keys key base target source \<longleftrightarrow> conflicting (slot_at key base target source k)"
    using conflict_keys_empty by (auto simp: conflict_keys_def)
  then show ?thesis by (simp add: slot_result_def slot_at_def split: strategy.split)
qed

lemma fset_eq_empty: "fset X = {} \<longleftrightarrow> X = {||}"
  by (metis bot_fset.rep_eq fset_inject)

lemma tw_fields:
  "tw_conflict_count (three_way_reported key base target source st report) =
     fcard (conflict_keys key base target source)"
  "tw_merged (three_way_reported key base target source st report) =
     (if st \<noteq> Abort \<or> conflict_keys key base target source = {||}
      then Some (merged_state key base target source st) else None)"
  by (simp_all add: three_way_alt Let_def)

text \<open>
  C18. The three-way merge, key by key and whatever the report limits are: a key only one side changed
  takes that side's quads, a key both sides changed alike takes the common quads, and a key both sides
  changed differently is a conflict that the strategy decides. \<open>conflict_count\<close> counts exactly those
  keys, and only \<open>Abort\<close> with a conflict gives no merged state.
\<close>

theorem three_way_spec:
  "let r = three_way_reported key base target source st report;
       B = (\<lambda>k. at_key key k base); T = (\<lambda>k. at_key key k target); S = (\<lambda>k. at_key key k source);
       C = {k. T k \<noteq> B k \<and> S k \<noteq> B k \<and> T k \<noteq> S k} in
   finite C \<and> tw_conflict_count r = card C \<and>
   (tw_merged r = None \<longleftrightarrow> st = Abort \<and> C \<noteq> {}) \<and>
   (\<forall>M k. tw_merged r = Some M \<longrightarrow>
      at_key key k M =
        (if k \<in> C then (case st of Abort \<Rightarrow> {||} | TakeTarget \<Rightarrow> T k | TakeSource \<Rightarrow> S k
                        | Union \<Rightarrow> T k |\<union>| S k)
         else if S k = B k then T k else S k))"
  unfolding Let_def conflict_set tw_fields
  by (simp add: slot_result_table fcard.rep_eq at_key_merged fset_eq_empty)

theorem three_way_spec_witness:
  "let q = (\<lambda>o'. Quad (''<s> <p> '' @ o')); key = (\<lambda>q. StructuralKey None ''<s>'' ''<p>'');
       r = three_way_reported key {||} {|q ''1''|} {|q ''2''|} Union REPORT_DEFAULT in
   tw_merged r = Some {|q ''1'', q ''2''|} \<and> at_key key (key (q ''1'')) {|q ''1'', q ''2''|} = {|q ''1'', q ''2''|}"
proof -
  let ?q = "\<lambda>o'. Quad (''<s> <p> '' @ o')"
  let ?key = "\<lambda>q :: quad. StructuralKey None ''<s>'' ''<p>''"
  let ?r = "three_way_reported ?key {||} {|?q ''1''|} {|?q ''2''|} Union REPORT_DEFAULT"
  obtain M where M: "tw_merged ?r = Some M"
    using three_way_spec [of ?key "{||}" "{|?q ''1''|}" "{|?q ''2''|}" Union REPORT_DEFAULT]
    by (auto simp: Let_def)
  have "at_key ?key (?key (?q ''1'')) M = {|?q ''1'', ?q ''2''|}"
    using three_way_spec [of ?key "{||}" "{|?q ''1''|}" "{|?q ''2''|}" Union REPORT_DEFAULT] M
    by (simp add: Let_def at_key_simps finsert_commute)
  moreover have "at_key ?key (?key (?q ''1'')) M = M" by (auto simp: at_key_def)
  ultimately show ?thesis using M by (simp add: Let_def at_key_simps)
qed

text \<open>
  C19. Merging is symmetric: with source and target exchanged, and \<open>TakeTarget\<close> and \<open>TakeSource\<close>
  exchanged with them, the merged state and the number of conflicts are the same.
\<close>

theorem three_way_symmetric:
  "tw_merged (three_way_reported key base source target (swap_strategy st) report') =
     tw_merged (three_way_reported key base target source st report) \<and>
   tw_conflict_count (three_way_reported key base source target (swap_strategy st) report') =
     tw_conflict_count (three_way_reported key base target source st report)"
  unfolding tw_fields merged_state_swap conflict_keys_swap [of key base source target] swap_strategy_Abort
  by (rule conjI refl)+

text \<open>
  C20. \<open>conflicts_truncated\<close> is exact: it is unset exactly when the report lists every conflicting
  key, in ascending order, with all the quads of its three sides.
\<close>

theorem conflict_report_complete_iff:
  "let r = three_way_reported key base target source st report in
   tw_conflicts_truncated r \<longleftrightarrow>
   tw_conflicts r \<noteq>
     map (\<lambda>k. \<lparr>cf_key = k, cf_base = full_side (at_key key k base), cf_target = full_side (at_key key k target),
               cf_source = full_side (at_key key k source)\<rparr>)
       (sorted_list_of_fset (conflict_keys key base target source))"
  using report_truncated_iff [OF reported_inv, of "conflict_entries key base target source" report]
  by (simp add: three_way_alt Let_def conflict_entries_def full_conflict_def comp_def slot_at_def)

text \<open>
  C21. The report never exceeds its limits, whatever the states are: the number of listed conflicts,
  the number of quads listed per side, and the byte cost of everything listed. What it lists is a
  prefix: of the conflicting keys in ascending order, and of each side's quads in canonical order.
\<close>

theorem conflict_report_bounded:
  "let r = three_way_reported key base target source st report in
   length (tw_conflicts r) \<le> rl_max_conflicts report \<and>
   sum_list (map conflict_cost (tw_conflicts r)) \<le> rl_max_bytes report \<and>
   length (tw_conflicts r) \<le> fcard (conflict_keys key base target source) \<and>
   list_all2 (conflict_ok report)
     (take (length (tw_conflicts r)) (conflict_entries key base target source)) (tw_conflicts r)"
  using reported_inv [of report "conflict_entries key base target source"]
  by (simp add: three_way_alt Let_def report_inv_def conflict_entries_def)

section \<open>Properties of the preview token\<close>

lemma u32_to_be_inj: "u32_to_be_bytes v = u32_to_be_bytes w \<longleftrightarrow> v = w"
proof
  assume eq: "u32_to_be_bytes v = u32_to_be_bytes w"
  have "v = u32_from_be_bytes (byte_of (unat v div 16777216)) (byte_of (unat v div 65536))
      (byte_of (unat v div 256)) (byte_of (unat v))" by simp
  also have "\<dots> = u32_from_be_bytes (byte_of (unat w div 16777216)) (byte_of (unat w div 65536))
      (byte_of (unat w div 256)) (byte_of (unat w))"
    using eq unfolding u32_to_be_bytes_def Let_def by (simp only: list.inject)
  finally show "v = w" by simp
qed simp

lemma preview_field_append:
  assumes "preview_field v = Some a" "preview_field w = Some b" and "a @ r = b @ s"
  shows "v = w \<and> r = s"
proof -
  have len: "length v < 2 ^ 32" "length w < 2 ^ 32"
    and a: "a = u32_to_be_bytes (word_of_nat (length v)) @ v"
    and b: "b = u32_to_be_bytes (word_of_nat (length w)) @ w"
    using assms(1,2) by (auto simp: preview_field_def u32_try_from_Some)
  have "u32_to_be_bytes (word_of_nat (length v)) = u32_to_be_bytes (word_of_nat (length w))"
    and rest: "v @ r = w @ s"
    using assms(3) by (simp_all add: a b)
  then have "word_of_nat (length v) = (word_of_nat (length w) :: u32)"
    by (simp only: u32_to_be_inj)
  then have "length v = length w" using len unat_word_of_nat_u32 by metis
  then show ?thesis using rest by simp
qed

definition same_bytes :: "bytes option list \<Rightarrow> bytes option list \<Rightarrow> bool" where
  "same_bytes xs ys \<longleftrightarrow> (\<exists>bs. concat_options xs = Some bs \<and> concat_options ys = Some bs)"

lemma same_bytes_field:
  assumes "same_bytes (preview_field v # xs) (preview_field w # ys)"
  shows "v = w \<and> same_bytes xs ys"
proof -
  obtain a b r s where "preview_field v = Some a" "preview_field w = Some b"
    and rs: "concat_options xs = Some r" "concat_options ys = Some s" and "a @ r = b @ s"
    using assms by (auto simp: same_bytes_def split: option.splits)
  then have "v = w \<and> r = s" by (rule_tac preview_field_append)
  then show ?thesis using rs by (simp add: same_bytes_def)
qed

lemma same_bytes_byte: "same_bytes (Some [a] # xs) (Some [b] # ys) \<longleftrightarrow> a = b \<and> same_bytes xs ys"
  by (auto simp: same_bytes_def)

lemma same_bytes_header: "same_bytes (Some h # xs) (Some h # ys) \<longleftrightarrow> same_bytes xs ys"
  by (auto simp: same_bytes_def)

lemma strategy_code_inj: "strategy_code s = strategy_code t \<longleftrightarrow> s = t"
  by (cases s; cases t) (simp_all add: char_of_eq_iff take_bit_eq_mod)

lemma classification_code_inj: "classification_code s = classification_code t \<longleftrightarrow> s = t"
  by (cases s; cases t) (simp_all add: char_of_eq_iff take_bit_eq_mod)

lemma id_str_inj:
  "graph_str g = graph_str g' \<longleftrightarrow> g = g'" "cid_str c = cid_str c' \<longleftrightarrow> c = c'" "commit_cid a = commit_cid b \<longleftrightarrow> a = b"
  by (metis graph_id.expand, metis content_id.expand, metis commit_id.expand)

lemma preview_bytes_inj:
  assumes "preview_canonical_bytes p = Some bs" "preview_canonical_bytes p' = Some bs"
  shows "p' = p\<lparr>pi_strategy := pi_strategy p'\<rparr> \<and> effective_strategy p' = effective_strategy p"
proof -
  let ?fields = "\<lambda>p. [Some PREVIEW_TOKEN_V1_HEADER, preview_field (graph_str (pi_graph p)),
        preview_field (pi_source_branch p), preview_field (commit_id_str (pi_source_head p)),
        preview_field (pi_target_branch p), preview_field (commit_id_str (pi_target_head p)),
        preview_field (commit_id_str (pi_merge_base p)),
        Some [classification_code (pi_classification p)], Some [strategy_code (effective_strategy p)],
        preview_field MERGE_ALGORITHM_V1, preview_field (cid_str (pi_merged_state_digest p))]"
  have "same_bytes (?fields p) (?fields p')"
    using assms unfolding same_bytes_def preview_canonical_bytes_def by blast
  then have "graph_str (pi_graph p) = graph_str (pi_graph p') \<and> pi_source_branch p = pi_source_branch p' \<and>
    commit_id_str (pi_source_head p) = commit_id_str (pi_source_head p') \<and>
    pi_target_branch p = pi_target_branch p' \<and>
    commit_id_str (pi_target_head p) = commit_id_str (pi_target_head p') \<and>
    commit_id_str (pi_merge_base p) = commit_id_str (pi_merge_base p') \<and>
    pi_classification p = pi_classification p' \<and> effective_strategy p = effective_strategy p' \<and>
    cid_str (pi_merged_state_digest p) = cid_str (pi_merged_state_digest p')"
    by (auto simp: same_bytes_header same_bytes_byte classification_code_inj strategy_code_inj
        dest!: same_bytes_field)
  then show ?thesis by (intro conjI preview_identity.equality) (simp_all add: id_str_inj)
qed

lemma preview_field_total: "length v < 2 ^ 32 \<Longrightarrow> preview_field v \<noteq> None"
  by (simp add: preview_field_def u32_try_from_def)

lemma preview_token_total:
  assumes "length (graph_str (pi_graph p)) < 2 ^ 32" "length (pi_source_branch p) < 2 ^ 32"
    "length (commit_id_str (pi_source_head p)) < 2 ^ 32" "length (pi_target_branch p) < 2 ^ 32"
    "length (commit_id_str (pi_target_head p)) < 2 ^ 32" "length (commit_id_str (pi_merge_base p)) < 2 ^ 32"
    "length (cid_str (pi_merged_state_digest p)) < 2 ^ 32"
  shows "\<exists>t. preview_token H p = Some t"
proof -
  have "preview_field MERGE_ALGORITHM_V1 \<noteq> None"
    by (rule preview_field_total) (simp add: MERGE_ALGORITHM_V1_def)
  then show ?thesis
    using assms [THEN preview_field_total] by (auto simp: preview_token_def preview_canonical_bytes_def)
qed

text \<open>
  C22. A preview token confirms what was previewed: where the hash function does not collide on the two
  canonical encodings, equal tokens mean equal identities in every field, the strategy included
  unless the merge is a fast-forward, for which no strategy is bound.
\<close>

theorem preview_token_identifies:
  assumes "preview_token H p = Some t" and "preview_token H p' = Some t"
    and "inj_on H {the (preview_canonical_bytes p), the (preview_canonical_bytes p')}"
  shows "p' = p\<lparr>pi_strategy := pi_strategy p'\<rparr> \<and>
    (pi_strategy p' = pi_strategy p \<or> pi_classification p = FastForwardMerge)"
proof -
  obtain bs bs' where bs: "preview_canonical_bytes p = Some bs" "preview_canonical_bytes p' = Some bs'"
    and eq: "H bs = H bs'"
    using assms(1,2) by (auto simp: preview_token_def for_bytes_def)
  have "bs = bs'" using assms(3) by (rule inj_onD) (use eq bs in simp_all)
  then have same: "p' = p\<lparr>pi_strategy := pi_strategy p'\<rparr>" "effective_strategy p' = effective_strategy p"
    using preview_bytes_inj [of p bs p'] bs by simp_all
  have "pi_classification p' = pi_classification p"
    using arg_cong [OF same(1), of pi_classification] by simp
  then have "pi_strategy p' = pi_strategy p \<or> pi_classification p = FastForwardMerge"
    using same(2) by (cases "pi_classification p") (simp_all add: effective_strategy_def)
  with same(1) show ?thesis by (rule conjI)
qed

definition demo_preview :: "strategy \<Rightarrow> preview_identity" where
  "demo_preview st =
     \<lparr>pi_graph = GraphId ''g'', pi_source_branch = ''dev'', pi_source_head = CommitId (ContentId ''c2''),
      pi_target_branch = ''main'', pi_target_head = CommitId (ContentId ''c1''),
      pi_merge_base = CommitId (ContentId ''c1''), pi_classification = FastForwardMerge, pi_strategy = st,
      pi_merged_state_digest = ContentId ''d''\<rparr>"

theorem preview_token_identifies_witness:
  "\<exists>t. preview_token (\<lambda>bs. bs) (demo_preview Abort) = Some t \<and>
       preview_token (\<lambda>bs. bs) (demo_preview Union) = Some t \<and>
       demo_preview Union = (demo_preview Abort)\<lparr>pi_strategy := Union\<rparr> \<and>
       pi_classification (demo_preview Abort) = FastForwardMerge"
proof -
  obtain t where t: "preview_token (\<lambda>bs. bs) (demo_preview Abort) = Some t"
    using preview_token_total [of "demo_preview Abort"] by (auto simp: demo_preview_def)
  have "preview_canonical_bytes (demo_preview Union) = preview_canonical_bytes (demo_preview Abort)"
    by (simp add: preview_canonical_bytes_def demo_preview_def effective_strategy_def)
  then have t': "preview_token (\<lambda>bs. bs) (demo_preview Union) = Some t"
    using t by (simp add: preview_token_def)
  show ?thesis
    using preview_token_identifies [OF t t'] t t' by (auto simp: demo_preview_def)
qed

end
