(* ===== verification/Projection_Target.thy ===== *)
theory Projection_Target
  imports Core_Identity
begin

text \<open>
  \<^verbatim>\<open>crates/ledger-projection/src/{error,target}.rs\<close>: the projection error taxonomy, percent encoding, and the
  cognitive graph of a knowledge base.
\<close>

section \<open>Errors\<close>

datatype error_class = Retryable | Permanent

datatype projection_error_code =
    TargetUnavailable
  | TargetTimeout
  | TargetThrottled
  | TargetServerError
  | TargetAuth
  | TargetProtocol
  | TargetNotTransactional
  | NamedGraphUnsupported
  | StateTooLarge
  | MarkerAhead
  | VerificationFailed
  | InvalidTargetGraph
  | LedgerUnavailable
  | LedgerState
  | TargetConflict

fun error_code_str :: "projection_error_code \<Rightarrow> string" where
  "error_code_str TargetUnavailable = ''TARGET_UNAVAILABLE''"
| "error_code_str TargetTimeout = ''TARGET_TIMEOUT''"
| "error_code_str TargetThrottled = ''TARGET_THROTTLED''"
| "error_code_str TargetServerError = ''TARGET_SERVER_ERROR''"
| "error_code_str TargetAuth = ''TARGET_AUTH''"
| "error_code_str TargetProtocol = ''TARGET_PROTOCOL''"
| "error_code_str TargetNotTransactional = ''TARGET_NOT_TRANSACTIONAL''"
| "error_code_str NamedGraphUnsupported = ''NAMED_GRAPH_UNSUPPORTED''"
| "error_code_str StateTooLarge = ''STATE_TOO_LARGE''"
| "error_code_str MarkerAhead = ''MARKER_AHEAD''"
| "error_code_str VerificationFailed = ''VERIFICATION_FAILED''"
| "error_code_str InvalidTargetGraph = ''INVALID_TARGET_GRAPH''"
| "error_code_str LedgerUnavailable = ''LEDGER_UNAVAILABLE''"
| "error_code_str LedgerState = ''LEDGER_STATE''"
| "error_code_str TargetConflict = ''TARGET_CONFLICT''"

definition ERROR_CODES :: "projection_error_code list" where
  "ERROR_CODES =
     [TargetUnavailable, TargetTimeout, TargetThrottled, TargetServerError, TargetAuth, TargetProtocol,
      TargetNotTransactional, NamedGraphUnsupported, StateTooLarge, MarkerAhead, VerificationFailed,
      InvalidTargetGraph, LedgerUnavailable, LedgerState, TargetConflict]"

text \<open>A message is a text of its own or the display text of a ledger error, kept as the error.\<close>

datatype message = Message string | Shown ledger_error

record projection_error =
  pe_class :: error_class
  pe_code :: projection_error_code
  pe_message :: message

definition pe_retryable :: "projection_error_code \<Rightarrow> message \<Rightarrow> projection_error" where
  "pe_retryable c m = \<lparr>pe_class = Retryable, pe_code = c, pe_message = m\<rparr>"

definition pe_permanent :: "projection_error_code \<Rightarrow> message \<Rightarrow> projection_error" where
  "pe_permanent c m = \<lparr>pe_class = Permanent, pe_code = c, pe_message = m\<rparr>"

definition is_retryable :: "projection_error \<Rightarrow> bool" where
  "is_retryable e \<longleftrightarrow> pe_class e = Retryable"

section \<open>Percent encoding\<close>

definition unreserved :: "byte \<Rightarrow> bool" where
  "unreserved b \<longleftrightarrow> is_ascii_alphanumeric b \<or> b \<in> {CHR ''-'', CHR ''.'', CHR ''_'', CHR ''~''}"

definition hex_upper :: "nat \<Rightarrow> byte" where
  "hex_upper n = byte_of (if n < 10 then 48 + n else 55 + n)"

definition pct_byte :: "byte \<Rightarrow> string" where
  "pct_byte b =
     (if unreserved b then [b] else [CHR ''%'', hex_upper (code b div 16), hex_upper (code b mod 16)])"

definition pct_encode :: "string \<Rightarrow> string" where
  "pct_encode v = concat (map pct_byte v)"

definition is_hex_upper :: "byte \<Rightarrow> bool" where
  "is_hex_upper h \<longleftrightarrow> is_ascii_digit h \<or> 65 \<le> code h \<and> code h \<le> 70"

definition hex_value :: "byte \<Rightarrow> nat" where
  "hex_value h = (if is_ascii_digit h then code h - 48 else code h - 55)"

fun pct_decode_bytes :: "bytes \<Rightarrow> bytes option" where
  "pct_decode_bytes [] = Some []"
| "pct_decode_bytes (b # rest) =
     (if b = CHR ''%'' then
        (case rest of
           h1 # h2 # rest' \<Rightarrow>
             (if \<not> (is_hex_upper h1 \<and> is_hex_upper h2) then None
              else let byte = byte_of (16 * hex_value h1 + hex_value h2) in
                   if unreserved byte then None else map_option (Cons byte) (pct_decode_bytes rest'))
         | _ \<Rightarrow> None)
      else if unreserved b then map_option (Cons b) (pct_decode_bytes rest)
      else None)"

definition pct_decode :: "string \<Rightarrow> string option" where
  "pct_decode v =
     (case pct_decode_bytes v of None \<Rightarrow> None | Some out \<Rightarrow> if utf8 out then Some out else None)"

section \<open>Cognitive graphs\<close>

definition MARKER_GRAPH :: string where "MARKER_GRAPH = ''urn:sculpin:ledger-projection:v1:markers''"
definition TARGET_SUBJECT :: string where "TARGET_SUBJECT = ''urn:sculpin:ledger-projection:v1:target''"
definition WRITE_SUBJECT :: string where "WRITE_SUBJECT = ''urn:sculpin:ledger-projection:v1:write''"
definition PROBE_GRAPH :: string where "PROBE_GRAPH = ''urn:sculpin:ledger-projection:v1:probe''"
definition GRAPH_PREFIX :: string where "GRAPH_PREFIX = ''urn:sculpin:kb:''"
definition GRAPH_SUFFIX :: string where "GRAPH_SUFFIX = '':cognitive''"

datatype cognitive_graph = CognitiveGraph (as_iri: string)

definition for_knowledge_base :: "string \<Rightarrow> projection_error + cognitive_graph" where
  "for_knowledge_base kb =
     rbind (map_err (\<lambda>e. pe_permanent InvalidTargetGraph (Shown e))
              (validate_token ''knowledge_base_id'' kb MAX_IDENTIFIER_BYTES)) (\<lambda>_.
     Inr (CognitiveGraph (GRAPH_PREFIX @ pct_encode kb @ GRAPH_SUFFIX)))"

definition graph_invalid :: projection_error where
  "graph_invalid =
     pe_permanent InvalidTargetGraph (Message ''not a sculpin-ledger-projection/v1 cognitive graph IRI'')"

definition graph_parse :: "string \<Rightarrow> projection_error + cognitive_graph" where
  "graph_parse iri =
     rbind (ok_or graph_invalid
              (Option.bind (strip_prefix GRAPH_PREFIX iri) (strip_suffix GRAPH_SUFFIX))) (\<lambda>encoded.
     rbind (ok_or graph_invalid (pct_decode encoded)) (\<lambda>kb.
     rbind (for_knowledge_base kb) (\<lambda>graph.
     if as_iri graph \<noteq> iri then Inl graph_invalid else Inr graph)))"

text \<open>\<open>None\<close> is the panic of the slice or of \<open>expect\<close>.\<close>

definition knowledge_base_id :: "cognitive_graph \<Rightarrow> string option" where
  "knowledge_base_id g =
     (if length GRAPH_PREFIX \<le> length (as_iri g) - length GRAPH_SUFFIX \<and> length GRAPH_SUFFIX \<le> length (as_iri g)
      then pct_decode (drop (length GRAPH_PREFIX) (take (length (as_iri g) - length GRAPH_SUFFIX) (as_iri g)))
      else None)"

section \<open>Percent encoding round-trips\<close>

lemma hex_upper_value: "n < 16 \<Longrightarrow> is_hex_upper (hex_upper n) \<and> hex_value (hex_upper n) = n"
  by (auto simp: is_hex_upper_def hex_value_def hex_upper_def is_ascii_digit_def)

lemma hex_value_upper: "is_hex_upper h \<Longrightarrow> hex_value h < 16 \<and> hex_upper (hex_value h) = h"
  by (auto simp: is_hex_upper_def hex_value_def hex_upper_def is_ascii_digit_def)

lemma percent_reserved: "\<not> unreserved (CHR ''%'')"
  by code_simp

lemma pct_decode_byte: "pct_decode_bytes (pct_byte b @ r) = map_option (Cons b) (pct_decode_bytes r)"
proof (cases "unreserved b")
  case True
  then show ?thesis using percent_reserved by (auto simp: pct_byte_def)
next
  case False
  have "code b < 256" by (rule code_less)
  then have hi: "code b div 16 < 16" by linarith
  have b: "byte_of (16 * (code b div 16) + code b mod 16) = b"
    by (simp only: mult_div_mod_eq byte_of_code)
  show ?thesis
    unfolding pct_byte_def if_not_P [OF False] append_Cons append_Nil pct_decode_bytes.simps
    using False hex_upper_value [OF hi] hex_upper_value [of "code b mod 16"]
    by (simp add: b del: mult_div_mod_eq)
qed

lemma pct_decode_bytes_encode: "pct_decode_bytes (pct_encode v) = Some v"
  by (induction v) (simp_all add: pct_encode_def pct_decode_byte)

lemma pct_byte_of_hex:
  assumes "is_hex_upper h1" "is_hex_upper h2"
    and "\<not> unreserved (byte_of (16 * hex_value h1 + hex_value h2))"
  shows "pct_byte (byte_of (16 * hex_value h1 + hex_value h2)) = [CHR ''%'', h1, h2]"
proof -
  have less: "hex_value h1 < 16" "hex_value h2 < 16"
    and up: "hex_upper (hex_value h1) = h1" "hex_upper (hex_value h2) = h2"
    using assms(1,2) hex_value_upper by blast+
  have "code (byte_of (16 * hex_value h1 + hex_value h2)) = 16 * hex_value h1 + hex_value h2"
    using less by (intro code_byte_of) linarith
  then have "code (byte_of (16 * hex_value h1 + hex_value h2)) div 16 = hex_value h1"
    "code (byte_of (16 * hex_value h1 + hex_value h2)) mod 16 = hex_value h2"
    using less by simp_all
  then show ?thesis unfolding pct_byte_def if_not_P [OF assms(3)] by (simp only: up)
qed

lemma pct_encode_decode_bytes: "pct_decode_bytes e = Some v \<Longrightarrow> pct_encode v = e"
proof (induction e arbitrary: v rule: pct_decode_bytes.induct)
  case (2 b rest)
  show ?case
  proof (cases "b = CHR ''%''")
    case True
    obtain h1 h2 rest' w where rest: "rest = h1 # h2 # rest'" and hex: "is_hex_upper h1" "is_hex_upper h2"
      and byte: "\<not> unreserved (byte_of (16 * hex_value h1 + hex_value h2))"
      and w: "pct_decode_bytes rest' = Some w" "v = byte_of (16 * hex_value h1 + hex_value h2) # w"
      using "2.prems" True by (auto simp: Let_def split: list.splits if_splits)
    have "pct_encode w = rest'" by (rule "2.IH"(1) [OF True rest refl _ refl byte w(1)]) (use hex in simp)
    then show ?thesis using pct_byte_of_hex [OF hex byte] by (simp add: pct_encode_def w(2) rest True)
  next
    case False
    then obtain w where "unreserved b" "pct_decode_bytes rest = Some w" "v = b # w"
      using "2.prems" by (auto split: if_splits)
    then show ?thesis using "2.IH"(2) [OF False] by (simp add: pct_encode_def pct_byte_def)
  qed
qed (simp add: pct_encode_def)

text \<open>
  C23. Percent encoding is a bijection between text and its canonical encodings: the decoder gives a
  value exactly for the encoding of that (UTF-8) value, so lower-case escapes, needless escapes, stray
  reserved bytes, truncated escapes and invalid UTF-8 are all refused.
\<close>

theorem pct_decode_iff: "pct_decode e = Some v \<longleftrightarrow> utf8 v \<and> e = pct_encode v"
  using pct_decode_bytes_encode [of v] pct_encode_decode_bytes [of e]
  by (auto simp: pct_decode_def split: option.splits if_splits)

lemma pct_decode_encode: "utf8 v \<Longrightarrow> pct_decode (pct_encode v) = Some v"
  by (simp add: pct_decode_def pct_decode_bytes_encode)

lemma pct_encode_inj: "pct_encode v = pct_encode w \<longleftrightarrow> v = w"
  by (metis option.inject pct_decode_bytes_encode)

lemma for_knowledge_base_Inr:
  "for_knowledge_base kb = Inr g \<longleftrightarrow>
     kb \<noteq> [] \<and> length kb \<le> 512 \<and> \<not> any_control kb \<and> g = CognitiveGraph (GRAPH_PREFIX @ pct_encode kb @ GRAPH_SUFFIX)"
  by (auto simp: for_knowledge_base_def result_simps max_defs)

lemma pct_decode_utf8: "pct_decode e = Some v \<Longrightarrow> utf8 v \<and> pct_encode v = e"
  using pct_encode_decode_bytes [of e] by (auto simp: pct_decode_def split: option.splits if_splits)

lemma graph_parse_Inr:
  "graph_parse iri = Inr g \<longleftrightarrow> as_iri g = iri \<and> (\<exists>kb. utf8 kb \<and> for_knowledge_base kb = Inr g)"
proof
  assume "graph_parse iri = Inr g"
  then show "as_iri g = iri \<and> (\<exists>kb. utf8 kb \<and> for_knowledge_base kb = Inr g)"
    by (auto simp: graph_parse_def result_simps bind_eq_Some_conv split: if_splits dest: pct_decode_utf8)
next
  assume "as_iri g = iri \<and> (\<exists>kb. utf8 kb \<and> for_knowledge_base kb = Inr g)"
  then obtain kb where kb: "utf8 kb" "for_knowledge_base kb = Inr g" and iri: "iri = as_iri g" by blast
  then have "iri = GRAPH_PREFIX @ pct_encode kb @ GRAPH_SUFFIX"
    by (simp add: for_knowledge_base_Inr)
  then show "graph_parse iri = Inr g"
    using kb by (simp add: graph_parse_def pct_decode_encode iri)
qed

text \<open>
  C24. Knowledge bases and their cognitive graphs correspond one to one: a stored IRI is accepted exactly
  when it is the graph of some valid knowledge-base id, that id is read back from it, two ids never
  share a graph, and none of the reserved protocol IRIs is a cognitive graph.
\<close>

theorem cognitive_graph_bijection:
  "(graph_parse iri = Inr g \<longleftrightarrow> as_iri g = iri \<and> (\<exists>kb. utf8 kb \<and> for_knowledge_base kb = Inr g)) \<and>
   (utf8 kb \<and> for_knowledge_base kb = Inr g \<longrightarrow> knowledge_base_id g = Some kb) \<and>
   (for_knowledge_base kb = Inr g \<and> for_knowledge_base kb' = Inr g \<longrightarrow> kb = kb') \<and>
   (iri \<in> {MARKER_GRAPH, TARGET_SUBJECT, WRITE_SUBJECT, PROBE_GRAPH} \<longrightarrow> graph_parse iri = Inl graph_invalid)"
proof (intro conjI impI)
  show "graph_parse iri = Inr g \<longleftrightarrow> as_iri g = iri \<and> (\<exists>kb. utf8 kb \<and> for_knowledge_base kb = Inr g)"
    by (rule graph_parse_Inr)
  show "knowledge_base_id g = Some kb" if "utf8 kb \<and> for_knowledge_base kb = Inr g"
    using that by (auto simp: knowledge_base_id_def for_knowledge_base_Inr pct_decode_encode)
  show "kb = kb'" if "for_knowledge_base kb = Inr g \<and> for_knowledge_base kb' = Inr g"
    using that by (auto simp: for_knowledge_base_Inr pct_encode_inj)
  show "graph_parse iri = Inl graph_invalid" if "iri \<in> {MARKER_GRAPH, TARGET_SUBJECT, WRITE_SUBJECT, PROBE_GRAPH}"
    using that
    by (auto simp: graph_parse_def GRAPH_PREFIX_def MARKER_GRAPH_def TARGET_SUBJECT_def
        WRITE_SUBJECT_def PROBE_GRAPH_def)
qed

theorem cognitive_graph_bijection_witness:
  "let kb = ''kb #1''; g = CognitiveGraph ''urn:sculpin:kb:kb%20%231:cognitive'' in
   for_knowledge_base kb = Inr g \<and> knowledge_base_id g = Some kb \<and> graph_parse (as_iri g) = Inr g \<and>
   graph_parse MARKER_GRAPH = Inl graph_invalid"
proof -
  let ?g = "CognitiveGraph ''urn:sculpin:kb:kb%20%231:cognitive''"
  have "pct_encode ''kb #1'' = ''kb%20%231''" "utf8 ''kb #1''" "\<not> any_control ''kb #1''" by code_simp+
  then have kb: "for_knowledge_base ''kb #1'' = Inr ?g" "utf8 ''kb #1''"
    by (simp_all add: for_knowledge_base_Inr GRAPH_PREFIX_def GRAPH_SUFFIX_def)
  show ?thesis
    using cognitive_graph_bijection [of "as_iri ?g" ?g "''kb #1''" "''kb #1''"]
      cognitive_graph_bijection [of MARKER_GRAPH] kb
    by (auto simp: Let_def)
qed

end
