(* ===== verification/Projection_Plan.thy ===== *)
theory Projection_Plan
  imports Projection_Target Rdf_Patch
begin

text \<open>
  \<^verbatim>\<open>crates/ledger-projection/src/{lib,marker,plan}.rs\<close>: the projected state, the projection marker and
  its strict reader, and the decision table of a projector. An \<open>i64\<close> is an \<open>int\<close>, a \<open>u64\<close> a \<open>nat\<close>; the
  range checks are written out where text is read into them.
\<close>

section \<open>The projected state\<close>

definition PROJECTION_PROTOCOL :: string where "PROJECTION_PROTOCOL = ''sculpin-ledger-projection/v1''"
definition LP_NAMESPACE :: string where "LP_NAMESPACE = ''urn:sculpin:ledger-projection:v1#''"
definition XSD_INTEGER :: string where "XSD_INTEGER = ''http://www.w3.org/2001/XMLSchema#integer''"
definition XSD_STRING :: string where "XSD_STRING = ''http://www.w3.org/2001/XMLSchema#string''"

record projected_state =
  ps_triples :: "string list"
  ps_digest :: content_id

definition named_graph_error :: projection_error where
  "named_graph_error =
     pe_permanent NamedGraphUnsupported
       (Message (''the accepted state contains quads in a named graph; projection v1 '' @
                 ''projects the default graph only (ADR-0020)''))"

text \<open>The outer option is the panic of \<open>default_graph_triple\<close>.\<close>

fun collect_triples :: "nquads \<Rightarrow> quad list \<Rightarrow> (projection_error + string list) option" where
  "collect_triples N [] = Some (Inr [])"
| "collect_triples N (q # qs) =
     (case default_graph_triple N q of
        None \<Rightarrow> None
      | Some None \<Rightarrow> Some (Inl named_graph_error)
      | Some (Some triple) \<Rightarrow>
          map_option (\<lambda>r. rbind r (\<lambda>triples. Inr (triple # triples))) (collect_triples N qs))"

definition projected_from_state ::
  "nquads \<Rightarrow> (bytes \<Rightarrow> string) \<Rightarrow> quad fset \<Rightarrow> (projection_error + projected_state) option" where
  "projected_from_state N H state =
     map_option (\<lambda>r. rbind r (\<lambda>triples. Inr \<lparr>ps_triples = triples, ps_digest = state_digest H state\<rparr>))
       (collect_triples N (sorted_list_of_fset state))"

definition ps_triple_count :: "projected_state \<Rightarrow> nat" where
  "ps_triple_count s = length (ps_triples s)"

definition ps_byte_len :: "projected_state \<Rightarrow> nat" where
  "ps_byte_len s = sum_list (map (\<lambda>t. length t + 1) (ps_triples s))"

section \<open>The marker\<close>

definition MAX_BRANCH_BYTES :: nat where "MAX_BRANCH_BYTES = 128"
definition MAX_WRITE_ID_BYTES :: nat where "MAX_WRITE_ID_BYTES = 128"

definition marker_predicates :: "string list" where
  "marker_predicates =
     map (\<lambda>local. LP_NAMESPACE @ local)
       [''protocol'', ''graphId'', ''branch'', ''commitId'', ''refVersion'', ''stateDigest'', ''writeId'',
        ''tripleCount'']"

record projection_marker =
  mk_graph_id :: graph_id
  mk_branch :: string
  mk_commit :: commit_id
  mk_ref_version :: int
  mk_state_digest :: content_id
  mk_triple_count :: nat
  mk_write_id :: string

record marker_term =
  mt_value :: string
  mt_datatype :: "string option"
  mt_is_literal :: bool
  mt_is_blank :: bool
  mt_language :: "string option"

type_synonym marker_pairs = "(string \<times> marker_term) list"

datatype marker_read = Absent | Malformed message | Present projection_marker

definition escape_char :: "byte \<Rightarrow> string" where
  "escape_char c =
     (if c = CHR 0x5C then [CHR 0x5C, CHR 0x5C]
      else if c = CHR 0x22 then [CHR 0x5C, CHR 0x22]
      else if c = LF then [CHR 0x5C, CHR ''n'']
      else if c = CR then [CHR 0x5C, CHR ''r'']
      else [c])"

definition escape :: "string \<Rightarrow> string" where
  "escape v = concat (map escape_char v)"

definition show_int :: "int \<Rightarrow> string" where
  "show_int n = (if n < 0 then ''-'' @ show_nat (nat (- n)) else show_nat (nat n))"

definition text_literal :: "string \<Rightarrow> string" where
  "text_literal v = [CHR 0x22] @ escape v @ [CHR 0x22]"

definition int_literal :: "string \<Rightarrow> string" where
  "int_literal v = [CHR 0x22] @ v @ [CHR 0x22] @ ''^^<'' @ XSD_INTEGER @ ''>''"

definition marker_triples :: "projection_marker \<Rightarrow> cognitive_graph \<Rightarrow> string list" where
  "marker_triples m graph =
     (let s = ''<'' @ as_iri graph @ ''>'';
          statement = (\<lambda>i obj. s @ '' <'' @ marker_predicates ! i @ ''> '' @ obj @ '' .'') in
      [statement 0 (text_literal PROJECTION_PROTOCOL),
       statement 1 (text_literal (graph_str (mk_graph_id m))),
       statement 2 (text_literal (mk_branch m)),
       statement 3 (text_literal (commit_id_str (mk_commit m))),
       statement 4 (int_literal (show_int (mk_ref_version m))),
       statement 5 (text_literal (cid_str (mk_state_digest m))),
       statement 6 (text_literal (mk_write_id m))])"

subsection \<open>Reading a marker\<close>

fun position :: "'a list \<Rightarrow> 'a \<Rightarrow> nat option" where
  "position [] x = None"
| "position (y # ys) x = (if y = x then Some 0 else map_option Suc (position ys x))"

fun fill_values :: "string list \<Rightarrow> marker_pairs \<Rightarrow> marker_term option list \<Rightarrow> message + marker_term option list" where
  "fill_values predicates [] values = Inr values"
| "fill_values predicates ((predicate, term) # pairs) values =
     (case position predicates predicate of
        None \<Rightarrow> Inl (Message ''unexpected predicate on the marker subject'')
      | Some index \<Rightarrow>
          if values ! index \<noteq> None
          then Inl (Message (''predicate '' @ predicate @ '' appears more than once''))
          else fill_values predicates pairs (values[index := Some term]))"

definition get_term :: "marker_term option list \<Rightarrow> nat \<Rightarrow> message + marker_term" where
  "get_term values i = ok_or (Message (''missing '' @ marker_predicates ! i)) (values ! i)"

definition get_string :: "marker_term option list \<Rightarrow> nat \<Rightarrow> message + string" where
  "get_string values i =
     rbind (get_term values i) (\<lambda>term.
     let plain = (mt_datatype term = None \<or> mt_datatype term = Some XSD_STRING) \<and> mt_language term = None in
     if mt_is_literal term \<and> plain then Inr (mt_value term)
     else Inl (Message (marker_predicates ! i @ '' is not a string literal'')))"

definition canonical_digits :: "string \<Rightarrow> bool" where
  "canonical_digits v \<longleftrightarrow>
     v \<noteq> [] \<and> list_all is_ascii_digit v \<and> (v = ''0'' \<or> \<not> starts_with ''0'' v)"

definition get_integer :: "marker_term option list \<Rightarrow> nat \<Rightarrow> message + string" where
  "get_integer values i =
     rbind (get_term values i) (\<lambda>term.
     if mt_is_literal term \<and> mt_datatype term = Some XSD_INTEGER \<and> canonical_digits (mt_value term)
     then Inr (mt_value term)
     else Inl (Message (marker_predicates ! i @ '' is not a canonical non-negative xsd:integer'')))"

text \<open>\<open>str::parse\<close> on a non-empty string of digits, into \<open>i64\<close> and \<open>u64\<close>.\<close>

definition parse_i64 :: "string \<Rightarrow> int option" where
  "parse_i64 v = (if read_nat v < 2 ^ 63 then Some (int (read_nat v)) else None)"

definition parse_u64 :: "string \<Rightarrow> nat option" where
  "parse_u64 v = (if read_nat v < 2 ^ 64 then Some (read_nat v) else None)"

definition parse_terms :: "marker_pairs \<Rightarrow> message + projection_marker" where
  "parse_terms pairs =
     rbind (fill_values marker_predicates pairs (replicate 8 None)) (\<lambda>values.
     rbind (get_string values 0) (\<lambda>protocol.
     rbind (fail_if (protocol \<noteq> PROJECTION_PROTOCOL) (Message ''unknown projection protocol'')) (\<lambda>_.
     rbind (get_string values 1) (\<lambda>g.
     rbind (map_err Shown (graph_id_new g)) (\<lambda>graph_id.
     rbind (get_string values 2) (\<lambda>branch.
     rbind (map_err Shown (validate_token ''branch'' branch MAX_BRANCH_BYTES)) (\<lambda>_.
     rbind (get_string values 3) (\<lambda>c.
     rbind (map_err Shown (commit_id_from_str c)) (\<lambda>commit.
     rbind (get_integer values 4) (\<lambda>v.
     rbind (ok_or (Message ''refVersion out of range'') (parse_i64 v)) (\<lambda>ref_version.
     rbind (fail_if (ref_version < 1) (Message ''refVersion must be >= 1'')) (\<lambda>_.
     rbind (get_string values 5) (\<lambda>d.
     rbind (map_err Shown (content_id_from_str d)) (\<lambda>digest.
     rbind (get_string values 6) (\<lambda>write_id.
     rbind (map_err Shown (validate_token ''writeId'' write_id MAX_WRITE_ID_BYTES)) (\<lambda>_.
     rbind (get_integer values 7) (\<lambda>n.
     rbind (ok_or (Message ''tripleCount out of range'') (parse_u64 n)) (\<lambda>triple_count.
     Inr \<lparr>mk_graph_id = graph_id, mk_branch = branch, mk_commit = commit, mk_ref_version = ref_version,
          mk_state_digest = digest, mk_triple_count = triple_count, mk_write_id = write_id\<rparr>))))))))))))))))))"

definition from_terms :: "marker_pairs \<Rightarrow> marker_read" where
  "from_terms pairs =
     (if list_all (\<lambda>(p, _). p = marker_predicates ! 6) pairs \<and> length pairs \<le> 1 then Absent
      else case parse_terms pairs of Inr marker \<Rightarrow> Present marker | Inl reason \<Rightarrow> Malformed reason)"

section \<open>Planning\<close>

record observation =
  ob_marker :: marker_read
  ob_triple_count :: nat
  ob_max_ref_version :: "int option"
  ob_terms :: marker_pairs

datatype write_mode_kind = Conditional | Replace

record ledger_view =
  lv_graph_id :: graph_id
  lv_branch :: string
  lv_target_commit :: commit_id
  lv_target_version :: int
  lv_head_version :: int
  lv_commit_at_marker_version :: "commit_id option"
  lv_recorded_version :: "int option"

datatype rebuild_reason =
    MarkerMalformed
  | MarkerCommitMismatch
  | TripleCountMismatch
  | UnmarkedContent
  | TargetLost

fun rebuild_reason_str :: "rebuild_reason \<Rightarrow> string" where
  "rebuild_reason_str MarkerMalformed = ''marker_malformed''"
| "rebuild_reason_str MarkerCommitMismatch = ''marker_commit_mismatch''"
| "rebuild_reason_str TripleCountMismatch = ''triple_count_mismatch''"
| "rebuild_reason_str UnmarkedContent = ''unmarked_content''"
| "rebuild_reason_str TargetLost = ''target_lost''"

datatype plan_result =
    AlreadyProjected
  | AcknowledgeBeyond commit_id int
  | Write "rebuild_reason option"
  | RecoveryRequired projection_error

definition malformed_ahead :: projection_error where
  "malformed_ahead =
     pe_permanent MarkerAhead
       (Message (''the target's (malformed) marker names a ref version beyond the ledger head; '' @
                 ''an operator rebuild must decide (ADR-0020)''))"

definition other_stream :: projection_error where
  "other_stream =
     pe_permanent TargetConflict
       (Message (''the cognitive graph holds another stream's projection; an operator rebuild must '' @
                 ''decide (ADR-0020)''))"

definition marker_ahead :: "int \<Rightarrow> int \<Rightarrow> projection_error" where
  "marker_ahead version head =
     pe_permanent MarkerAhead
       (Message (''the target marker names ref version '' @ show_int version @ '' beyond the ledger head '' @
                 show_int head @ ''; an operator rebuild must decide (ADR-0020)''))"

definition plan_present :: "ledger_view \<Rightarrow> observation \<Rightarrow> projection_marker \<Rightarrow> plan_result" where
  "plan_present view observation marker =
     (if mk_graph_id marker \<noteq> lv_graph_id view \<or> mk_branch marker \<noteq> lv_branch view
      then RecoveryRequired other_stream
      else if mk_ref_version marker > lv_head_version view
      then RecoveryRequired (marker_ahead (mk_ref_version marker) (lv_head_version view))
      else if lv_commit_at_marker_version view \<noteq> Some (mk_commit marker) then Write (Some MarkerCommitMismatch)
      else if mk_triple_count marker \<noteq> ob_triple_count observation then Write (Some TripleCountMismatch)
      else if mk_ref_version marker < lv_target_version view then Write None
      else if mk_ref_version marker = lv_target_version view then AlreadyProjected
      else AcknowledgeBeyond (mk_commit marker) (mk_ref_version marker))"

definition plan :: "ledger_view \<Rightarrow> observation \<Rightarrow> plan_result" where
  "plan view observation =
     (case ob_marker observation of
        Absent \<Rightarrow>
          if ob_triple_count observation = 0
          then (case lv_recorded_version view of Some _ \<Rightarrow> Write (Some TargetLost) | None \<Rightarrow> Write None)
          else Write (Some UnmarkedContent)
      | Malformed _ \<Rightarrow>
          if (case ob_max_ref_version observation of None \<Rightarrow> False | Some v \<Rightarrow> v > lv_head_version view)
          then RecoveryRequired malformed_ahead
          else Write (Some MarkerMalformed)
      | Present marker \<Rightarrow> plan_present view observation marker)"

definition write_mode :: "rebuild_reason option \<Rightarrow> write_mode_kind" where
  "write_mode rebuild = (case rebuild of None \<Rightarrow> Conditional | Some _ \<Rightarrow> Replace)"

section \<open>What the marker reader accepts\<close>

lemma position_Some: "position ys x = Some i \<Longrightarrow> i < length ys \<and> ys ! i = x"
  by (induction ys arbitrary: i) (auto split: if_splits)

lemma position_None: "position ys x = None \<longleftrightarrow> x \<notin> set ys"
  by (induction ys) auto

lemma map_fun_upd_position:
  assumes "distinct ys" and "position ys x = Some i"
  shows "(map f ys)[i := v] = map (f(x := v)) ys"
  using assms by (auto simp: list_eq_iff_nth_eq nth_list_update nth_eq_iff_index_eq dest!: position_Some)

lemma fill_values_Inr:
  assumes "distinct predicates"
  shows "fill_values predicates pairs (map f predicates) = Inr values \<longleftrightarrow>
    distinct (map fst pairs) \<and> fst ` set pairs \<subseteq> set predicates \<and> (\<forall>p \<in> fst ` set pairs. f p = None) \<and>
    values = map (f ++ map_of pairs) predicates"
proof (induction pairs arbitrary: f)
  case Nil
  then show ?case by auto
next
  case (Cons pair pairs)
  obtain p t where pair: "pair = (p, t)" by (rule prod.exhaust)
  show ?case
  proof (cases "position predicates p")
    case None
    have "fill_values predicates (pair # pairs) (map f predicates) \<noteq> Inr values"
      unfolding pair fill_values.simps None option.case by (rule Inl_not_Inr)
    moreover have "\<not> fst ` set (pair # pairs) \<subseteq> set predicates"
      using None unfolding position_None pair by auto
    ultimately show ?thesis by blast
  next
    case (Some i)
    then have at: "map f predicates ! i = f p" and mem: "p \<in> set predicates"
      using position_Some [OF Some] by auto
    have upd: "(map f predicates)[i := Some t] = map (f(p \<mapsto> t)) predicates"
      by (rule map_fun_upd_position [OF assms Some])
    have same: "f(p \<mapsto> t) ++ map_of pairs = f ++ map_of (pair # pairs)" if "p \<notin> fst ` set pairs"
    proof -
      have "map_of pairs p = None" using that by (simp add: map_of_eq_None_iff)
      then show ?thesis by (auto simp: pair fun_eq_iff map_add_def split: option.split)
    qed
    have fill: "fill_values predicates (pair # pairs) (map f predicates) =
        (if f p \<noteq> None then Inl (Message (''predicate '' @ p @ '' appears more than once''))
         else fill_values predicates pairs (map (f(p \<mapsto> t)) predicates))"
      by (simp only: pair fill_values.simps Some option.case at upd)
    have new: "(\<forall>q \<in> fst ` set pairs. (f(p \<mapsto> t)) q = None) \<longleftrightarrow>
        p \<notin> fst ` set pairs \<and> (\<forall>q \<in> fst ` set pairs. f q = None)"
      by (metis fun_upd_apply option.distinct(1))
    show ?thesis
    proof (cases "f p = None \<and> p \<notin> fst ` set pairs")
      case True
      have "fill_values predicates (pair # pairs) (map f predicates) = Inr values \<longleftrightarrow>
          distinct (map fst pairs) \<and> fst ` set pairs \<subseteq> set predicates \<and> (\<forall>q \<in> fst ` set pairs. f q = None) \<and>
          values = map (f ++ map_of (pair # pairs)) predicates"
      proof -
        have np: "p \<notin> fst ` set pairs" and "f p = None" using True by simp_all
        then have "fill_values predicates (pair # pairs) (map f predicates) =
            fill_values predicates pairs (map (f(p \<mapsto> t)) predicates)"
          by (simp only: fill simp_thms if_False)
        then show ?thesis by (simp only: Cons.IH new same [OF np] np simp_thms)
      qed
      moreover have "distinct (map fst (pair # pairs)) = distinct (map fst pairs)"
        "fst ` set (pair # pairs) \<subseteq> set predicates \<longleftrightarrow> fst ` set pairs \<subseteq> set predicates"
        "(\<forall>q \<in> fst ` set (pair # pairs). f q = None) \<longleftrightarrow> (\<forall>q \<in> fst ` set pairs. f q = None)"
        using True mem by (simp_all add: pair)
      ultimately show ?thesis by (simp only:)
    next
      case False
      have "fill_values predicates pairs (map (f(p \<mapsto> t)) predicates) \<noteq> Inr values" if "f p = None"
        using Cons.IH [of "f(p \<mapsto> t)"] new False that by blast
      then have "fill_values predicates (pair # pairs) (map f predicates) \<noteq> Inr values"
        unfolding fill by (cases "f p = None") simp_all
      moreover have "\<not> (distinct (map fst (pair # pairs)) \<and> (\<forall>q \<in> fst ` set (pair # pairs). f q = None))"
        using False by (auto simp: pair)
      ultimately show ?thesis by blast
    qed
  qed
qed

lemma distinct_predicates: "distinct marker_predicates"
  by (simp add: marker_predicates_def)

lemma length_predicates: "length marker_predicates = 8"
  by (simp add: marker_predicates_def)

lemma fill_marker_Inr:
  "fill_values marker_predicates pairs (replicate 8 None) = Inr values \<longleftrightarrow>
     distinct (map fst pairs) \<and> fst ` set pairs \<subseteq> set marker_predicates \<and>
     values = map (map_of pairs) marker_predicates"
proof -
  have "replicate 8 None = map (\<lambda>_. None :: marker_term option) marker_predicates"
    by (simp add: map_replicate_const length_predicates)
  then show ?thesis
    using fill_values_Inr [OF distinct_predicates, of pairs "\<lambda>_. None"] by simp
qed

text \<open>The two literal forms of a marker value.\<close>

definition string_term :: "marker_term \<Rightarrow> string \<Rightarrow> bool" where
  "string_term t v \<longleftrightarrow>
     mt_is_literal t \<and> mt_value t = v \<and> mt_datatype t \<in> {None, Some XSD_STRING} \<and> mt_language t = None"

definition integer_term :: "marker_term \<Rightarrow> nat \<Rightarrow> bool" where
  "integer_term t n \<longleftrightarrow> mt_is_literal t \<and> mt_value t = show_nat n \<and> mt_datatype t = Some XSD_INTEGER"

lemma get_string_Inr:
  "get_string values i = Inr v \<longleftrightarrow> (\<exists>t. values ! i = Some t \<and> string_term t v)"
  by (auto simp: get_string_def get_term_def string_term_def Let_def result_simps split: if_splits)

lemma digit_0: "digit 0 = CHR ''0''"
  by code_simp

lemma hd_show_nat: "n \<noteq> 0 \<Longrightarrow> hd (show_nat n) \<noteq> digit 0"
proof (induction n rule: show_nat.induct)
  case (1 n)
  show ?case
  proof (cases "n < 10")
    case True
    then have "code (digit n) \<noteq> code (digit 0)" using "1.prems" by (simp add: digit_code)
    then show ?thesis using True by (auto simp: show_nat.simps [of n])
  next
    case False
    then show ?thesis using "1.IH" [OF False] by (simp add: show_nat.simps [of n])
  qed
qed

lemma canonical_digits_show: "canonical_digits v \<longleftrightarrow> (\<exists>n. v = show_nat n)"
proof
  assume "canonical_digits v"
  then have "v = show_nat (read_nat v)"
  proof (induction v rule: rev_induct)
    case (snoc b v)
    have b: "is_ascii_digit b" using snoc.prems by (simp add: canonical_digits_def)
    then have d: "digit (code b - 48) = b" "code b - 48 < 10"
      by (auto simp: is_ascii_digit_def digit_def)
    show ?case
    proof (cases "v = []")
      case True
      then show ?thesis using d by (simp add: read_nat_def show_nat.simps)
    next
      case False
      then obtain c w where v: "v = c # w" by (cases v) auto
      have "c \<noteq> CHR ''0''" using snoc.prems by (auto simp: canonical_digits_def v starts_with_def)
      then have can: "canonical_digits v"
        using snoc.prems by (auto simp: canonical_digits_def v starts_with_def)
      have "read_nat v \<noteq> 0"
      proof
        assume "read_nat v = 0"
        then have "v = ''0''" using snoc.IH [OF can] by (simp add: show_nat.simps digit_0)
        then show False using \<open>c \<noteq> CHR ''0''\<close> v by simp
      qed
      then have "\<not> 10 * read_nat v + (code b - 48) < 10" by simp
      then show ?thesis
        using snoc.IH [OF can] d by (simp add: read_nat_def show_nat.simps [of "10 * _ + _"])
    qed
  qed (simp add: canonical_digits_def)
  then show "\<exists>n. v = show_nat n" ..
next
  assume "\<exists>n. v = show_nat n"
  then obtain n where v: "v = show_nat n" ..
  have "\<not> starts_with ''0'' (show_nat n)" if "n \<noteq> 0"
    using hd_show_nat [OF that] by (cases "show_nat n") (auto simp: starts_with_def digit_0)
  then show "canonical_digits v"
    using show_nat_digits [of n]
    by (cases "n = 0") (auto simp: v canonical_digits_def list_all_iff show_nat.simps [of 0] digit_0)
qed

lemma get_integer_Inr:
  "get_integer values i = Inr v \<longleftrightarrow> (\<exists>t n. values ! i = Some t \<and> integer_term t n \<and> v = show_nat n)"
  by (auto simp: get_integer_def get_term_def integer_term_def result_simps canonical_digits_show
      split: if_splits)

definition wf_marker :: "projection_marker \<Rightarrow> bool" where
  "wf_marker m \<longleftrightarrow>
     wf_graph_id (mk_graph_id m) \<and>
     mk_branch m \<noteq> [] \<and> length (mk_branch m) \<le> 128 \<and> \<not> any_control (mk_branch m) \<and>
     wf_commit_id (mk_commit m) \<and> 1 \<le> mk_ref_version m \<and> mk_ref_version m < 2 ^ 63 \<and>
     wf_content_id (mk_state_digest m) \<and>
     mk_write_id m \<noteq> [] \<and> length (mk_write_id m) \<le> 128 \<and> \<not> any_control (mk_write_id m) \<and>
     mk_triple_count m < 2 ^ 64"

definition marker_at :: "marker_pairs \<Rightarrow> string \<Rightarrow> (marker_term \<Rightarrow> bool) \<Rightarrow> bool" where
  "marker_at pairs local P \<longleftrightarrow> (\<exists>t. map_of pairs (LP_NAMESPACE @ local) = Some t \<and> P t)"

definition holds_marker :: "marker_pairs \<Rightarrow> projection_marker \<Rightarrow> bool" where
  "holds_marker pairs m \<longleftrightarrow>
     marker_at pairs ''protocol'' (\<lambda>t. string_term t PROJECTION_PROTOCOL) \<and>
     marker_at pairs ''graphId'' (\<lambda>t. string_term t (graph_str (mk_graph_id m))) \<and>
     marker_at pairs ''branch'' (\<lambda>t. string_term t (mk_branch m)) \<and>
     marker_at pairs ''commitId'' (\<lambda>t. string_term t (commit_id_str (mk_commit m))) \<and>
     marker_at pairs ''refVersion'' (\<lambda>t. integer_term t (nat (mk_ref_version m))) \<and>
     marker_at pairs ''stateDigest'' (\<lambda>t. string_term t (cid_str (mk_state_digest m))) \<and>
     marker_at pairs ''writeId'' (\<lambda>t. string_term t (mk_write_id m)) \<and>
     marker_at pairs ''tripleCount'' (\<lambda>t. integer_term t (mk_triple_count m))"

lemma marker_predicates_nth:
  "marker_predicates ! 0 = LP_NAMESPACE @ ''protocol''" "marker_predicates ! 1 = LP_NAMESPACE @ ''graphId''"
  "marker_predicates ! 2 = LP_NAMESPACE @ ''branch''" "marker_predicates ! 3 = LP_NAMESPACE @ ''commitId''"
  "marker_predicates ! 4 = LP_NAMESPACE @ ''refVersion''"
  "marker_predicates ! 5 = LP_NAMESPACE @ ''stateDigest''"
  "marker_predicates ! 6 = LP_NAMESPACE @ ''writeId''" "marker_predicates ! 7 = LP_NAMESPACE @ ''tripleCount''"
  by (simp_all add: marker_predicates_def)

lemma marker_value_nth:
  "i < 8 \<Longrightarrow> map (map_of pairs) marker_predicates ! i = map_of pairs (marker_predicates ! i)"
  by (simp add: length_predicates)

lemma get_string_at:
  assumes "i < 8" and "marker_predicates ! i = LP_NAMESPACE @ local"
  shows "get_string (map (map_of pairs) marker_predicates) i = Inr v \<longleftrightarrow> marker_at pairs local (\<lambda>t. string_term t v)"
  by (simp add: get_string_Inr marker_value_nth [OF assms(1)] assms(2) marker_at_def)

lemma get_integer_at:
  assumes "i < 8" and "marker_predicates ! i = LP_NAMESPACE @ local"
  shows "get_integer (map (map_of pairs) marker_predicates) i = Inr v \<longleftrightarrow>
    (\<exists>n. marker_at pairs local (\<lambda>t. integer_term t n) \<and> v = show_nat n)"
  by (auto simp: get_integer_Inr marker_value_nth [OF assms(1)] assms(2) marker_at_def)

lemmas get_field_Inr =
  get_string_at [OF _ marker_predicates_nth(1), simplified] get_string_at [OF _ marker_predicates_nth(2), simplified]
  get_string_at [OF _ marker_predicates_nth(3), simplified] get_string_at [OF _ marker_predicates_nth(4), simplified]
  get_integer_at [OF _ marker_predicates_nth(5), simplified] get_string_at [OF _ marker_predicates_nth(6), simplified]
  get_string_at [OF _ marker_predicates_nth(7), simplified] get_integer_at [OF _ marker_predicates_nth(8), simplified]

lemmas get_string_field = get_field_Inr(1-4,6-7)

lemma get_integer_field:
  "marker_at pairs ''refVersion'' (\<lambda>t. integer_term t n) \<longrightarrow>
     get_integer (map (map_of pairs) marker_predicates) 4 = Inr (show_nat n)"
  "marker_at pairs ''tripleCount'' (\<lambda>t. integer_term t n) \<longrightarrow>
     get_integer (map (map_of pairs) marker_predicates) 7 = Inr (show_nat n)"
  unfolding get_field_Inr by blast+

lemma id_readers_Inr:
  "graph_id_new v = Inr g \<longleftrightarrow> wf_graph_id g \<and> graph_str g = v"
  "commit_id_from_str v = Inr c \<longleftrightarrow> wf_commit_id c \<and> commit_id_str c = v"
  "content_id_from_str v = Inr d \<longleftrightarrow> wf_content_id d \<and> cid_str d = v"
  by (auto simp: wf_graph_id_def graph_id_new_Inr dest: commit_id_from_str_Inr from_str_wf)
    (auto simp: commit_id_roundtrip content_id_roundtrip)

lemma parse_number_Some:
  "parse_i64 (show_nat n) = Some k \<longleftrightarrow> n < 2 ^ 63 \<and> k = int n"
  "parse_u64 (show_nat n) = Some m \<longleftrightarrow> n < 2 ^ 64 \<and> m = n"
  by (auto simp: parse_i64_def parse_u64_def read_show_nat)

lemma parse_terms_Inr:
  "parse_terms pairs = Inr m \<longleftrightarrow>
     distinct (map fst pairs) \<and> fst ` set pairs \<subseteq> set marker_predicates \<and> holds_marker pairs m \<and> wf_marker m"
proof
  assume "parse_terms pairs = Inr m"
  then show "distinct (map fst pairs) \<and> fst ` set pairs \<subseteq> set marker_predicates \<and> holds_marker pairs m \<and> wf_marker m"
    by (clarsimp simp: parse_terms_def rbind_eq_Inr fail_if_eq_Inr map_err_eq_Inr ok_or_eq_Inr fill_marker_Inr
        get_field_Inr id_readers_Inr parse_number_Some validate_token_Inr MAX_BRANCH_BYTES_def
        MAX_WRITE_ID_BYTES_def holds_marker_def wf_marker_def)
next
  assume a: "distinct (map fst pairs) \<and> fst ` set pairs \<subseteq> set marker_predicates \<and> holds_marker pairs m \<and> wf_marker m"
  then have fill: "fill_values marker_predicates pairs (replicate 8 None) = Inr (map (map_of pairs) marker_predicates)"
    by (simp add: fill_marker_Inr)
  have fields: "get_string (map (map_of pairs) marker_predicates) 0 = Inr PROJECTION_PROTOCOL"
    "get_string (map (map_of pairs) marker_predicates) 1 = Inr (graph_str (mk_graph_id m))"
    "get_string (map (map_of pairs) marker_predicates) 2 = Inr (mk_branch m)"
    "get_string (map (map_of pairs) marker_predicates) 3 = Inr (commit_id_str (mk_commit m))"
    "get_integer (map (map_of pairs) marker_predicates) 4 = Inr (show_nat (nat (mk_ref_version m)))"
    "get_string (map (map_of pairs) marker_predicates) 5 = Inr (cid_str (mk_state_digest m))"
    "get_string (map (map_of pairs) marker_predicates) 6 = Inr (mk_write_id m)"
    "get_integer (map (map_of pairs) marker_predicates) 7 = Inr (show_nat (mk_triple_count m))"
    using a by (simp_all add: holds_marker_def get_string_field get_integer_field)
  have ids: "graph_id_new (graph_str (mk_graph_id m)) = Inr (mk_graph_id m)"
    "commit_id_from_str (commit_id_str (mk_commit m)) = Inr (mk_commit m)"
    "content_id_from_str (cid_str (mk_state_digest m)) = Inr (mk_state_digest m)"
    "validate_token ''branch'' (mk_branch m) MAX_BRANCH_BYTES = Inr ()"
    "validate_token ''writeId'' (mk_write_id m) MAX_WRITE_ID_BYTES = Inr ()"
    "parse_i64 (show_nat (nat (mk_ref_version m))) = Some (mk_ref_version m)"
    "parse_u64 (show_nat (mk_triple_count m)) = Some (mk_triple_count m)" "\<not> mk_ref_version m < 1"
    using a by (auto simp: wf_marker_def id_readers_Inr validate_token_Inr parse_number_Some
        MAX_BRANCH_BYTES_def MAX_WRITE_ID_BYTES_def nat_less_iff)
  show "parse_terms pairs = Inr m"
    unfolding parse_terms_def fill fields ids by (simp add: ids fields [unfolded One_nat_def])
qed

text \<open>
  C25. The marker reader never guesses: it yields a marker exactly when the subject carries each of the
  eight v1 predicates once, nothing else, every object being the literal that writes the marker's
  (valid, in-range) field. The order in which the target returns them does not matter.
\<close>

theorem marker_from_terms_iff:
  "from_terms pairs = Present m \<longleftrightarrow>
     distinct (map fst pairs) \<and> fst ` set pairs = set marker_predicates \<and> holds_marker pairs m \<and> wf_marker m"
proof -
  have all: "set marker_predicates \<subseteq> fst ` set pairs" if "holds_marker pairs m"
    using that by (auto simp: marker_predicates_def holds_marker_def marker_at_def dest!: map_of_SomeD) (force)+
  have many: "\<not> (list_all (\<lambda>(p, _). p = marker_predicates ! 6) pairs \<and> length pairs \<le> 1)"
    if "holds_marker pairs m"
  proof
    assume one: "list_all (\<lambda>(p, _). p = marker_predicates ! 6) pairs \<and> length pairs \<le> 1"
    have "marker_predicates ! 0 \<in> fst ` set pairs" using all [OF that] by (auto simp: marker_predicates_def)
    then have "marker_predicates ! 0 = marker_predicates ! 6" using one by (auto simp: list_all_iff)
    then show False by (simp add: marker_predicates_nth)
  qed
  have "from_terms pairs = Present m \<longleftrightarrow>
      \<not> (list_all (\<lambda>(p, _). p = marker_predicates ! 6) pairs \<and> length pairs \<le> 1) \<and> parse_terms pairs = Inr m"
    by (auto simp: from_terms_def split: sum.splits)
  then show ?thesis using all many by (auto simp: parse_terms_Inr)
qed

section \<open>What is projected\<close>

text \<open>The N-Triples statement of a parsed quad: its terms without its graph.\<close>

definition statement :: "nquad \<Rightarrow> string" where
  "statement p = nterm_str (nq_subject p) @ '' '' @ nq_predicate p @ '' '' @ nterm_str (nq_object p) @ '' .''"

definition parsed :: "nquads \<Rightarrow> quad \<Rightarrow> nquad \<Rightarrow> bool" where
  "parsed N q p \<longleftrightarrow> nq_parse N (quad_str q) = [Inr p]"

lemma wf_quad_parsed:
  assumes "nquads_ok N" and "wf_quad N q"
  obtains p where "parsed N q p"
  using wf_quad_reparse [OF assms] by (auto simp: parsed_def quad_from_str_Inr)

lemma default_graph_triple_parsed:
  "parsed N q p \<Longrightarrow>
     default_graph_triple N q = Some (if nq_graph_name p = DefaultGraph then Some (statement p) else None)"
  by (simp add: parsed_def default_graph_triple_def statement_def)

lemma collect_triples_spec:
  assumes "list_all2 (parsed N) qs ps"
  shows "collect_triples N qs =
    Some (if \<exists>p \<in> set ps. nq_graph_name p \<noteq> DefaultGraph then Inl named_graph_error else Inr (map statement ps))"
  using assms by (induction rule: list_all2_induct) (auto simp: default_graph_triple_parsed)

text \<open>
  C26. Projecting a state of valid quads never panics. Each quad of the state reads as one statement of a
  graph; if any of these graphs is not the default graph, the projection is refused for good, and
  otherwise the projected triples are the statements of all quads in the canonical order of the state,
  under the digest of that state.
\<close>

theorem projected_state_spec:
  assumes "nquads_ok N" and "\<And>q. q |\<in>| state \<Longrightarrow> wf_quad N q"
  shows "\<exists>ps. list_all2 (\<lambda>q p. nq_parse N (quad_str q) = [Inr p]) (sorted_list_of_fset state) ps \<and>
    projected_from_state N H state =
      Some (if \<exists>p \<in> set ps. nq_graph_name p \<noteq> DefaultGraph then Inl named_graph_error
            else Inr \<lparr>ps_triples = map statement ps, ps_digest = state_digest H state\<rparr>)"
proof -
  have "\<forall>q \<in> set (sorted_list_of_fset state). \<exists>p. parsed N q p"
    using wf_quad_parsed [OF assms(1) assms(2)] by auto
  then obtain f where "\<forall>q \<in> set (sorted_list_of_fset state). parsed N q (f q)" by (rule bchoice [THEN exE])
  then have ps: "list_all2 (parsed N) (sorted_list_of_fset state) (map f (sorted_list_of_fset state))"
    by (simp add: list_all2_map2 list_all2_same)
  have "parsed N = (\<lambda>q p. nq_parse N (quad_str q) = [Inr p])" by (simp add: fun_eq_iff parsed_def)
  then show ?thesis
    using ps collect_triples_spec [OF ps] by (intro exI [of _ "map f (sorted_list_of_fset state)"]) (simp add: projected_from_state_def)
qed

text \<open>A library with a statement of the default graph and one of a named graph.\<close>

definition two_graphs :: nquads where
  "two_graphs =
     \<lparr>nq_parse = (\<lambda>v. if v = ''<urn:s> <urn:p> <urn:o> .'' then [Inr demo_nquad]
                      else if v = ''<urn:s> <urn:p> <urn:o> <urn:g> .''
                      then [Inr (demo_nquad\<lparr>nq_graph_name := NamedGraph ''<urn:g>''\<rparr>)] else []),
      nq_show = (\<lambda>q. if nq_graph_name q = DefaultGraph then ''<urn:s> <urn:p> <urn:o>''
                     else ''<urn:s> <urn:p> <urn:o> <urn:g>'')\<rparr>"

lemma two_graphs_ok: "nquads_ok two_graphs"
  by (auto simp: nquads_ok_def two_graphs_def demo_nquad_def ascii_utf8 split: if_splits)

theorem projected_state_spec_witness:
  "let q = Quad ''<urn:s> <urn:p> <urn:o> .''; g = Quad ''<urn:s> <urn:p> <urn:o> <urn:g> .'' in
   nquads_ok two_graphs \<and> wf_quad two_graphs q \<and> wf_quad two_graphs g \<and>
   projected_from_state two_graphs (\<lambda>bs. bs) {|q|} =
     Some (Inr \<lparr>ps_triples = [''<urn:s> <urn:p> <urn:o> .''], ps_digest = state_digest (\<lambda>bs. bs) {|q|}\<rparr>) \<and>
   projected_from_state two_graphs (\<lambda>bs. bs) {|g|} = Some (Inl named_graph_error)"
proof -
  let ?q = "Quad ''<urn:s> <urn:p> <urn:o> .''" and ?g = "Quad ''<urn:s> <urn:p> <urn:o> <urn:g> .''"
  have wf: "wf_quad two_graphs ?q" "wf_quad two_graphs ?g"
    unfolding wf_quad_def
    by (rule exI [of _ "quad_str ?q"], simp add: quad_from_str_def two_graphs_def demo_nquad_def has_blank_def)
      (rule exI [of _ "quad_str ?g"], simp add: quad_from_str_def two_graphs_def demo_nquad_def has_blank_def)
  have single: "sorted_list_of_fset {|x|} = [x]" for x :: quad by (simp add: sorted_list_of_fset.rep_eq)
  have "projected_from_state two_graphs (\<lambda>bs. bs) {|?q|} =
      Some (Inr \<lparr>ps_triples = [''<urn:s> <urn:p> <urn:o> .''], ps_digest = state_digest (\<lambda>bs. bs) {|?q|}\<rparr>)"
    using projected_state_spec [OF two_graphs_ok, of "{|?q|}" "\<lambda>bs. bs"] wf(1)
    by (auto simp: single list_all2_Cons1 two_graphs_def demo_nquad_def statement_def)
  moreover have "projected_from_state two_graphs (\<lambda>bs. bs) {|?g|} = Some (Inl named_graph_error)"
    using projected_state_spec [OF two_graphs_ok, of "{|?g|}" "\<lambda>bs. bs"] wf(2)
    by (auto simp: single list_all2_Cons1 two_graphs_def demo_nquad_def)
  ultimately show ?thesis using wf two_graphs_ok by (simp only: Let_def simp_thms)
qed

section \<open>What the decision table guarantees\<close>

text \<open>A marker that is a true statement about this stream and about the observed graph.\<close>

definition marker_credible :: "ledger_view \<Rightarrow> observation \<Rightarrow> projection_marker \<Rightarrow> bool" where
  "marker_credible view obs m \<longleftrightarrow>
     ob_marker obs = Present m \<and> mk_graph_id m = lv_graph_id view \<and> mk_branch m = lv_branch view \<and>
     mk_ref_version m \<le> lv_head_version view \<and> lv_commit_at_marker_version view = Some (mk_commit m) \<and>
     mk_triple_count m = ob_triple_count obs"

lemmas plan_unfold = plan_def plan_present_def marker_credible_def

text \<open>
  C27. A planned write never destroys what the ledger is not authoritative for: it never replaces the
  projection of another stream, nor a marker, well-formed or not, whose version is beyond the ledger's
  head. A plain (conditional) write is planned only for a target that is empty and was never projected
  to, or that credibly holds an earlier version of the same stream; every other write is a replacement.
\<close>

theorem plan_write_safe:
  assumes "plan view obs = Write r"
  shows "(\<forall>m. ob_marker obs = Present m \<longrightarrow>
            mk_graph_id m = lv_graph_id view \<and> mk_branch m = lv_branch view \<and>
            mk_ref_version m \<le> lv_head_version view) \<and>
         (\<forall>reason v. ob_marker obs = Malformed reason \<and> ob_max_ref_version obs = Some v \<longrightarrow> v \<le> lv_head_version view) \<and>
         (write_mode r = Conditional \<longleftrightarrow>
            ob_marker obs = Absent \<and> ob_triple_count obs = 0 \<and> lv_recorded_version view = None \<or>
            (\<exists>m. marker_credible view obs m \<and> mk_ref_version m < lv_target_version view))"
  using assms
  by (cases "ob_marker obs") (auto simp: plan_unfold write_mode_def split: if_splits option.splits)

definition demo_view :: ledger_view where
  "demo_view =
     \<lparr>lv_graph_id = GraphId ''g'', lv_branch = ''main'', lv_target_commit = CommitId (ContentId ''c3''),
      lv_target_version = 3, lv_head_version = 3,
      lv_commit_at_marker_version = Some (CommitId (ContentId ''c2'')), lv_recorded_version = Some 2\<rparr>"

definition demo_marker :: projection_marker where
  "demo_marker =
     \<lparr>mk_graph_id = GraphId ''g'', mk_branch = ''main'', mk_commit = CommitId (ContentId ''c2''),
      mk_ref_version = 2, mk_state_digest = ContentId ''d2'', mk_triple_count = 5, mk_write_id = ''w2''\<rparr>"

definition demo_observation :: observation where
  "demo_observation =
     \<lparr>ob_marker = Present demo_marker, ob_triple_count = 5, ob_max_ref_version = Some 2, ob_terms = []\<rparr>"

lemmas demo_plan_defs = demo_view_def demo_marker_def demo_observation_def

theorem plan_write_safe_witness:
  "plan demo_view demo_observation = Write None \<and> write_mode None = Conditional \<and>
   mk_ref_version demo_marker \<le> lv_head_version demo_view"
proof -
  have p: "plan demo_view demo_observation = Write None"
    by (simp add: plan_unfold demo_plan_defs)
  show ?thesis
    using plan_write_safe [OF p] p by (auto simp: demo_plan_defs write_mode_def)
qed

text \<open>
  C28. A projection is acknowledged without a write exactly when the target credibly holds the requested
  version, or a later one of the same stream: the marker names this stream, a version the ledger has,
  the ledger's commit at that version, and the number of triples the graph really holds.
\<close>

theorem plan_acknowledges_iff:
  "(plan view obs = AlreadyProjected \<longleftrightarrow>
      (\<exists>m. marker_credible view obs m \<and> mk_ref_version m = lv_target_version view)) \<and>
   (plan view obs = AcknowledgeBeyond c v \<longleftrightarrow>
      (\<exists>m. marker_credible view obs m \<and> mk_commit m = c \<and> mk_ref_version m = v \<and> v > lv_target_version view))"
  by (cases "ob_marker obs") (auto simp: plan_unfold split: if_splits option.splits)

end
