(* ===== verification/Store_Objects.thy ===== *)
theory Store_Objects
  imports Core_Commit Rdf_Delta
begin

text \<open>
  The storage-independent part of \<^verbatim>\<open>crates/ledger-store/src/lib.rs\<close>: reconstruction limits, bounded patch
  application, and the typed reading of stored objects. The digest function, the time library and the
  N-Quads library are gathered in one record, passed to every function that uses one of them.
\<close>

record 't libs =
  lib_hash :: "bytes \<Rightarrow> string"
  lib_time :: "'t time_crate"
  lib_nquads :: nquads

definition libs_ok :: "'t libs \<Rightarrow> bool" where
  "libs_ok L \<longleftrightarrow> hex_digest (lib_hash L) \<and> time_crate_ok (lib_time L) \<and> nquads_ok (lib_nquads L)"

section \<open>The display text of errors\<close>

text \<open>
  \<open>{:?}\<close> on a \<open>str\<close>. It is only applied to identifiers and to headers reduced to graphic ASCII, so the
  escapes of control and non-ASCII characters are left out.
\<close>

definition debug_str :: "string \<Rightarrow> string" where
  "debug_str s =
     [CHR 0x22] @ concat (map (\<lambda>b. if b = CHR 0x22 \<or> b = CHR 0x5C then [CHR 0x5C, b] else [b]) s) @ [CHR 0x22]"

definition debug_head :: "commit_id option \<Rightarrow> string" where
  "debug_head h =
     (case h of
        None \<Rightarrow> ''None''
      | Some c \<Rightarrow> ''Some(CommitId(ContentId('' @ debug_str (commit_id_str c) @ '')))'')"

fun ledger_error_str :: "ledger_error \<Rightarrow> string" where
  "ledger_error_str (InvalidContentId v) = ''invalid content ID: '' @ v"
| "ledger_error_str (NotFound c) = ''content '' @ cid_str c @ '' was not found''"
| "ledger_error_str (MissingParent c) = ''parent commit '' @ commit_id_str c @ '' does not exist''"
| "ledger_error_str (MissingPatch p) = ''patch '' @ cid_str (patch_cid p) @ '' does not exist''"
| "ledger_error_str (MissingTarget c) = ''ref target commit '' @ commit_id_str c @ '' does not exist''"
| "ledger_error_str (HeadChanged e a) =
     ''HEAD_CHANGED: expected '' @ debug_head e @ '', actual '' @ debug_head a"
| "ledger_error_str (ObjectCollision c) = ''immutable object collision for '' @ cid_str c"
| "ledger_error_str (CorruptObject c r) = ''corrupt object '' @ cid_str c @ '': '' @ r"
| "ledger_error_str (InvalidCommit r) = ''invalid commit encoding: '' @ r"
| "ledger_error_str (UnknownCommitVersion h) = ''unknown commit version (header '' @ debug_str h @ '')''"
| "ledger_error_str (InvalidIdentifier f r) = ''invalid '' @ f @ '': '' @ r"
| "ledger_error_str (InvalidTimestamp r) = ''invalid timestamp: '' @ r"
| "ledger_error_str (GraphBindingConflict c i r) =
     ''GRAPH_BINDING_CONFLICT: commit '' @ commit_id_str c @ '' is indexed under graph '' @ i @ '', not '' @ r"
| "ledger_error_str (CrossGraphParent p pg g) =
     ''CROSS_GRAPH_PARENT: parent '' @ commit_id_str p @ '' belongs to graph '' @ pg @
     '', child belongs to '' @ g"
| "ledger_error_str (InvalidPatch p r) =
     ''INVALID_PATCH: patch '' @ cid_str (patch_cid p) @ '' is not a valid canonical ledger patch: '' @ r"
| "ledger_error_str (MigrationSourceMoved b a) =
     ''MIGRATION_SOURCE_MOVED: source HEAD changed during cutover (before '' @ debug_head b @ '', after '' @
     debug_head a @ ''); quiesce source writers and re-run''"
| "ledger_error_str (LineageMismatch r) = ''LINEAGE_MISMATCH: '' @ r"
| "ledger_error_str IdempotencyConflict =
     ''IDEMPOTENCY_CONFLICT: the idempotency key was already used with a different request''"
| "ledger_error_str (GraphNotActive g s) =
     ''GRAPH_NOT_ACTIVE: graph '' @ g @ '' is '' @ s @ ''; normal acceptance requires an active graph''"
| "ledger_error_str (ledger_error.BaseMismatch q) =
     ''BASE_MISMATCH: the request deletes a quad absent from the base state: '' @ q"
| "ledger_error_str ledger_error.NoEffectiveChange =
     ''NO_EFFECTIVE_CHANGE: every requested operation is a no-op against the base state''"
| "ledger_error_str (ResourceLimit r) = ''RESOURCE_LIMIT: '' @ r"
| "ledger_error_str (DependencyUnavailable r) = ''DEPENDENCY_UNAVAILABLE: '' @ r"
| "ledger_error_str (DependencyTimeout r) = ''DEPENDENCY_TIMEOUT: '' @ r"
| "ledger_error_str (SchemaIncompatible r) = ''SCHEMA_INCOMPATIBLE: '' @ r"
| "ledger_error_str (RuntimeIdentity r) = ''RUNTIME_IDENTITY: '' @ r"
| "ledger_error_str ValidationRequired =
     ''VALIDATION_REQUIRED: acceptance onto protected state requires semantic validation, which is not available yet''"
| "ledger_error_str ValidationRejected = ''VALIDATION_REJECTED: the named validation reported violations''"
| "ledger_error_str (ValidationStale r) = ''VALIDATION_STALE: '' @ r"
| "ledger_error_str ValidationNotFound =
     ''VALIDATION_NOT_FOUND: the validation record does not exist for this graph''"
| "ledger_error_str (ValidatorUnavailable r) = ''VALIDATOR_UNAVAILABLE: '' @ r"
| "ledger_error_str (ValidatorError r) = ''VALIDATOR_ERROR: '' @ r"
| "ledger_error_str (InvalidValidation r) = ''INVALID_VALIDATION: '' @ r"
| "ledger_error_str (BranchNotFound b) = ''BRANCH_NOT_FOUND: branch '' @ b @ '' does not exist''"
| "ledger_error_str (BranchExists b) = ''BRANCH_EXISTS: branch '' @ b @ '' already exists''"
| "ledger_error_str (BranchDeleted b) = ''BRANCH_DELETED: branch '' @ b @ '' is deleted''"
| "ledger_error_str BranchPointUnreachable =
     ''BRANCH_POINT_UNREACHABLE: the branch point is not reachable from the source branch''"
| "ledger_error_str (BranchPolicyViolation r) = ''BRANCH_POLICY_VIOLATION: '' @ r"
| "ledger_error_str (BranchStateConflict r) = ''BRANCH_STATE_CONFLICT: '' @ r"
| "ledger_error_str (MergeStale r) = ''MERGE_STALE: '' @ r"
| "ledger_error_str (MergeConflict n) = ''MERGE_CONFLICT: '' @ show_nat n @ '' conflicting structural key(s)''"
| "ledger_error_str (MergeNothingToDo r) = ''MERGE_NOTHING_TO_DO: '' @ r"
| "ledger_error_str (InvalidMergeBase r) = ''INVALID_MERGE_BASE: '' @ r"
| "ledger_error_str (GraphAlreadyExists g) = ''graph '' @ g @ '' already exists''"
| "ledger_error_str (UnknownGraph g) = ''graph '' @ g @ '' does not exist''"
| "ledger_error_str (Storage r) = ''storage error: '' @ r"

section \<open>Reconstruction limits\<close>

record reconstruction_limits =
  rc_max_depth :: nat
  rc_max_quads :: nat
  rc_max_bytes :: nat

definition RECONSTRUCTION_DEVELOPMENT :: reconstruction_limits where
  "RECONSTRUCTION_DEVELOPMENT =
     \<lparr>rc_max_depth = 10000, rc_max_quads = 1000000, rc_max_bytes = 256 * 1024 * 1024\<rparr>"

definition check_depth :: "reconstruction_limits \<Rightarrow> nat \<Rightarrow> ledger_error + unit" where
  "check_depth l depth =
     fail_if (depth > rc_max_depth l)
       (ResourceLimit (''reconstruction depth exceeds '' @ show_nat (rc_max_depth l) @ '' commits''))"

definition check_state :: "reconstruction_limits \<Rightarrow> nat \<Rightarrow> nat \<Rightarrow> ledger_error + unit" where
  "check_state l quads bs =
     (if quads > rc_max_quads l
      then Inl (ResourceLimit (''reconstructed state exceeds '' @ show_nat (rc_max_quads l) @ '' quads''))
      else if bs > rc_max_bytes l
      then Inl (ResourceLimit (''reconstructed state exceeds '' @ show_nat (rc_max_bytes l) @ '' bytes''))
      else Inr ())"

definition quad_line_len :: "quad \<Rightarrow> nat" where
  "quad_line_len q = length (quad_str q) + 1"

definition apply_op_counted :: "quad fset \<times> nat \<Rightarrow> operation \<Rightarrow> quad fset \<times> nat" where
  "apply_op_counted acc op =
     (let (state, bs) = acc; len = quad_line_len (op_quad op) in
      case op_kind op of
        Add \<Rightarrow> if op_quad op |\<in>| state then (state, bs) else (finsert (op_quad op) state, bs + len)
      | Delete \<Rightarrow> if op_quad op |\<in>| state then (state |-| {|op_quad op|}, bs - len) else (state, bs))"

definition apply_bounded ::
  "reconstruction_limits \<Rightarrow> quad fset \<times> nat \<Rightarrow> patch \<Rightarrow> ledger_error + (quad fset \<times> nat)" where
  "apply_bounded l acc patch =
     (let (state, bs) = foldl apply_op_counted acc (operations patch) in
      rbind (check_state l (fcard state) bs) (\<lambda>_. Inr (state, bs)))"

section \<open>Typed objects\<close>

definition is_commit_family :: "bytes \<Rightarrow> bool" where
  "is_commit_family bs \<longleftrightarrow> starts_with ''sculpin-'' bs \<and> \<not> starts_with ''sculpin-rdf-patch-'' bs"

definition decode_commit_object :: "'t libs \<Rightarrow> content_id \<Rightarrow> bytes \<Rightarrow> ledger_error + any_commit option" where
  "decode_commit_object L cid bs =
     (if \<not> is_commit_family bs then Inr None
      else case any_from_canonical_bytes (lib_time L) bs of
             Inr commit \<Rightarrow>
               rbind (any_id (lib_hash L) commit) (\<lambda>id'.
               if commit_cid id' \<noteq> cid then Inl (CorruptObject cid ''commit ID mismatch'')
               else Inr (Some commit))
           | Inl e \<Rightarrow>
               (case e of
                  UnknownCommitVersion header \<Rightarrow> Inl (UnknownCommitVersion header)
                | _ \<Rightarrow>
                    if starts_with COMMIT_V1_HEADER bs \<or> starts_with COMMIT_V2_HEADER bs
                    then Inl (CorruptObject cid
                           (''commit envelope with a known header does not decode: '' @ ledger_error_str e))
                    else Inl e))"

definition bounded_reason :: "rdf_error \<Rightarrow> string" where
  "bounded_reason e =
     (case e of
        InvalidQuad _ \<Rightarrow> ''an operation is not a canonical N-Quad''
      | BlankNode \<Rightarrow> ''blank nodes are forbidden''
      | ConflictingOperation _ \<Rightarrow> ''a quad is both added and deleted''
      | RdfInvalidPatch m \<Rightarrow> take 120 m)"

definition validate_patch_bytes :: "'t libs \<Rightarrow> patch_id \<Rightarrow> bytes \<Rightarrow> ledger_error + patch" where
  "validate_patch_bytes L pid bs =
     (if for_bytes (lib_hash L) bs \<noteq> patch_cid pid
      then Inl (CorruptObject (patch_cid pid) ''stored bytes do not hash to the patch id'')
      else map_err (\<lambda>e. InvalidPatch pid (bounded_reason e)) (patch_from_canonical_bytes (lib_nquads L) bs))"

definition reject_commit_bytes_as_content :: "bytes \<Rightarrow> ledger_error + unit" where
  "reject_commit_bytes_as_content bs =
     fail_if (is_commit_family bs)
       (InvalidCommit ''commit envelopes are published through put_commit, not put_content'')"

section \<open>Database error classes\<close>

definition sqlstate_is_unavailable :: "string \<Rightarrow> bool" where
  "sqlstate_is_unavailable c \<longleftrightarrow>
     starts_with ''08'' c \<or> c \<in> {''57P01'', ''57P02'', ''57P03'', ''53300'', ''53400'', ''25P03''}"

definition sqlstate_is_timeout :: "string \<Rightarrow> bool" where
  "sqlstate_is_timeout c \<longleftrightarrow> c \<in> {''57014'', ''55P03'', ''40001'', ''40P01''}"

text \<open>The driver's error kinds that are told apart, with the display text of the error.\<close>

datatype driver_error_kind =
  PoolTimedOut | PoolClosed | IoFailure | ProtocolFailure | WorkerCrashed | DatabaseError "string option" | OtherDriverError

definition db_error :: "driver_error_kind \<Rightarrow> string \<Rightarrow> ledger_error" where
  "db_error e shown =
     (case e of
        PoolTimedOut \<Rightarrow> DependencyUnavailable shown
      | PoolClosed \<Rightarrow> DependencyUnavailable shown
      | IoFailure \<Rightarrow> DependencyUnavailable shown
      | ProtocolFailure \<Rightarrow> DependencyUnavailable shown
      | WorkerCrashed \<Rightarrow> DependencyUnavailable shown
      | DatabaseError (Some c) \<Rightarrow>
          if sqlstate_is_unavailable c then DependencyUnavailable shown
          else if sqlstate_is_timeout c then DependencyTimeout shown
          else Storage shown
      | _ \<Rightarrow> Storage shown)"

section \<open>Byte accounting\<close>

definition state_bytes :: "quad fset \<Rightarrow> nat" where
  "state_bytes S = (\<Sum>q \<in> fset S. quad_line_len q)"

lemma state_bytes_insert: "q |\<notin>| S \<Longrightarrow> state_bytes (finsert q S) = state_bytes S + quad_line_len q"
  by (simp add: state_bytes_def)

lemma state_bytes_remove: "q |\<in>| S \<Longrightarrow> state_bytes (S |-| {|q|}) = state_bytes S - quad_line_len q"
  by (simp add: state_bytes_def sum_diff1_nat)

lemma apply_op_counted_exact:
  "apply_op_counted (S, state_bytes S) op = (apply_op S op, state_bytes (apply_op S op))"
proof (cases op)
  case (Operation kind q)
  have "S |-| {|q|} = S" if "q |\<notin>| S" using that by auto
  then show ?thesis
    by (cases kind)
      (auto simp: Operation apply_op_counted_def Let_def state_bytes_insert state_bytes_remove finsert_absorb)
qed

lemma fold_counted_exact:
  "foldl apply_op_counted (S, state_bytes S) ops = (foldl apply_op S ops, state_bytes (foldl apply_op S ops))"
  by (induction ops arbitrary: S) (simp_all add: apply_op_counted_exact)

lemma apply_bounded_exact:
  "apply_bounded l (S, state_bytes S) p =
     (let S' = apply_patch S p in
      rbind (check_state l (fcard S') (state_bytes S')) (\<lambda>_. Inr (S', state_bytes S')))"
  by (simp add: apply_bounded_def apply_patch_def fold_counted_exact Let_def)

lemma check_state_Inr: "check_state l n b = Inr u \<longleftrightarrow> n \<le> rc_max_quads l \<and> b \<le> rc_max_bytes l"
  by (auto simp: check_state_def)

end
