(* ===== verification/Store_File.thy ===== *)
theory Store_File
  imports Store_Objects
begin

text \<open>
  The filesystem store of \<^verbatim>\<open>crates/ledger-store/src/lib.rs\<close> (\<open>FileStore\<close>). The state is the directory tree
  below \<^verbatim>\<open>objects/sha256\<close>, the content of \<^verbatim>\<open>refs/main\<close> and the process's temporary-file counter. Every
  filesystem call may fail: \<open>io_fault\<close> says which calls of an operation fail, and with what text. Texts of
  errors that follow from the tree itself are those of Linux.
\<close>

section \<open>The filesystem\<close>

datatype io_op =
    ReadObject content_id
  | ProbeObject content_id
  | MakeShard content_id
  | SyncRoot content_id
  | CreateTemp content_id
  | WriteTemp content_id
  | RenameTemp content_id
  | RemoveTemp content_id
  | SyncShard content_id
  | ProbeExisting content_id
  | ReadExisting content_id
  | LockRefs
  | ReadHead
  | CreateHeadTemp
  | WriteHeadTemp
  | RenameHead
  | SyncRefs
  | ListRoot
  | ListShard string
  | StatEntry

text \<open>\<open>io_partial\<close> is what a failed write leaves in the file, \<open>io_order\<close> the order of a directory listing.\<close>

record io_env =
  io_fault :: "io_op \<Rightarrow> string option"
  io_partial :: "bytes \<Rightarrow> bytes"
  io_pid :: nat
  io_order :: "string fset \<Rightarrow> string list"

text \<open>
  An entry that is not a regular file is a directory, and a shard that is not a directory is a regular
  file: these fix the error texts. Symbolic links are not represented.
\<close>

datatype dir_entry = Regular bytes | Irregular
datatype shard_entry = ShardDir "(string, dir_entry) fmap" | ShardOther

record file_store =
  fs_shards :: "(string, shard_entry) fmap"
  fs_head :: "bytes option"
  fs_temp_sequence :: nat

definition ENOENT :: string where "ENOENT = ''No such file or directory (os error 2)''"
definition ENOTDIR :: string where "ENOTDIR = ''Not a directory (os error 20)''"
definition EISDIR :: string where "EISDIR = ''Is a directory (os error 21)''"
definition EEXIST :: string where "EEXIST = ''File exists (os error 17)''"

definition object_path :: "content_id \<Rightarrow> string \<times> string" where
  "object_path cid = (let h = digest_hex cid in (take 2 h, drop 2 h))"

definition shard_entries :: "file_store \<Rightarrow> string \<Rightarrow> (string, dir_entry) fmap" where
  "shard_entries st sh = (case fmlookup (fs_shards st) sh of Some (ShardDir es) \<Rightarrow> es | _ \<Rightarrow> fmempty)"

text \<open>\<open>fs::read\<close>: the error text, or no such file, or the content.\<close>

definition fs_read :: "file_store \<Rightarrow> string \<times> string \<Rightarrow> string + bytes option" where
  "fs_read st path =
     (case fmlookup (fs_shards st) (fst path) of
        None \<Rightarrow> Inr None
      | Some ShardOther \<Rightarrow> Inl ENOTDIR
      | Some (ShardDir es) \<Rightarrow>
          (case fmlookup es (snd path) of
             None \<Rightarrow> Inr None
           | Some (Regular bs) \<Rightarrow> Inr (Some bs)
           | Some Irregular \<Rightarrow> Inl EISDIR))"

definition fs_exists :: "file_store \<Rightarrow> string \<times> string \<Rightarrow> string + bool" where
  "fs_exists st path =
     (case fmlookup (fs_shards st) (fst path) of
        None \<Rightarrow> Inr False
      | Some ShardOther \<Rightarrow> Inl ENOTDIR
      | Some (ShardDir es) \<Rightarrow> Inr (snd path |\<in>| fmdom es))"

definition set_entry :: "string \<Rightarrow> string \<Rightarrow> dir_entry \<Rightarrow> file_store \<Rightarrow> file_store" where
  "set_entry sh name e st =
     st\<lparr>fs_shards := fmupd sh (ShardDir (fmupd name e (shard_entries st sh))) (fs_shards st)\<rparr>"

definition remove_entry :: "string \<Rightarrow> string \<Rightarrow> file_store \<Rightarrow> file_store" where
  "remove_entry sh name st =
     st\<lparr>fs_shards := fmupd sh (ShardDir (fmdrop name (shard_entries st sh))) (fs_shards st)\<rparr>"

definition make_shard :: "string \<Rightarrow> file_store \<Rightarrow> file_store" where
  "make_shard sh st = st\<lparr>fs_shards := fmupd sh (ShardDir (shard_entries st sh)) (fs_shards st)\<rparr>"

definition io_try :: "io_env \<Rightarrow> io_op \<Rightarrow> ledger_error + unit" where
  "io_try io op = (case io_fault io op of None \<Rightarrow> Inr () | Some e \<Rightarrow> Inl (Storage e))"

section \<open>Objects\<close>

definition get_object_sync :: "'t libs \<Rightarrow> io_env \<Rightarrow> file_store \<Rightarrow> content_id \<Rightarrow> ledger_error + bytes option" where
  "get_object_sync L io st cid =
     rbind (io_try io (ReadObject cid)) (\<lambda>_.
     rbind (map_err Storage (fs_read st (object_path cid))) (\<lambda>found.
     case found of
       None \<Rightarrow> Inr None
     | Some bs \<Rightarrow>
         if for_bytes (lib_hash L) bs \<noteq> cid then Inl (CorruptObject cid ''digest mismatch'')
         else Inr (Some bs)))"

definition exists_sync :: "io_env \<Rightarrow> file_store \<Rightarrow> content_id \<Rightarrow> ledger_error + bool" where
  "exists_sync io st cid =
     rbind (io_try io (ProbeObject cid)) (\<lambda>_. map_err Storage (fs_exists st (object_path cid)))"

definition temp_name :: "content_id \<Rightarrow> nat \<Rightarrow> nat \<Rightarrow> string" where
  "temp_name cid pid n = ''.'' @ digest_hex cid @ ''.tmp-'' @ show_nat pid @ ''-'' @ show_nat n"

lemma temp_name_inj: "temp_name cid pid m = temp_name cid pid n \<longleftrightarrow> m = n"
  by (simp add: temp_name_def show_nat_inj)

lemma finite_temps: "finite {n. temp_name cid pid n |\<in>| fmdom es}"
proof (rule finite_imageD)
  show "finite (temp_name cid pid ` {n. temp_name cid pid n |\<in>| fmdom es})"
    by (rule finite_subset [of _ "fset (fmdom es)"]) auto
  show "inj_on (temp_name cid pid) {n. temp_name cid pid n |\<in>| fmdom es}"
    by (rule inj_onI) (simp add: temp_name_inj)
qed

text \<open>The loop that looks for an unused temporary name; it ends because the directory is finite. The
  process-wide counter is a \<open>u64\<close> in the code and a number here: it would
  wrap only after as many writes.\<close>

function fresh_temp :: "(string, dir_entry) fmap \<Rightarrow> content_id \<Rightarrow> nat \<Rightarrow> nat \<Rightarrow> nat" where
  "fresh_temp es cid pid n = (if temp_name cid pid n |\<in>| fmdom es then fresh_temp es cid pid (n + 1) else n)"
  by pat_completeness auto
termination
proof (relation "measure (\<lambda>(es, cid, pid, n). card {m. n \<le> m \<and> temp_name cid pid m |\<in>| fmdom es})")
  fix es :: "(string, dir_entry) fmap" and cid pid n
  assume used: "temp_name cid pid n |\<in>| fmdom es"
  have "{m. n + 1 \<le> m \<and> temp_name cid pid m |\<in>| fmdom es} \<subset> {m. n \<le> m \<and> temp_name cid pid m |\<in>| fmdom es}"
  proof
    show "{m. n + 1 \<le> m \<and> temp_name cid pid m |\<in>| fmdom es} \<noteq> {m. n \<le> m \<and> temp_name cid pid m |\<in>| fmdom es}"
      using used by (metis (mono_tags, lifting) le_refl mem_Collect_eq not_less_eq_eq Suc_eq_plus1)
  qed auto
  then show "((es, cid, pid, n + 1), es, cid, pid, n) \<in>
      measure (\<lambda>(es, cid, pid, n). card {m. n \<le> m \<and> temp_name cid pid m |\<in>| fmdom es})"
    using finite_temps [of cid pid es] by (auto intro!: psubset_card_mono elim: finite_subset [rotated])
qed simp

declare fresh_temp.simps [simp del]

definition remove_temp :: "io_env \<Rightarrow> content_id \<Rightarrow> string \<Rightarrow> string \<Rightarrow> file_store \<Rightarrow> file_store" where
  "remove_temp io cid sh tmp st = (case io_fault io (RemoveTemp cid) of None \<Rightarrow> remove_entry sh tmp st | Some _ \<Rightarrow> st)"

definition rename_temp :: "io_env \<Rightarrow> content_id \<Rightarrow> string \<Rightarrow> string \<Rightarrow> string \<Rightarrow> bytes \<Rightarrow> file_store \<Rightarrow> string + file_store" where
  "rename_temp io cid sh tmp name bs st =
     (case io_fault io (RenameTemp cid) of
        Some e \<Rightarrow> Inl e
      | None \<Rightarrow>
          if fmlookup (shard_entries st sh) name = Some Irregular then Inl EISDIR
          else Inr (set_entry sh name (Regular bs) (remove_entry sh tmp st)))"

text \<open>
  The second half of \<open>put_object_sync\<close>, from \<open>create_dir_all\<close> on: publish by writing a temporary file and
  renaming it (\<open>install_object\<close>).
\<close>

definition install_object ::
  "io_env \<Rightarrow> content_id \<Rightarrow> bytes \<Rightarrow> string \<Rightarrow> file_store \<Rightarrow> (ledger_error + unit) \<times> file_store" where
  "install_object io cid bs tmp st =
     (let (sh, name) = object_path cid in
      case rename_temp io cid sh tmp name bs st of
        Inr st \<Rightarrow>
          (case io_fault io (SyncShard cid) of Some e \<Rightarrow> (Inl (Storage e), st) | None \<Rightarrow> (Inr (), st))
      | Inl e \<Rightarrow>
          let st' = remove_temp io cid sh tmp st in
          if io_fault io (ProbeExisting cid) = None \<and> name |\<in>| fmdom (shard_entries st sh) then
            (case io_fault io (ReadExisting cid) of
               Some e \<Rightarrow> (Inl (Storage e), st')
             | None \<Rightarrow>
                 (case fs_read st' (sh, name) of
                    Inl e \<Rightarrow> (Inl (Storage e), st')
                  | Inr None \<Rightarrow> (Inl (Storage ENOENT), st')
                  | Inr (Some existing) \<Rightarrow>
                      ((if existing = bs then Inr () else Inl (ObjectCollision cid)), st')))
          else (Inl (Storage e), st'))"

definition publish_object ::
  "io_env \<Rightarrow> content_id \<Rightarrow> bytes \<Rightarrow> file_store \<Rightarrow> (ledger_error + unit) \<times> file_store" where
  "publish_object io cid bs st =
     (let sh = fst (object_path cid) in
      case io_fault io (MakeShard cid) of Some e \<Rightarrow> (Inl (Storage e), st) | None \<Rightarrow>
      if fmlookup (fs_shards st) sh = Some ShardOther then (Inl (Storage EEXIST), st) else
      let st = make_shard sh st in
      case io_fault io (SyncRoot cid) of Some e \<Rightarrow> (Inl (Storage e), st) | None \<Rightarrow>
      case io_fault io (CreateTemp cid) of
        Some e \<Rightarrow> (Inl (Storage e), st\<lparr>fs_temp_sequence := fs_temp_sequence st + 1\<rparr>)
      | None \<Rightarrow>
      let n = fresh_temp (shard_entries st sh) cid (io_pid io) (fs_temp_sequence st);
          tmp = temp_name cid (io_pid io) n;
          st = st\<lparr>fs_temp_sequence := n + 1\<rparr> in
      case io_fault io (WriteTemp cid) of
        Some e \<Rightarrow> (Inl (Storage e), set_entry sh tmp (Regular (io_partial io bs)) st)
      | None \<Rightarrow> install_object io cid bs tmp (set_entry sh tmp (Regular bs) st))"

definition put_object_sync ::
  "'t libs \<Rightarrow> io_env \<Rightarrow> file_store \<Rightarrow> content_id \<Rightarrow> bytes \<Rightarrow> (ledger_error + unit) \<times> file_store" where
  "put_object_sync L io st cid bs =
     (if for_bytes (lib_hash L) bs \<noteq> cid then (Inl (ObjectCollision cid), st)
      else case get_object_sync L io st cid of
             Inl e \<Rightarrow> (Inl e, st)
           | Inr (Some existing) \<Rightarrow>
               ((if existing = bs then Inr () else Inl (ObjectCollision cid)), st)
           | Inr None \<Rightarrow> publish_object io cid bs st)"

section \<open>Commits\<close>

definition get_commit_sync ::
  "'t libs \<Rightarrow> io_env \<Rightarrow> file_store \<Rightarrow> commit_id \<Rightarrow> ledger_error + any_commit option" where
  "get_commit_sync L io st c =
     rbind (get_object_sync L io st (commit_cid c)) (\<lambda>found.
     case found of None \<Rightarrow> Inr None | Some bs \<Rightarrow> decode_commit_object L (commit_cid c) bs)"

definition check_parent :: "'t libs \<Rightarrow> io_env \<Rightarrow> file_store \<Rightarrow> any_commit \<Rightarrow> commit_id \<Rightarrow> ledger_error + unit" where
  "check_parent L io st commit parent =
     rbind (get_commit_sync L io st parent) (\<lambda>found.
     case found of
       None \<Rightarrow> Inl (MissingParent parent)
     | Some stored \<Rightarrow>
         (case (any_graph_id commit, any_graph_id stored) of
            (Some child_graph, Some parent_graph) \<Rightarrow>
              fail_if (child_graph \<noteq> parent_graph)
                (CrossGraphParent parent (graph_str parent_graph) (graph_str child_graph))
          | _ \<Rightarrow> Inr ()))"

definition check_commit :: "'t libs \<Rightarrow> io_env \<Rightarrow> file_store \<Rightarrow> any_commit \<Rightarrow> ledger_error + (bytes \<times> commit_id)" where
  "check_commit L io st commit =
     rbind (for_r (check_parent L io st commit) (any_parents commit)) (\<lambda>_.
     rbind (get_object_sync L io st (patch_cid (any_patch commit))) (\<lambda>found.
     rbind (ok_or (MissingPatch (any_patch commit)) found) (\<lambda>patch_bytes.
     rbind (validate_patch_bytes L (any_patch commit) patch_bytes) (\<lambda>_.
     rbind (any_canonical_bytes commit) (\<lambda>bs.
     rbind (any_id (lib_hash L) commit) (\<lambda>cid. Inr (bs, cid)))))))"

definition put_commit_sync ::
  "'t libs \<Rightarrow> io_env \<Rightarrow> file_store \<Rightarrow> any_commit \<Rightarrow> (ledger_error + commit_id) \<times> file_store" where
  "put_commit_sync L io st commit =
     (case check_commit L io st commit of
        Inl e \<Rightarrow> (Inl e, st)
      | Inr (bs, cid) \<Rightarrow>
          (case put_object_sync L io st (commit_cid cid) bs of
             (Inl e, st') \<Rightarrow> (Inl e, st')
           | (Inr _, st') \<Rightarrow> (Inr cid, st')))"

definition file_put_content ::
  "'t libs \<Rightarrow> io_env \<Rightarrow> file_store \<Rightarrow> content_id \<Rightarrow> bytes \<Rightarrow> (ledger_error + unit) \<times> file_store" where
  "file_put_content L io st cid bs =
     (case reject_commit_bytes_as_content bs of
        Inl e \<Rightarrow> (Inl e, st)
      | Inr _ \<Rightarrow> put_object_sync L io st cid bs)"

section \<open>The head\<close>

text \<open>\<open>str::trim\<close> on UTF-8 text: strips the encodings of the Unicode white-space characters.\<close>

definition white_space :: "bytes list" where
  "white_space =
     map (\<lambda>n. [byte_of n]) [9, 10, 11, 12, 13, 32] @
     map (map byte_of) [[194, 133], [194, 160], [225, 154, 128]] @
     map (\<lambda>n. map byte_of [226, 128, n]) [128, 129, 130, 131, 132, 133, 134, 135, 136, 137, 138, 168, 169, 175] @
     map (map byte_of) [[226, 129, 159], [227, 128, 128]]"

fun strip_any :: "'a list list \<Rightarrow> 'a list \<Rightarrow> 'a list option" where
  "strip_any [] xs = None"
| "strip_any (w # ws) xs = (case strip_prefix w xs of Some rest \<Rightarrow> Some rest | None \<Rightarrow> strip_any ws xs)"

lemma strip_any_shorter:
  assumes "strip_any ws xs = Some ys" and "[] \<notin> set ws"
  shows "length ys < length xs"
  using assms by (induction ws) (auto simp: strip_prefix_eq_Some split: option.splits)

text \<open>Strips while a (non-empty) pattern matches.\<close>

function strip_all :: "'a list list \<Rightarrow> 'a list \<Rightarrow> 'a list" where
  "strip_all ws xs =
     (case strip_any (filter (\<lambda>w. w \<noteq> []) ws) xs of None \<Rightarrow> xs | Some rest \<Rightarrow> strip_all ws rest)"
  by pat_completeness auto
termination
  by (relation "measure (\<lambda>(ws, xs). length xs)") (auto dest: strip_any_shorter)

declare strip_all.simps [simp del]

definition str_trim :: "string \<Rightarrow> string" where
  "str_trim s = rev (strip_all (map rev white_space) (rev (strip_all white_space s)))"

definition head_sync :: "io_env \<Rightarrow> file_store \<Rightarrow> ledger_error + commit_id option" where
  "head_sync io st =
     rbind (io_try io ReadHead) (\<lambda>_.
     case fs_head st of
       None \<Rightarrow> Inr None
     | Some bs \<Rightarrow>
         if \<not> utf8 bs then Inl (Storage ''stream did not contain valid UTF-8'')
         else rbind (commit_id_from_str (str_trim bs)) (\<lambda>c. Inr (Some c)))"

definition compare_and_set_sync ::
  "io_env \<Rightarrow> file_store \<Rightarrow> commit_id option \<Rightarrow> commit_id \<Rightarrow> (ledger_error + unit) \<times> file_store" where
  "compare_and_set_sync io st expected new =
     (case rbind (io_try io LockRefs) (\<lambda>_. head_sync io st) of
        Inl e \<Rightarrow> (Inl e, st)
      | Inr actual \<Rightarrow>
          if actual \<noteq> expected then (Inl (HeadChanged expected actual), st)
          else case rbind (io_try io CreateHeadTemp) (\<lambda>_. rbind (io_try io WriteHeadTemp) (\<lambda>_. io_try io RenameHead)) of
                 Inl e \<Rightarrow> (Inl e, st)
               | Inr _ \<Rightarrow> (io_try io SyncRefs, st\<lparr>fs_head := Some (commit_id_str new @ [LF])\<rparr>))"

section \<open>Listing\<close>

definition is_temp_name :: "string \<Rightarrow> bool" where
  "is_temp_name name \<longleftrightarrow> starts_with ''.'' name \<and> (\<exists>i < length name. starts_with ''.tmp-'' (drop i name))"

definition unexpected :: "'t libs \<Rightarrow> string \<Rightarrow> string \<Rightarrow> ledger_error" where
  "unexpected L path what = CorruptObject (for_bytes (lib_hash L) path) (what @ '' in object root: '' @ path)"

text \<open>\<open>root\<close> is the path of the object root, for messages.\<close>

definition list_entry ::
  "'t libs \<Rightarrow> io_env \<Rightarrow> string \<Rightarrow> string \<Rightarrow> (string, dir_entry) fmap \<Rightarrow> string \<Rightarrow> ledger_error + content_id option" where
  "list_entry L io root sh es name =
     (if is_temp_name name then Inr None
      else rbind (io_try io StatEntry) (\<lambda>_.
      let path = root @ ''/'' @ sh @ ''/'' @ name in
      if fmlookup es name = Some Irregular then Inl (unexpected L path ''non-regular object entry'')
      else rbind (map_err (\<lambda>_. unexpected L path ''malformed object path'')
                    (content_id_from_str (''sha256:'' @ sh @ name))) (\<lambda>cid. Inr (Some cid))))"

definition list_shard :: "'t libs \<Rightarrow> io_env \<Rightarrow> string \<Rightarrow> file_store \<Rightarrow> string \<Rightarrow> ledger_error + content_id list" where
  "list_shard L io root st sh =
     rbind (io_try io StatEntry) (\<lambda>_.
     case fmlookup (fs_shards st) sh of
       Some (ShardDir es) \<Rightarrow>
         rbind (io_try io (ListShard sh)) (\<lambda>_.
         rbind (traverse_r (list_entry L io root sh es) (io_order io (fmdom es))) (\<lambda>found.
         Inr (map the (filter (\<lambda>x. x \<noteq> None) found))))
     | _ \<Rightarrow> Inl (unexpected L (root @ ''/'' @ sh) ''non-directory shard entry''))"

definition list_objects :: "'t libs \<Rightarrow> io_env \<Rightarrow> string \<Rightarrow> file_store \<Rightarrow> ledger_error + content_id list" where
  "list_objects L io root st =
     rbind (io_try io ListRoot) (\<lambda>_.
     rbind (traverse_r (list_shard L io root st) (io_order io (fmdom (fs_shards st)))) (\<lambda>ids.
     Inr (sort (concat ids))))"

section \<open>The invariant of the object tree\<close>

text \<open>
  What a reader sees: the object under each identifier. The tree is sound when everything below the root
  is a shard directory holding only temporary files and objects stored under their own digest.
\<close>

definition objects :: "file_store \<Rightarrow> content_id \<Rightarrow> bytes option" where
  "objects st cid =
     (if wf_content_id cid
      then (case fmlookup (shard_entries st (fst (object_path cid))) (snd (object_path cid)) of
              Some (Regular bs) \<Rightarrow> Some bs | _ \<Rightarrow> None)
      else None)"

definition entry_ok :: "'t libs \<Rightarrow> string \<Rightarrow> string \<Rightarrow> dir_entry \<Rightarrow> bool" where
  "entry_ok L sh name x \<longleftrightarrow>
     is_temp_name name \<or> (\<exists>bs. x = Regular bs \<and> object_path (for_bytes (lib_hash L) bs) = (sh, name))"

definition tree_ok :: "'t libs \<Rightarrow> file_store \<Rightarrow> bool" where
  "tree_ok L st \<longleftrightarrow>
     (\<forall>sh. fmlookup (fs_shards st) sh \<noteq> Some ShardOther) \<and>
     (\<forall>sh name x. fmlookup (shard_entries st sh) name = Some x \<longrightarrow> entry_ok L sh name x)"

lemma wf_cid_hex:
  assumes "wf_content_id cid"
  shows "cid = ContentId (SHA256_PREFIX @ digest_hex cid)" "length (digest_hex cid) = 64"
    "list_all lower_hex (digest_hex cid)"
  using assms by (cases cid; auto simp: wf_content_id_iff digest_hex_def SHA256_PREFIX_def)+

lemma object_path_inj:
  assumes "wf_content_id a" "wf_content_id b" "object_path a = object_path b"
  shows "a = b"
proof -
  have "digest_hex a = digest_hex b"
    using assms(3) unfolding object_path_def Let_def by (metis append_take_drop_id prod.inject)
  then show ?thesis using wf_cid_hex(1) assms(1,2) by metis
qed

lemma object_name_not_temp: "wf_content_id cid \<Longrightarrow> \<not> is_temp_name (snd (object_path cid))"
proof
  assume wf: "wf_content_id cid" and temp: "is_temp_name (snd (object_path cid))"
  let ?n = "drop 2 (digest_hex cid)"
  have "list_all lower_hex ?n" "?n \<noteq> []"
    using wf_cid_hex(2,3) [OF wf] by (auto simp: list_all_iff dest: in_set_dropD)
  then have "lower_hex (hd ?n)" by (cases ?n) auto
  moreover have "hd ?n = CHR ''.''"
    using temp \<open>?n \<noteq> []\<close> by (cases ?n) (auto simp: is_temp_name_def starts_with_def object_path_def Let_def)
  ultimately show False by (simp add: lower_hex_def byte_class_defs)
qed

lemma temp_name_is_temp: "is_temp_name (temp_name cid pid n)"
proof -
  have "starts_with ''.tmp-'' (drop (Suc (length (digest_hex cid))) (temp_name cid pid n))"
    by (simp add: temp_name_def starts_with_def)
  moreover have "Suc (length (digest_hex cid)) < length (temp_name cid pid n)" by (simp add: temp_name_def)
  ultimately show ?thesis by (auto simp: is_temp_name_def) (simp add: temp_name_def starts_with_def)
qed

lemma shard_entries_simps [simp]:
  "shard_entries (set_entry sh name e st) sh' =
     (if sh' = sh then fmupd name e (shard_entries st sh) else shard_entries st sh')"
  "shard_entries (remove_entry sh name st) sh' =
     (if sh' = sh then fmdrop name (shard_entries st sh) else shard_entries st sh')"
  "shard_entries (make_shard sh st) = shard_entries st"
  "shard_entries (st\<lparr>fs_temp_sequence := n\<rparr>) = shard_entries st"
  "shard_entries (st\<lparr>fs_head := h\<rparr>) = shard_entries st"
  by (auto simp: shard_entries_def set_entry_def remove_entry_def make_shard_def fun_eq_iff)

lemma fs_head_simps [simp]:
  "fs_head (set_entry sh name e st) = fs_head st" "fs_head (remove_entry sh name st) = fs_head st"
  "fs_head (make_shard sh st) = fs_head st"
  by (simp_all add: set_entry_def remove_entry_def make_shard_def)

lemma fs_read_objects:
  assumes "tree_ok L st" "wf_content_id cid"
  shows "fs_read st (object_path cid) = Inr (objects st cid)"
proof -
  obtain sh name where path: "object_path cid = (sh, name)" by (rule prod.exhaust)
  have "fmlookup (shard_entries st sh) name \<noteq> Some Irregular"
    using assms(1) object_name_not_temp [OF assms(2)] by (auto simp: tree_ok_def entry_ok_def path)
  moreover have "fmlookup (fs_shards st) sh \<noteq> Some ShardOther" using assms(1) by (simp add: tree_ok_def)
  ultimately show ?thesis
    by (auto simp: fs_read_def objects_def assms(2) path shard_entries_def
        split: option.splits shard_entry.splits dir_entry.splits)
qed

lemma objects_digest:
  assumes "libs_ok L" "tree_ok L st" "objects st cid = Some bs"
  shows "for_bytes (lib_hash L) bs = cid"
proof -
  have wf: "wf_content_id cid" and at: "fmlookup (shard_entries st (fst (object_path cid))) (snd (object_path cid)) = Some (Regular bs)"
    using assms(3) by (auto simp: objects_def split: if_splits option.splits dir_entry.splits)
  then have "object_path (for_bytes (lib_hash L) bs) = object_path cid"
    using assms(2) object_name_not_temp [OF wf] by (fastforce simp: tree_ok_def entry_ok_def)
  then show ?thesis
    using object_path_inj wf assms(1) by (simp add: libs_ok_def for_bytes_wf)
qed

lemma get_object_spec:
  assumes "libs_ok L" "tree_ok L st" "wf_content_id cid"
  shows "get_object_sync L io st cid =
    (case io_fault io (ReadObject cid) of Some e \<Rightarrow> Inl (Storage e) | None \<Rightarrow> Inr (objects st cid))"
  using objects_digest [OF assms(1,2), of cid]
  by (auto simp: get_object_sync_def io_try_def fs_read_objects [OF assms(2,3)] split: option.splits)

subsection \<open>Publishing\<close>

lemma objects_cong: "shard_entries st = shard_entries st' \<Longrightarrow> objects st = objects st'"
  by (simp add: objects_def fun_eq_iff)

lemma objects_set_temp [simp]:
  assumes "is_temp_name name"
  shows "objects (set_entry sh name e st) = objects st"
proof
  fix c
  have "snd (object_path c) \<noteq> name" if "wf_content_id c" using object_name_not_temp [OF that] assms by metis
  then show "objects (set_entry sh name e st) c = objects st c" by (auto simp: objects_def)
qed

lemma objects_remove_temp [simp]:
  assumes "is_temp_name name"
  shows "objects (remove_entry sh name st) = objects st"
proof
  fix c
  have "snd (object_path c) \<noteq> name" if "wf_content_id c" using object_name_not_temp [OF that] assms by metis
  then show "objects (remove_entry sh name st) c = objects st c" by (auto simp: objects_def)
qed

lemma objects_set_object:
  assumes "wf_content_id cid" "object_path cid = (sh, name)"
  shows "objects (set_entry sh name (Regular bs) st) = (objects st)(cid \<mapsto> bs)"
proof
  fix c
  show "objects (set_entry sh name (Regular bs) st) c = ((objects st)(cid \<mapsto> bs)) c"
  proof (cases "wf_content_id c \<and> object_path c = (sh, name)")
    case True
    then have "c = cid" using object_path_inj assms by metis
    then show ?thesis using assms by (simp add: objects_def)
  next
    case False
    then have "c \<noteq> cid" using assms by auto
    then show ?thesis using False by (cases "object_path c") (auto simp: objects_def)
  qed
qed

lemma objects_other [simp]:
  "objects (make_shard sh st) = objects st" "objects (st\<lparr>fs_temp_sequence := n\<rparr>) = objects st"
  "objects (st\<lparr>fs_head := h\<rparr>) = objects st"
  by (rule objects_cong, simp)+

lemma tree_ok_other [simp]:
  "tree_ok L (st\<lparr>fs_temp_sequence := n\<rparr>) = tree_ok L st" "tree_ok L (st\<lparr>fs_head := h\<rparr>) = tree_ok L st"
  by (simp_all add: tree_ok_def)

lemma tree_ok_make_shard [simp]: "tree_ok L st \<Longrightarrow> tree_ok L (make_shard sh st)"
  by (auto simp: tree_ok_def) (auto simp: make_shard_def split: if_splits)

lemma tree_ok_set [simp]: "tree_ok L st \<Longrightarrow> entry_ok L sh name e \<Longrightarrow> tree_ok L (set_entry sh name e st)"
  by (auto simp: tree_ok_def) (auto simp: set_entry_def split: if_splits)

lemma tree_ok_remove [simp]: "tree_ok L st \<Longrightarrow> tree_ok L (remove_entry sh name st)"
  by (auto simp: tree_ok_def) (auto simp: remove_entry_def split: if_splits)

text \<open>
  One publication, whichever of its filesystem calls fail: the tree stays sound, and readers see either
  what they saw before or that with the whole object added.
\<close>

definition published :: "'t libs \<Rightarrow> content_id \<Rightarrow> bytes \<Rightarrow> file_store \<Rightarrow> (ledger_error + unit) \<times> file_store \<Rightarrow> bool" where
  "published L cid bs st res \<longleftrightarrow>
     tree_ok L (snd res) \<and> fs_head (snd res) = fs_head st \<and>
     (objects (snd res) = objects st \<or> objects (snd res) = (objects st)(cid \<mapsto> bs)) \<and>
     (fst res = Inr () \<longrightarrow> objects (snd res) cid = Some bs)"

lemma rename_temp_Inr:
  assumes "rename_temp io cid sh tmp name bs st = Inr st'" "is_temp_name tmp" "object_path cid = (sh, name)"
    "wf_content_id cid" "for_bytes (lib_hash L) bs = cid" "tree_ok L st"
  shows "published L cid bs st (r, st')"
proof -
  have st': "st' = set_entry sh name (Regular bs) (remove_entry sh tmp st)"
    using assms(1) by (auto simp: rename_temp_def split: option.splits if_splits)
  have "entry_ok L sh name (Regular bs)" using assms(3,5) by (simp add: entry_ok_def)
  then show ?thesis
    using assms(2,6) by (simp add: published_def st' objects_set_object [OF assms(4,3)])
qed

lemma published_refl:
  "tree_ok L st' \<Longrightarrow> fs_head st' = fs_head st \<Longrightarrow> objects st' = objects st \<Longrightarrow> published L cid bs st (Inl e, st')"
  by (simp add: published_def)

lemma install_object_spec:
  assumes "libs_ok L" "tree_ok L st" "for_bytes (lib_hash L) bs = cid" "is_temp_name tmp"
  shows "published L cid bs st (install_object io cid bs tmp st)"
proof -
  have wf: "wf_content_id cid" using assms(1,3) by (auto simp: libs_ok_def for_bytes_wf)
  obtain sh name where path: "object_path cid = (sh, name)" by (rule prod.exhaust)
  show ?thesis
  proof (cases "rename_temp io cid sh tmp name bs st")
    case (Inr st')
    then show ?thesis
      using rename_temp_Inr [OF Inr assms(4) path wf assms(3,2)]
      by (auto simp: install_object_def path split: option.splits)
  next
    case (Inl e)
    define st' where "st' = remove_temp io cid sh tmp st"
    have st': "tree_ok L st'" "objects st' = objects st" "fs_head st' = fs_head st"
      using assms(2,4) by (auto simp: st'_def remove_temp_def split: option.splits)
    have read: "fs_read st' (sh, name) = Inr (objects st' cid)"
      using fs_read_objects [OF st'(1) wf] by (simp add: path)
    show ?thesis
      using st'
      by (auto simp: install_object_def path Inl read published_def Let_def simp flip: st'_def split: option.splits)
  qed
qed

lemma publish_object_spec:
  assumes "libs_ok L" "tree_ok L st" "for_bytes (lib_hash L) bs = cid"
  shows "published L cid bs st (publish_object io cid bs st)"
proof -
  define sh where "sh = fst (object_path cid)"
  define st1 where "st1 = make_shard sh st"
  define n where "n = fresh_temp (shard_entries st1 sh) cid (io_pid io) (fs_temp_sequence st1)"
  define tmp where "tmp = temp_name cid (io_pid io) n"
  define st2 where "st2 = (\<lambda>e. set_entry sh tmp e (st1\<lparr>fs_temp_sequence := n + 1\<rparr>))"
  have tmp: "is_temp_name tmp" by (simp add: tmp_def temp_name_is_temp)
  then have st2: "tree_ok L (st2 e)" "objects (st2 e) = objects st" "fs_head (st2 e) = fs_head st" for e
    using assms(2) by (simp_all add: st2_def st1_def entry_ok_def)
  have other: "fmlookup (fs_shards st) sh \<noteq> Some ShardOther" using assms(2) by (simp add: tree_ok_def)
  have "published L cid bs (st2 (Regular bs)) (install_object io cid bs tmp (st2 (Regular bs)))"
    by (rule install_object_spec [OF assms(1) st2(1) assms(3) tmp])
  then have inst: "published L cid bs st (install_object io cid bs tmp (st2 (Regular bs)))"
    by (simp add: published_def st2)
  have "publish_object io cid bs st =
      (case io_fault io (MakeShard cid) of Some e \<Rightarrow> (Inl (Storage e), st) | None \<Rightarrow>
       case io_fault io (SyncRoot cid) of Some e \<Rightarrow> (Inl (Storage e), st1) | None \<Rightarrow>
       case io_fault io (CreateTemp cid) of
         Some e \<Rightarrow> (Inl (Storage e), st1\<lparr>fs_temp_sequence := fs_temp_sequence st1 + 1\<rparr>)
       | None \<Rightarrow>
       case io_fault io (WriteTemp cid) of
         Some e \<Rightarrow> (Inl (Storage e), st2 (Regular (io_partial io bs)))
       | None \<Rightarrow> install_object io cid bs tmp (st2 (Regular bs)))"
    unfolding publish_object_def Let_def sh_def [symmetric] if_not_P [OF other] st1_def st2_def tmp_def n_def
    by (rule refl)
  moreover have "tree_ok L st1" "objects st1 = objects st" "fs_head st1 = fs_head st"
    using assms(2) by (simp_all add: st1_def)
  ultimately show ?thesis
    using inst st2 assms(2) by (auto intro: published_refl split: option.split)
qed

text \<open>Writing an object: the whole operation, whatever the store holds.\<close>

lemma put_object_spec:
  assumes "libs_ok L" "tree_ok L st" "wf_content_id cid" "put_object_sync L io st cid bs = (r, st')"
  shows "tree_ok L st'" "fs_head st' = fs_head st" "r = Inr () \<Longrightarrow> objects st' cid = Some bs"
    "objects st' = objects st \<or>
     objects st cid = None \<and> for_bytes (lib_hash L) bs = cid \<and> objects st' = (objects st)(cid \<mapsto> bs)"
proof -
  have "tree_ok L st' \<and> fs_head st' = fs_head st \<and> (r = Inr () \<longrightarrow> objects st' cid = Some bs) \<and>
    (objects st' = objects st \<or>
     objects st cid = None \<and> for_bytes (lib_hash L) bs = cid \<and> objects st' = (objects st)(cid \<mapsto> bs))"
  proof (cases "for_bytes (lib_hash L) bs = cid \<and> get_object_sync L io st cid = Inr None")
    case True
    then have "objects st cid = None"
      using get_object_spec [OF assms(1-3)] by (auto split: option.splits)
    moreover have "published L cid bs st (r, st')"
      using publish_object_spec [OF assms(1,2), of bs cid io] True assms(4) by (simp add: put_object_sync_def)
    ultimately show ?thesis using True by (auto simp: published_def)
  next
    case False
    then have "st' = st \<and> (r = Inr () \<longrightarrow> get_object_sync L io st cid = Inr (Some bs))"
      using assms(4) by (auto simp: put_object_sync_def split: if_splits sum.splits option.splits)
    then show ?thesis using get_object_spec [OF assms(1-3)] assms(2) by (auto split: option.splits)
  qed
  then show "tree_ok L st'" "fs_head st' = fs_head st" "r = Inr () \<Longrightarrow> objects st' cid = Some bs"
    "objects st' = objects st \<or>
     objects st cid = None \<and> for_bytes (lib_hash L) bs = cid \<and> objects st' = (objects st)(cid \<mapsto> bs)" by auto
qed

subsection \<open>Commits and the history below them\<close>

definition stored_commit :: "'t libs \<Rightarrow> (content_id \<Rightarrow> bytes option) \<Rightarrow> commit_id \<Rightarrow> any_commit \<Rightarrow> bool" where
  "stored_commit L obj c cm \<longleftrightarrow>
     (\<exists>bs. obj (commit_cid c) = Some bs \<and> decode_commit_object L (commit_cid c) bs = Inr (Some cm))"

definition stored_patch :: "'t libs \<Rightarrow> (content_id \<Rightarrow> bytes option) \<Rightarrow> patch_id \<Rightarrow> patch \<Rightarrow> bool" where
  "stored_patch L obj pid p \<longleftrightarrow> (\<exists>bs. obj (patch_cid pid) = Some bs \<and> validate_patch_bytes L pid bs = Inr p)"

text \<open>
  A commit is rooted when it is stored, its patch is stored and valid, and all its parents are rooted. As
  the predicate is inductive, a rooted commit has a finite, acyclic, complete history.
\<close>

inductive rooted :: "'t libs \<Rightarrow> (content_id \<Rightarrow> bytes option) \<Rightarrow> commit_id \<Rightarrow> bool"
  for L :: "'t libs" and obj :: "content_id \<Rightarrow> bytes option" where
  rooted_commit: "stored_commit L obj c cm \<Longrightarrow> stored_patch L obj (any_patch cm) p \<Longrightarrow>
     (\<And>q. q \<in> set (any_parents cm) \<Longrightarrow> rooted L obj q) \<Longrightarrow> rooted L obj c"

inductive_cases rootedE: "rooted L obj c"

definition history_ok :: "'t libs \<Rightarrow> (content_id \<Rightarrow> bytes option) \<Rightarrow> bool" where
  "history_ok L obj \<longleftrightarrow> (\<forall>c cm. stored_commit L obj c cm \<longrightarrow> rooted L obj c)"

definition grows :: "(content_id \<Rightarrow> bytes option) \<Rightarrow> (content_id \<Rightarrow> bytes option) \<Rightarrow> bool" where
  "grows obj obj' \<longleftrightarrow> (\<forall>c bs. obj c = Some bs \<longrightarrow> obj' c = Some bs)"

lemma grows_refl [simp]: "grows obj obj"
  by (simp add: grows_def)

lemma grows_upd: "obj c = None \<Longrightarrow> grows obj (obj(c \<mapsto> bs))"
  by (simp add: grows_def)

lemma stored_commit_unique: "stored_commit L obj c a \<Longrightarrow> stored_commit L obj c b \<Longrightarrow> a = b"
  by (auto simp: stored_commit_def)

lemma stored_patch_unique: "stored_patch L obj c a \<Longrightarrow> stored_patch L obj c b \<Longrightarrow> a = b"
  by (auto simp: stored_patch_def)

lemma stored_grows:
  "grows obj obj' \<Longrightarrow> stored_commit L obj c cm \<Longrightarrow> stored_commit L obj' c cm"
  "grows obj obj' \<Longrightarrow> stored_patch L obj pid p \<Longrightarrow> stored_patch L obj' pid p"
  by (auto simp: grows_def stored_commit_def stored_patch_def)

lemma rooted_grows: "rooted L obj c \<Longrightarrow> grows obj obj' \<Longrightarrow> rooted L obj' c"
  by (induction rule: rooted.induct) (blast intro: rooted_commit stored_grows)

lemma get_commit_spec:
  assumes "libs_ok L" "tree_ok L st" "wf_commit_id c"
  shows "get_commit_sync L io st c = Inr (Some cm) \<Longrightarrow> stored_commit L (objects st) c cm"
    and "io_fault io (ReadObject (commit_cid c)) = None \<Longrightarrow> stored_commit L (objects st) c cm \<Longrightarrow>
      get_commit_sync L io st c = Inr (Some cm)"
  using get_object_spec [OF assms(1,2), of "commit_cid c" io] assms(3)
  by (auto simp: get_commit_sync_def stored_commit_def rbind_eq_Inr split: option.splits)

lemma check_commit_Inr:
  assumes "libs_ok L" "tree_ok L st" "wf_any cm" "check_commit L io st cm = Inr (bs, c)"
  shows "any_canonical_bytes cm = Inr bs" "c = CommitId (for_bytes (lib_hash L) bs)"
    "\<exists>p. stored_patch L (objects st) (any_patch cm) p"
    "\<And>q. q \<in> set (any_parents cm) \<Longrightarrow> \<exists>pc. stored_commit L (objects st) q pc"
proof -
  have ids: "wf_patch_id (any_patch cm)" "\<And>q. q \<in> set (any_parents cm) \<Longrightarrow> wf_commit_id q"
    using assms(3) by (cases cm; auto simp: wf_v1_def wf_v2_def list_all_iff)+
  show "any_canonical_bytes cm = Inr bs" "c = CommitId (for_bytes (lib_hash L) bs)"
    using assms(4) by (auto simp: check_commit_def rbind_eq_Inr any_id_alt)
  show "\<exists>p. stored_patch L (objects st) (any_patch cm) p"
    using assms(4) get_object_spec [OF assms(1,2), of "patch_cid (any_patch cm)" io] ids(1)
    by (auto simp: check_commit_def rbind_eq_Inr ok_or_eq_Inr stored_patch_def split: option.splits)
  show "\<exists>pc. stored_commit L (objects st) q pc" if "q \<in> set (any_parents cm)" for q
  proof -
    have "check_parent L io st cm q = Inr ()"
      using assms(4) that by (auto simp: check_commit_def rbind_eq_Inr for_r_eq_Inr)
    then obtain pc where "get_commit_sync L io st q = Inr (Some pc)"
      by (auto simp: check_parent_def rbind_eq_Inr split: option.splits)
    then show ?thesis using get_commit_spec(1) [OF assms(1,2)] ids(2) [OF that] by blast
  qed
qed

lemma any_bytes_commit_family: "any_canonical_bytes cm = Inr bs \<Longrightarrow> is_commit_family bs"
  by (cases cm)
    (auto dest!: v1_bytes_header v2_bytes_header simp: is_commit_family_def starts_with_iff
      COMMIT_V1_HEADER_def COMMIT_V2_HEADER_def)

lemma normal_any_same: "any_parents (normal_any cm) = any_parents cm" "any_patch (normal_any cm) = any_patch cm"
  by (cases cm; simp)+

lemma decode_written:
  assumes "libs_ok L" "wf_any cm" "any_canonical_bytes cm = Inr bs"
  shows "decode_commit_object L (for_bytes (lib_hash L) bs) bs = Inr (Some (normal_any cm))"
proof -
  have read: "any_from_canonical_bytes (lib_time L) bs = Inr (normal_any cm)"
    using any_read_written assms by (auto simp: libs_ok_def)
  then have "any_canonical_bytes (normal_any cm) = Inr bs"
    using any_written_read(3) assms(1) by (auto simp: libs_ok_def)
  then show ?thesis
    using any_bytes_commit_family [OF assms(3)] by (simp add: decode_commit_object_def read any_id_alt)
qed

lemma history_ok_add:
  assumes hist: "history_ok L obj" and new: "obj cid = None"
    and commit: "\<And>cm. decode_commit_object L cid bs = Inr (Some cm) \<Longrightarrow>
      (\<exists>p. stored_patch L obj (any_patch cm) p) \<and> (\<forall>q \<in> set (any_parents cm). \<exists>pc. stored_commit L obj q pc)"
  shows "history_ok L (obj(cid \<mapsto> bs))"
  unfolding history_ok_def
proof (intro allI impI)
  fix c cm
  assume stored: "stored_commit L (obj(cid \<mapsto> bs)) c cm"
  have grows: "grows obj (obj(cid \<mapsto> bs))" using new by (rule grows_upd)
  show "rooted L (obj(cid \<mapsto> bs)) c"
  proof (cases "commit_cid c = cid")
    case False
    then have "stored_commit L obj c cm" using stored by (simp add: stored_commit_def)
    then show ?thesis using hist grows rooted_grows unfolding history_ok_def by blast
  next
    case True
    then have decode: "decode_commit_object L cid bs = Inr (Some cm)"
      using stored by (auto simp: stored_commit_def)
    obtain p where p: "stored_patch L obj (any_patch cm) p" using commit [OF decode] by blast
    have "rooted L (obj(cid \<mapsto> bs)) q" if "q \<in> set (any_parents cm)" for q
      using commit [OF decode] that hist rooted_grows [OF _ grows] unfolding history_ok_def by blast
    then show ?thesis using rooted_commit [OF stored stored_grows(2) [OF grows p]] by blast
  qed
qed

lemma grows_spec:
  "objects st' = objects st \<or>
     objects st cid = None \<and> for_bytes h bs = cid \<and> objects st' = (objects st)(cid \<mapsto> bs) \<Longrightarrow>
   grows (objects st) (objects st')"
  by (auto intro: grows_upd)

lemma file_put_content_spec:
  assumes "libs_ok L" "tree_ok L st" "history_ok L (objects st)" "wf_content_id cid"
    and put: "file_put_content L io st cid bs = (r, st')"
  shows "tree_ok L st'" "fs_head st' = fs_head st" "grows (objects st) (objects st')"
    "history_ok L (objects st')" "r = Inr () \<Longrightarrow> objects st' cid = Some bs"
proof -
  have "tree_ok L st' \<and> fs_head st' = fs_head st \<and> grows (objects st) (objects st') \<and>
    history_ok L (objects st') \<and> (r = Inr () \<longrightarrow> objects st' cid = Some bs)"
  proof (cases "is_commit_family bs")
    case True
    then show ?thesis
      using put assms by (auto simp: file_put_content_def reject_commit_bytes_as_content_def)
  next
    case False
    then have "put_object_sync L io st cid bs = (r, st')"
      using put by (simp add: file_put_content_def reject_commit_bytes_as_content_def)
    note spec = put_object_spec [OF assms(1,2,4) this]
    have "decode_commit_object L cid bs = Inr None" using False by (simp add: decode_commit_object_def)
    then have "history_ok L ((objects st)(cid \<mapsto> bs))" if "objects st cid = None"
      by (intro history_ok_add [OF assms(3) that]) simp
    then show ?thesis using spec assms(3) grows_spec [OF spec(4)] by auto
  qed
  then show "tree_ok L st'" "fs_head st' = fs_head st" "grows (objects st) (objects st')"
    "history_ok L (objects st')" "r = Inr () \<Longrightarrow> objects st' cid = Some bs" by auto
qed

lemma put_commit_spec:
  assumes "libs_ok L" "tree_ok L st" "history_ok L (objects st)" "wf_any cm"
    and put: "put_commit_sync L io st cm = (r, st')"
  shows "tree_ok L st'" "fs_head st' = fs_head st" "grows (objects st) (objects st')"
    "history_ok L (objects st')"
    "\<And>c. r = Inr c \<Longrightarrow> wf_commit_id c \<and> stored_commit L (objects st') c (normal_any cm)"
proof -
  have "tree_ok L st' \<and> fs_head st' = fs_head st \<and> grows (objects st) (objects st') \<and> history_ok L (objects st') \<and>
    (\<forall>c. r = Inr c \<longrightarrow> wf_commit_id c \<and> stored_commit L (objects st') c (normal_any cm))"
  proof (cases "check_commit L io st cm")
    case (Inl e)
    then show ?thesis using put assms by (auto simp: put_commit_sync_def)
  next
    case (Inr res)
    obtain bs c where res: "res = (bs, c)" by (rule prod.exhaust)
    note check = check_commit_Inr [OF assms(1,2,4) Inr [unfolded res]]
    note decode = decode_written [OF assms(1,4) check(1)]
    have cid: "commit_cid c = for_bytes (lib_hash L) bs" by (simp add: check(2))
    then have wf: "wf_commit_id c" using assms(1) by (simp add: libs_ok_def for_bytes_wf)
    obtain r1 where put1: "put_object_sync L io st (commit_cid c) bs = (r1, st')"
      and r: "r = (case r1 of Inl e \<Rightarrow> Inl e | Inr _ \<Rightarrow> Inr c)"
      using put by (auto simp: put_commit_sync_def Inr res split: prod.splits sum.splits)
    note spec = put_object_spec [OF assms(1,2) wf put1]
    have "history_ok L ((objects st)(commit_cid c \<mapsto> bs))" if "objects st (commit_cid c) = None"
      by (rule history_ok_add [OF assms(3) that])
        (use decode check(3,4) in \<open>auto simp: cid normal_any_same\<close>)
    moreover have "stored_commit L (objects st') c (normal_any cm)" if "r1 = Inr ()"
      using spec(3) [OF that] decode by (auto simp: stored_commit_def cid)
    ultimately show ?thesis
      using spec grows_spec [OF spec(4)] assms(3) wf by (auto simp: r split: sum.splits)
  qed
  then show "tree_ok L st'" "fs_head st' = fs_head st" "grows (objects st) (objects st')"
    "history_ok L (objects st')"
    "\<And>c. r = Inr c \<Longrightarrow> wf_commit_id c \<and> stored_commit L (objects st') c (normal_any cm)" by auto
qed

subsection \<open>The head file\<close>

lemma strip_any_None: "\<forall>w \<in> set ws. w \<noteq> [] \<and> hd w \<noteq> x \<Longrightarrow> strip_any ws (x # xs) = None"
  by (induction ws) (auto simp: neq_Nil_conv)

lemma strip_all_None: "\<forall>w \<in> set ws. w \<noteq> [] \<longrightarrow> hd w \<noteq> x \<Longrightarrow> strip_all ws (x # xs) = x # xs"
  by (subst strip_all.simps) (simp add: strip_any_None)

lemma white_space_heads:
  "list_all (\<lambda>w. w \<noteq> [] \<and> (code (hd w) < 33 \<or> 128 \<le> code (hd w))) white_space"
  "list_all (\<lambda>w. w \<noteq> [] \<and> (code (hd w) < 33 \<or> 128 \<le> code (hd w))) (map rev white_space)"
  by (simp_all add: white_space_def)

lemma strip_white:
  assumes "33 \<le> code b" "code b < 128"
  shows "strip_all white_space (b # s) = b # s" "strip_all (map rev white_space) (b # s) = b # s"
proof -
  have "hd w \<noteq> b" if "list_all (\<lambda>w. w \<noteq> [] \<and> (code (hd w) < 33 \<or> 128 \<le> code (hd w))) ws" "w \<in> set ws" for w ws
    using that assms by (auto simp: list_all_iff)
  then show "strip_all white_space (b # s) = b # s" "strip_all (map rev white_space) (b # s) = b # s"
    using white_space_heads by (blast intro: strip_all_None)+
qed

lemma byte_9_10: "byte_of 9 \<noteq> LF" "byte_of 10 = LF"
  by code_simp+

lemma white_space_split:
  "filter (\<lambda>w. w \<noteq> []) (map rev white_space) = [byte_of 9] # [byte_of 10] # filter (\<lambda>w. w \<noteq> []) (map rev (drop 2 white_space))"
  by (simp add: white_space_def)

lemma str_trim_line:
  assumes "\<forall>b \<in> set s. 33 \<le> code b \<and> code b < 128" "s \<noteq> []"
  shows "str_trim (s @ [LF]) = s"
proof -
  obtain b t where s: "s = b # t" using assms(2) by (cases s) auto
  obtain u d where rs: "rev s = d # u" using assms(2) by (cases "rev s") auto
  have d: "d \<in> set s" using rs by (metis list.set_intros(1) set_rev)
  have "strip_any (filter (\<lambda>w. w \<noteq> []) (map rev white_space)) (LF # rev s) = Some (rev s)"
    unfolding white_space_split by (simp add: byte_9_10)
  then have "strip_all (map rev white_space) (LF # rev s) = strip_all (map rev white_space) (rev s)"
    by (subst strip_all.simps) simp
  also have "\<dots> = rev s" using strip_white(2) assms(1) d by (simp add: rs)
  finally show ?thesis
    using strip_white(1) [of b "t @ [LF]"] assms(1) by (simp add: str_trim_def s)
qed

lemma commit_str_graphic:
  assumes "wf_commit_id c"
  shows "\<forall>b \<in> set (commit_id_str c). 33 \<le> code b \<and> code b < 128" "commit_id_str c \<noteq> []"
proof -
  obtain h where h: "commit_id_str c = SHA256_PREFIX @ h" "list_all lower_hex h"
    using assms by (auto simp: wf_content_id_iff)
  have "33 \<le> code b \<and> code b < 128" if "lower_hex b" for b
    using that by (auto simp: lower_hex_def byte_class_defs)
  then show "\<forall>b \<in> set (commit_id_str c). 33 \<le> code b \<and> code b < 128"
    using h(2) by (auto simp: h(1) list_all_iff SHA256_PREFIX_def)
  show "commit_id_str c \<noteq> []" by (simp add: h(1) SHA256_PREFIX_def)
qed

definition head_line :: "commit_id \<Rightarrow> bytes" where
  "head_line c = commit_id_str c @ [LF]"

lemma head_sync_line:
  assumes "fs_head st = Some (head_line c)" "wf_commit_id c"
  shows "head_sync io st = rbind (io_try io ReadHead) (\<lambda>_. Inr (Some c))"
proof -
  have "utf8 (head_line c)"
    using assms(2) by (simp add: head_line_def wf_content_id_utf8 ascii_utf8 is_ascii_def)
  then show ?thesis
    using str_trim_line [OF commit_str_graphic [OF assms(2)]] assms
    by (simp add: head_sync_def head_line_def commit_id_roundtrip)
qed

text \<open>The invariant of the whole store, and the head it records.\<close>

definition head_ok :: "'t libs \<Rightarrow> file_store \<Rightarrow> bool" where
  "head_ok L st \<longleftrightarrow>
     (\<forall>bs. fs_head st = Some bs \<longrightarrow> (\<exists>c. wf_commit_id c \<and> bs = head_line c \<and> rooted L (objects st) c))"

definition store_ok :: "'t libs \<Rightarrow> file_store \<Rightarrow> bool" where
  "store_ok L st \<longleftrightarrow> libs_ok L \<and> tree_ok L st \<and> history_ok L (objects st) \<and> head_ok L st"

definition head_id :: "file_store \<Rightarrow> commit_id option" where
  "head_id st = map_option (\<lambda>bs. CommitId (ContentId (butlast bs))) (fs_head st)"

lemma head_id_line: "fs_head st = Some (head_line c) \<Longrightarrow> head_id st = Some c"
  by (simp add: head_id_def head_line_def)

lemma head_sync_spec:
  assumes "head_ok L st"
  shows "head_sync io st = rbind (io_try io ReadHead) (\<lambda>_. Inr (head_id st))"
proof (cases "fs_head st")
  case None
  then show ?thesis by (simp add: head_sync_def head_id_def)
next
  case (Some bs)
  then obtain c where "wf_commit_id c" "fs_head st = Some (head_line c)"
    using assms by (auto simp: head_ok_def)
  then show ?thesis by (simp add: head_sync_line head_id_line)
qed

lemma compare_and_set_spec:
  assumes ok: "store_ok L st" and new: "rooted L (objects st) new" "wf_commit_id new"
    and cas: "compare_and_set_sync io st expected new = (r, st')"
  shows "store_ok L st'" "objects st' = objects st"
    "head_id st' = head_id st \<or> head_id st = expected \<and> head_id st' = Some new"
    "r = Inr () \<Longrightarrow> head_id st = expected \<and> head_id st' = Some new"
proof -
  let ?moved = "st\<lparr>fs_head := Some (head_line new)\<rparr>"
  have head: "head_sync io st = rbind (io_try io ReadHead) (\<lambda>_. Inr (head_id st))"
    using ok head_sync_spec by (auto simp: store_ok_def)
  have "st' = st \<and> r \<noteq> Inr () \<or> head_id st = expected \<and> st' = ?moved"
    using cas head
    by (auto simp: compare_and_set_sync_def head_line_def rbind_eq_Inr io_try_def split: sum.splits if_splits option.splits)
  moreover have "store_ok L ?moved"
    using ok new by (auto simp: store_ok_def head_ok_def)
  moreover have "head_id ?moved = Some new" by (simp add: head_id_line)
  ultimately show "store_ok L st'" "objects st' = objects st"
    "head_id st' = head_id st \<or> head_id st = expected \<and> head_id st' = Some new"
    "r = Inr () \<Longrightarrow> head_id st = expected \<and> head_id st' = Some new"
    using ok by auto
qed

lemma store_ok_grow:
  assumes "store_ok L st" "tree_ok L st'" "fs_head st' = fs_head st" "grows (objects st) (objects st')"
    "history_ok L (objects st')"
  shows "store_ok L st'"
  using assms rooted_grows unfolding store_ok_def head_ok_def by metis

text \<open>
  C29. The filesystem store is a write-once map from identifiers to bytes, whichever of its system calls
  fail: an attempt to write an object leaves the store sound and changes what readers see either not at
  all or by exactly that object, added whole under its own digest where there was none before. A
  reported success means the object is there, and reading without an input error returns it.
\<close>

theorem file_store_write_once:
  assumes "store_ok L st" "wf_content_id cid" "file_put_content L io st cid bs = (r, st')"
  shows "store_ok L st' \<and> head_id st' = head_id st \<and>
    (objects st' = objects st \<or>
     objects st cid = None \<and> for_bytes (lib_hash L) bs = cid \<and> objects st' = (objects st)(cid \<mapsto> bs)) \<and>
    (r = Inr () \<longrightarrow> objects st' cid = Some bs) \<and>
    get_object_sync L io' st' cid =
      (case io_fault io' (ReadObject cid) of Some e \<Rightarrow> Inl (Storage e) | None \<Rightarrow> Inr (objects st' cid))"
proof -
  have ok: "libs_ok L" "tree_ok L st" "history_ok L (objects st)" using assms(1) by (simp_all add: store_ok_def)
  note spec = file_put_content_spec [OF ok assms(2,3)]
  have "store_ok L st'" by (rule store_ok_grow [OF assms(1) spec(1-4)])
  moreover have "objects st' = objects st \<or>
      objects st cid = None \<and> for_bytes (lib_hash L) bs = cid \<and> objects st' = (objects st)(cid \<mapsto> bs)"
    using assms(3) put_object_spec(4) [OF ok(1,2) assms(2)]
    by (cases "reject_commit_bytes_as_content bs") (auto simp: file_put_content_def)
  ultimately show ?thesis
    using spec get_object_spec [OF ok(1) spec(1) assms(2)] by (simp add: head_id_def)
qed

text \<open>Concrete libraries, an environment in which no call fails, and the empty store.\<close>

definition demo_libs :: "civil libs" where
  "demo_libs = \<lparr>lib_hash = (\<lambda>bs. replicate 64 (CHR ''a'')), lib_time = canonical_reader, lib_nquads = demo_nquads\<rparr>"

definition quiet_io :: io_env where
  "quiet_io =
     \<lparr>io_fault = (\<lambda>_. None), io_partial = (\<lambda>bs. bs), io_pid = 1, io_order = sorted_list_of_fset\<rparr>"

definition empty_store :: file_store where
  "empty_store = \<lparr>fs_shards = fmempty, fs_head = None, fs_temp_sequence = 0\<rparr>"

lemma demo_libs_ok: "libs_ok demo_libs"
  by (simp add: libs_ok_def demo_libs_def canonical_reader_ok demo_nquads_ok hex_digest_def lower_hex_def
      list_all_iff byte_class_defs)

lemma empty_store_ok: "libs_ok L \<Longrightarrow> store_ok L empty_store"
  by (simp add: store_ok_def empty_store_def tree_ok_def shard_entries_def history_ok_def stored_commit_def
      objects_def head_ok_def)

lemma quiet_no_fault: "io_fault quiet_io op = None"
  by (simp add: quiet_io_def)

lemma quiet_put_succeeds:
  assumes "store_ok L st" "for_bytes (lib_hash L) bs = cid" "objects st cid = None"
  shows "fst (put_object_sync L quiet_io st cid bs) = Inr ()"
proof -
  have ok: "libs_ok L" "tree_ok L st" using assms(1) by (simp_all add: store_ok_def)
  have wf: "wf_content_id cid" using ok(1) assms(2) by (auto simp: libs_ok_def for_bytes_wf)
  have "fmlookup (fs_shards st) (fst (object_path cid)) \<noteq> Some ShardOther" using ok(2) by (simp add: tree_ok_def)
  moreover have "fmlookup (shard_entries st (fst (object_path cid))) (snd (object_path cid)) \<noteq> Some Irregular"
    using ok(2) object_name_not_temp [OF wf] by (auto simp: tree_ok_def entry_ok_def)
  moreover have "snd (object_path cid) \<noteq> temp_name c p n" for c p n
    using object_name_not_temp [OF wf] temp_name_is_temp by metis
  ultimately show ?thesis
    using assms(2,3) get_object_spec [OF ok wf, of quiet_io]
    by (auto simp: put_object_sync_def publish_object_def install_object_def rename_temp_def quiet_io_def Let_def
        case_prod_unfold)
qed

theorem file_store_write_once_witness:
  "let cid = for_bytes (lib_hash demo_libs) ''x'';
       res = file_put_content demo_libs quiet_io empty_store cid ''x'' in
   store_ok demo_libs empty_store \<and> fst res = Inr () \<and> objects (snd res) cid = Some ''x'' \<and>
   get_object_sync demo_libs quiet_io (snd res) cid = Inr (Some ''x'')"
proof -
  let ?cid = "for_bytes (lib_hash demo_libs) ''x''"
  have ok: "store_ok demo_libs empty_store" by (rule empty_store_ok [OF demo_libs_ok])
  have wf: "wf_content_id ?cid" using demo_libs_ok by (simp add: libs_ok_def for_bytes_wf)
  have "\<not> is_commit_family ''x''" by code_simp
  then have put: "file_put_content demo_libs quiet_io empty_store ?cid ''x'' =
      put_object_sync demo_libs quiet_io empty_store ?cid ''x''"
    by (simp add: file_put_content_def reject_commit_bytes_as_content_def)
  have "objects empty_store ?cid = None" by (simp add: objects_def empty_store_def shard_entries_def)
  from quiet_put_succeeds [OF ok refl this]
  have r: "fst (file_put_content demo_libs quiet_io empty_store ?cid ''x'') = Inr ()" by (simp add: put)
  then obtain st' where put': "file_put_content demo_libs quiet_io empty_store ?cid ''x'' = (Inr (), st')"
    by (metis prod.collapse)
  show ?thesis
    using file_store_write_once [OF ok wf put', of quiet_io] ok
    by (auto simp: Let_def put' quiet_no_fault)
qed

section \<open>Listing is complete\<close>

definition listed_id :: "string \<Rightarrow> string \<Rightarrow> content_id" where
  "listed_id sh name = ContentId (''sha256:'' @ sh @ name)"

lemma entry_id:
  assumes "libs_ok L" "tree_ok L st" "fmlookup (shard_entries st sh) name = Some x" "\<not> is_temp_name name"
  shows "wf_content_id (listed_id sh name) \<and> object_path (listed_id sh name) = (sh, name) \<and> x \<noteq> Irregular"
proof -
  obtain bs where x: "x = Regular bs" and path: "object_path (for_bytes (lib_hash L) bs) = (sh, name)"
    using assms(2-4) unfolding tree_ok_def entry_ok_def by blast
  have wf: "wf_content_id (for_bytes (lib_hash L) bs)" using assms(1) by (simp add: libs_ok_def for_bytes_wf)
  have "digest_hex (for_bytes (lib_hash L) bs) = sh @ name"
    using path by (auto simp: object_path_def Let_def)
  then have "for_bytes (lib_hash L) bs = listed_id sh name"
    using wf_cid_hex(1) [OF wf] by (simp add: listed_id_def SHA256_PREFIX_def)
  then show ?thesis using wf path x by auto
qed

lemma objects_listed:
  assumes "libs_ok L" "tree_ok L st"
  shows "objects st cid \<noteq> None \<longleftrightarrow>
    (\<exists>sh name. name |\<in>| fmdom (shard_entries st sh) \<and> \<not> is_temp_name name \<and> cid = listed_id sh name)"
proof
  assume "objects st cid \<noteq> None"
  then have wf: "wf_content_id cid" and dom: "snd (object_path cid) |\<in>| fmdom (shard_entries st (fst (object_path cid)))"
    by (auto simp: objects_def fmdomI split: if_splits option.splits)
  obtain x where "fmlookup (shard_entries st (fst (object_path cid))) (snd (object_path cid)) = Some x"
    using dom by (auto elim: fmdomE)
  from entry_id [OF assms this object_name_not_temp [OF wf]]
  have "cid = listed_id (fst (object_path cid)) (snd (object_path cid))"
    using object_path_inj wf by auto
  then show "\<exists>sh name. name |\<in>| fmdom (shard_entries st sh) \<and> \<not> is_temp_name name \<and> cid = listed_id sh name"
    using dom object_name_not_temp [OF wf] by blast
next
  assume "\<exists>sh name. name |\<in>| fmdom (shard_entries st sh) \<and> \<not> is_temp_name name \<and> cid = listed_id sh name"
  then obtain sh name x where "fmlookup (shard_entries st sh) name = Some x" "\<not> is_temp_name name" "cid = listed_id sh name"
    by (auto elim: fmdomE)
  then show "objects st cid \<noteq> None"
    using entry_id [OF assms] by (cases x) (auto simp: objects_def)
qed

lemma list_entry_spec:
  assumes "libs_ok L" "tree_ok L st" "name |\<in>| fmdom (shard_entries st sh)" "io_fault io StatEntry = None"
  shows "list_entry L io root sh (shard_entries st sh) name =
    Inr (if is_temp_name name then None else Some (listed_id sh name))"
proof (cases "is_temp_name name")
  case False
  obtain x where x: "fmlookup (shard_entries st sh) name = Some x" using assms(3) by (auto elim: fmdomE)
  have "wf_content_id (listed_id sh name)" "x \<noteq> Irregular" using entry_id [OF assms(1,2) x False] by auto
  then show ?thesis
    using False x assms(4) content_id_roundtrip [of "listed_id sh name"]
    by (simp add: list_entry_def io_try_def Let_def listed_id_def)
qed (simp add: list_entry_def)

text \<open>
  C30. Listing a sound store without input errors returns exactly the identifiers of the stored objects, in
  ascending order: leftover temporary files are passed over, and nothing is reported as corrupt.
\<close>

theorem list_objects_complete:
  assumes "store_ok L st"
    and "\<And>op. op \<in> {ListRoot, StatEntry} \<union> range ListShard \<Longrightarrow> io_fault io op = None"
    and "\<And>X. set (io_order io X) = fset X"
  shows "\<exists>ids. list_objects L io root st = Inr ids \<and> sorted ids \<and> set ids = {cid. objects st cid \<noteq> None}"
proof -
  have ok: "libs_ok L" "tree_ok L st" using assms(1) by (simp_all add: store_ok_def)
  define found where "found = (\<lambda>sh. map (\<lambda>name. if is_temp_name name then None else Some (listed_id sh name))
      (io_order io (fmdom (shard_entries st sh))))"
  define ids where "ids = (\<lambda>sh. map the (filter (\<lambda>x. x \<noteq> None) (found sh)))"
  have shard: "list_shard L io root st sh = Inr (ids sh)" if sh: "sh |\<in>| fmdom (fs_shards st)" for sh
  proof -
    obtain es where es: "fmlookup (fs_shards st) sh = Some (ShardDir es)"
      using sh ok(2) by (auto simp: tree_ok_def elim!: fmdomE) (metis shard_entry.exhaust)
    then have same: "shard_entries st sh = es" by (simp add: shard_entries_def)
    have "traverse_r (list_entry L io root sh es) (io_order io (fmdom es)) = Inr (found sh)"
      unfolding found_def same [symmetric]
      by (rule traverse_r_total) (use list_entry_spec [OF ok] assms(2,3) in auto)
    then show ?thesis using assms(2) by (simp add: list_shard_def es io_try_def ids_def)
  qed
  have set_ids: "set (ids sh) = {listed_id sh name | name. name |\<in>| fmdom (shard_entries st sh) \<and> \<not> is_temp_name name}" for sh
    by (force simp: ids_def found_def assms(3))
  have "traverse_r (list_shard L io root st) (io_order io (fmdom (fs_shards st))) =
      Inr (map ids (io_order io (fmdom (fs_shards st))))"
    by (rule traverse_r_total) (use shard assms(3) in auto)
  then have "list_objects L io root st = Inr (sort (concat (map ids (io_order io (fmdom (fs_shards st))))))"
    using assms(2) by (simp add: list_objects_def io_try_def)
  moreover have "sh |\<in>| fmdom (fs_shards st)" if "name |\<in>| fmdom (shard_entries st sh)" for sh name
    using that by (auto simp: shard_entries_def fmdomI split: option.splits)
  ultimately show ?thesis
    unfolding objects_listed [OF ok] by (auto simp: assms(3) set_ids)
qed

definition demo_object :: content_id where
  "demo_object = for_bytes (lib_hash demo_libs) ''x''"

definition demo_store :: file_store where
  "demo_store = snd (put_object_sync demo_libs quiet_io empty_store demo_object ''x'')"

lemma demo_store_facts: "store_ok demo_libs demo_store" "objects demo_store = [demo_object \<mapsto> ''x'']"
proof -
  have ok: "store_ok demo_libs empty_store" by (rule empty_store_ok [OF demo_libs_ok])
  then have tree: "tree_ok demo_libs empty_store" "history_ok demo_libs (objects empty_store)" by (simp_all add: store_ok_def)
  have none: "objects empty_store = (\<lambda>_. None)" by (simp add: objects_def empty_store_def shard_entries_def fun_eq_iff)
  have wf: "wf_content_id demo_object" using demo_libs_ok by (simp add: demo_object_def libs_ok_def for_bytes_wf)
  have r: "fst (put_object_sync demo_libs quiet_io empty_store demo_object ''x'') = Inr ()"
    by (rule quiet_put_succeeds [OF ok]) (simp_all add: demo_object_def none)
  then have put: "put_object_sync demo_libs quiet_io empty_store demo_object ''x'' = (Inr (), demo_store)"
    by (metis demo_store_def prod.collapse)
  note spec = put_object_spec [OF demo_libs_ok tree(1) wf put]
  show "objects demo_store = [demo_object \<mapsto> ''x'']" using spec(3,4) by (auto simp: none)
  have "\<not> is_commit_family ''x''" by code_simp
  then have "file_put_content demo_libs quiet_io empty_store demo_object ''x'' = (Inr (), demo_store)"
    by (simp add: file_put_content_def reject_commit_bytes_as_content_def put)
  from file_put_content_spec [OF demo_libs_ok tree wf this]
  show "store_ok demo_libs demo_store" by (intro store_ok_grow [OF ok])
qed

theorem list_objects_complete_witness:
  "\<exists>ids. store_ok demo_libs demo_store \<and> list_objects demo_libs quiet_io ''r'' demo_store = Inr ids \<and> set ids = {demo_object}"
  using list_objects_complete [OF demo_store_facts(1), of quiet_io "''r''"] demo_store_facts
  by (simp add: quiet_io_def) (auto simp: quiet_io_def split: if_splits)

end
