(* ===== verification/Store_Ledger.thy ===== *)
theory Store_Ledger
  imports Store_File
begin

text \<open>
  The ledger service of \<^verbatim>\<open>crates/ledger-store/src/lib.rs\<close> (\<open>Ledger\<close>): committing, moving the head, and
  reconstructing the state of a commit. The service is written against the traits \<open>ImmutableStore\<close> and
  \<open>RefStore\<close>; here against a record of their operations over a state \<open>'s\<close>.
\<close>

record 's store_ops =
  so_put_content :: "'s \<Rightarrow> content_id \<Rightarrow> bytes \<Rightarrow> (ledger_error + unit) \<times> 's"
  so_get_content :: "'s \<Rightarrow> content_id \<Rightarrow> ledger_error + bytes option"
  so_put_commit :: "'s \<Rightarrow> any_commit \<Rightarrow> (ledger_error + commit_id) \<times> 's"
  so_get_commit :: "'s \<Rightarrow> commit_id \<Rightarrow> ledger_error + any_commit option"
  so_exists :: "'s \<Rightarrow> content_id \<Rightarrow> ledger_error + bool"
  so_head :: "'s \<Rightarrow> ledger_error + commit_id option"
  so_compare_and_set :: "'s \<Rightarrow> commit_id option \<Rightarrow> commit_id \<Rightarrow> (ledger_error + unit) \<times> 's"

definition file_ops :: "'t libs \<Rightarrow> io_env \<Rightarrow> file_store store_ops" where
  "file_ops L io =
     \<lparr>so_put_content = file_put_content L io, so_get_content = get_object_sync L io,
      so_put_commit = put_commit_sync L io, so_get_commit = get_commit_sync L io,
      so_exists = exists_sync io, so_head = head_sync io, so_compare_and_set = compare_and_set_sync io\<rparr>"

section \<open>The service\<close>

record commit_request =
  cr_expected_head :: "commit_id option"
  cr_patch :: patch
  cr_author :: string
  cr_message :: string
  cr_event_time :: string

definition verify_head :: "'t libs \<Rightarrow> 's store_ops \<Rightarrow> 's \<Rightarrow> ledger_error + commit_id option" where
  "verify_head L S st =
     rbind (so_head S st) (\<lambda>head.
     case head of
       None \<Rightarrow> Inr None
     | Some c \<Rightarrow>
         rbind (so_get_commit S st c) (\<lambda>found.
         rbind (ok_or (MissingTarget c) found) (\<lambda>commit.
         rbind (so_get_content S st (patch_cid (any_patch commit))) (\<lambda>content.
         rbind (ok_or (MissingPatch (any_patch commit)) content) (\<lambda>patch_bytes.
         rbind (validate_patch_bytes L (any_patch commit) patch_bytes) (\<lambda>_.
         Inr head))))))"

definition advance_ref ::
  "'s store_ops \<Rightarrow> 's \<Rightarrow> commit_id option \<Rightarrow> commit_id \<Rightarrow> (ledger_error + unit) \<times> 's" where
  "advance_ref S st expected new =
     (case so_get_commit S st new of
        Inl e \<Rightarrow> (Inl e, st)
      | Inr None \<Rightarrow> (Inl (MissingTarget new), st)
      | Inr (Some _) \<Rightarrow> so_compare_and_set S st expected new)"

text \<open>\<open>now\<close> is the formatted current time, or the text of the formatter's error.\<close>

definition request_commit :: "'t libs \<Rightarrow> commit_request \<Rightarrow> string \<Rightarrow> any_commit" where
  "request_commit L req recorded =
     V1 \<lparr>v1_parents = (case cr_expected_head req of None \<Rightarrow> [] | Some h \<Rightarrow> [h]),
         v1_patch = patch_id_of (lib_hash L) (cr_patch req), v1_author = cr_author req,
         v1_message = cr_message req, v1_event_time = cr_event_time req, v1_recorded_time = recorded\<rparr>"

definition ledger_commit ::
  "'t libs \<Rightarrow> 's store_ops \<Rightarrow> string + string \<Rightarrow> 's \<Rightarrow> commit_request \<Rightarrow> (ledger_error + commit_id) \<times> 's" where
  "ledger_commit L S now st req =
     (let patch_bytes = patch_canonical_bytes (cr_patch req);
          patch_id = patch_id_of (lib_hash L) (cr_patch req) in
      case so_put_content S st (patch_cid patch_id) patch_bytes of
        (Inl e, st) \<Rightarrow> (Inl e, st)
      | (Inr _, st) \<Rightarrow>
          (case now of
             Inl e \<Rightarrow> (Inl (Storage e), st)
           | Inr recorded \<Rightarrow>
               (case so_put_commit S st (request_commit L req recorded) of
                  (Inl e, st) \<Rightarrow> (Inl e, st)
                | (Inr c, st) \<Rightarrow>
                    (case advance_ref S st (cr_expected_head req) c of
                       (Inl e, st) \<Rightarrow> (Inl e, st)
                     | (Inr _, st) \<Rightarrow> (Inr c, st)))))"

section \<open>Reconstruction\<close>

text \<open>The walk along first parents, newest first. The depth check bounds it, so it ends on every store.\<close>

function collect_chain ::
  "'s store_ops \<Rightarrow> reconstruction_limits \<Rightarrow> 's \<Rightarrow> commit_id fset \<Rightarrow> commit_id option \<Rightarrow> ledger_error + patch_id list" where
  "collect_chain S l st seen None = Inr []"
| "collect_chain S l st seen (Some c) =
     (if c |\<in>| seen then Inl (CorruptObject (commit_cid c) ''commit cycle'')
      else rbind (check_depth l (fcard (finsert c seen))) (\<lambda>_.
           rbind (so_get_commit S st c) (\<lambda>found.
           rbind (ok_or (NotFound (commit_cid c)) found) (\<lambda>commit.
           rbind (collect_chain S l st (finsert c seen)
                    (case any_parents commit of [] \<Rightarrow> None | p # _ \<Rightarrow> Some p)) (\<lambda>chain.
           Inr (any_patch commit # chain))))))"
  by pat_completeness auto
termination
  by (relation "measure (\<lambda>(S, l, st, seen, cursor). Suc (rc_max_depth l) - fcard seen)")
    (auto simp: check_depth_def fail_if_eq_Inr fcard_finsert_disjoint)

declare collect_chain.simps [simp del]

fun replay_chain ::
  "'t libs \<Rightarrow> 's store_ops \<Rightarrow> reconstruction_limits \<Rightarrow> 's \<Rightarrow> quad fset \<times> nat \<Rightarrow> patch_id list \<Rightarrow>
   ledger_error + (quad fset \<times> nat)" where
  "replay_chain L S l st acc [] = Inr acc"
| "replay_chain L S l st acc (pid # pids) =
     rbind (so_get_content S st (patch_cid pid)) (\<lambda>found.
     rbind (ok_or (NotFound (patch_cid pid)) found) (\<lambda>bs.
     rbind (validate_patch_bytes L pid bs) (\<lambda>patch.
     rbind (apply_bounded l acc patch) (\<lambda>acc.
     replay_chain L S l st acc pids))))"

definition state_at_bounded ::
  "'t libs \<Rightarrow> 's store_ops \<Rightarrow> reconstruction_limits \<Rightarrow> 's \<Rightarrow> commit_id \<Rightarrow> ledger_error + quad fset" where
  "state_at_bounded L S l st c =
     rbind (collect_chain S l st {||} (Some c)) (\<lambda>chain.
     rbind (replay_chain L S l st ({||}, 0) (rev chain)) (\<lambda>(state, _). Inr state))"

definition state_at :: "'t libs \<Rightarrow> 's store_ops \<Rightarrow> 's \<Rightarrow> commit_id \<Rightarrow> ledger_error + quad fset" where
  "state_at L S st c = state_at_bounded L S RECONSTRUCTION_DEVELOPMENT st c"

definition ledger_patch :: "'t libs \<Rightarrow> 's store_ops \<Rightarrow> 's \<Rightarrow> patch_id \<Rightarrow> ledger_error + patch option" where
  "ledger_patch L S st pid =
     rbind (so_get_content S st (patch_cid pid)) (\<lambda>found.
     case found of
       None \<Rightarrow> Inr None
     | Some bs \<Rightarrow> rbind (validate_patch_bytes L pid bs) (\<lambda>p. Inr (Some p)))"

section \<open>Reference: the history of a commit and its state\<close>

inductive first_parents ::
  "'t libs \<Rightarrow> (content_id \<Rightarrow> bytes option) \<Rightarrow> commit_id \<Rightarrow> patch list \<Rightarrow> bool"
  for L :: "'t libs" and obj :: "content_id \<Rightarrow> bytes option" where
  first_parents_root: "stored_commit L obj c cm \<Longrightarrow> stored_patch L obj (any_patch cm) p \<Longrightarrow> any_parents cm = [] \<Longrightarrow>
     first_parents L obj c [p]"
| first_parents_step: "stored_commit L obj c cm \<Longrightarrow> stored_patch L obj (any_patch cm) p \<Longrightarrow> any_parents cm = q # qs \<Longrightarrow>
     first_parents L obj q ps \<Longrightarrow> first_parents L obj c (p # ps)"

text \<open>The state a sequence of patches, newest first, leads to from the empty state.\<close>

definition state_after :: "patch list \<Rightarrow> quad fset" where
  "state_after ps = foldl apply_patch {||} (rev ps)"

lemma stored_commit_wf:
  assumes "libs_ok L" "stored_commit L obj c cm"
  shows "wf_commit_id c" "wf_any cm"
proof -
  obtain bs where decode: "decode_commit_object L (commit_cid c) bs = Inr (Some cm)"
    using assms(2) by (auto simp: stored_commit_def)
  then have read: "any_from_canonical_bytes (lib_time L) bs = Inr cm"
    and cid: "\<exists>i. any_id (lib_hash L) cm = Inr i \<and> commit_cid i = commit_cid c"
    by (auto simp: decode_commit_object_def rbind_eq_Inr split: if_splits sum.splits ledger_error.splits)
  from any_written_read(1) [OF _ read] show "wf_any cm" using assms(1) by (simp add: libs_ok_def)
  show "wf_commit_id c"
    using cid assms(1) by (auto simp: any_id_alt rbind_eq_Inr libs_ok_def for_bytes_wf) (metis for_bytes_wf)
qed

lemma stored_patch_wf:
  assumes "libs_ok L" "stored_patch L obj pid p"
  shows "wf_patch_id pid"
  using assms by (auto simp: stored_patch_def validate_patch_bytes_def libs_ok_def split: if_splits) (metis for_bytes_wf)

lemma wf_any_ids:
  assumes "wf_any cm"
  shows "wf_patch_id (any_patch cm)" "q \<in> set (any_parents cm) \<Longrightarrow> wf_commit_id q"
  using assms by (cases cm; auto simp: wf_v1_def wf_v2_def list_all_iff)+

text \<open>A rooted commit is not among its own ancestors.\<close>

definition parent_of :: "'t libs \<Rightarrow> (content_id \<Rightarrow> bytes option) \<Rightarrow> commit_id \<Rightarrow> commit_id \<Rightarrow> bool" where
  "parent_of L obj q c \<longleftrightarrow> (\<exists>cm. stored_commit L obj c cm \<and> q \<in> set (any_parents cm))"

lemma rooted_acyclic:
  assumes "rooted L obj c"
  shows "\<not> (parent_of L obj)\<^sup>+\<^sup>+ c c"
  using assms
proof (induction rule: rooted.induct)
  case (rooted_commit c cm p)
  show ?case
  proof
    assume "(parent_of L obj)\<^sup>+\<^sup>+ c c"
    then obtain q where q: "(parent_of L obj)\<^sup>*\<^sup>* c q" "parent_of L obj q c"
      by (metis tranclp.cases rtranclp.rtrancl_refl tranclp_into_rtranclp)
    then have "(parent_of L obj)\<^sup>+\<^sup>+ q q" by (rule_tac rtranclp_into_tranclp2)
    moreover have "q \<in> set (any_parents cm)"
      using q(2) rooted_commit.hyps(1) stored_commit_unique unfolding parent_of_def by blast
    ultimately show False using rooted_commit.IH by blast
  qed
qed

section \<open>The contract of a backend\<close>

text \<open>
  What the service relies on. \<open>obj\<close> is what the store holds, \<open>head_of\<close> its head, \<open>inv\<close> its invariant;
  \<open>reads_ok\<close> says that reads do not fail.
\<close>

locale ledger_backend =
  fixes L :: "'t libs" and S :: "'s store_ops" and inv :: "'s \<Rightarrow> bool"
    and obj :: "'s \<Rightarrow> content_id \<Rightarrow> bytes option" and head_of :: "'s \<Rightarrow> commit_id option" and reads_ok :: bool
  assumes inv_libs: "inv st \<Longrightarrow> libs_ok L"
    and inv_history: "inv st \<Longrightarrow> history_ok L (obj st)"
    and inv_head: "inv st \<Longrightarrow> head_of st = Some c \<Longrightarrow> wf_commit_id c \<and> rooted L (obj st) c"
    and get_content: "inv st \<Longrightarrow> wf_content_id cid \<Longrightarrow> so_get_content S st cid = Inr found \<Longrightarrow> found = obj st cid"
    and get_content_ok: "inv st \<Longrightarrow> wf_content_id cid \<Longrightarrow> reads_ok \<Longrightarrow> so_get_content S st cid = Inr (obj st cid)"
    and get_commit: "inv st \<Longrightarrow> wf_commit_id c \<Longrightarrow> so_get_commit S st c = Inr (Some cm) \<Longrightarrow> stored_commit L (obj st) c cm"
    and get_commit_ok: "inv st \<Longrightarrow> wf_commit_id c \<Longrightarrow> reads_ok \<Longrightarrow> stored_commit L (obj st) c cm \<Longrightarrow>
      so_get_commit S st c = Inr (Some cm)"
    and put_content: "inv st \<Longrightarrow> wf_content_id cid \<Longrightarrow> so_put_content S st cid bs = (r, st') \<Longrightarrow>
      inv st' \<and> head_of st' = head_of st \<and> grows (obj st) (obj st') \<and> (r = Inr () \<longrightarrow> obj st' cid = Some bs)"
    and put_commit: "inv st \<Longrightarrow> wf_any cm \<Longrightarrow> so_put_commit S st cm = (q, st') \<Longrightarrow>
      inv st' \<and> head_of st' = head_of st \<and> grows (obj st) (obj st') \<and>
      (\<forall>c. q = Inr c \<longrightarrow> wf_commit_id c \<and> stored_commit L (obj st') c (normal_any cm))"
    and head: "inv st \<Longrightarrow> so_head S st = Inr h \<Longrightarrow> h = head_of st"
    and compare_and_set: "inv st \<Longrightarrow> wf_commit_id new \<Longrightarrow> rooted L (obj st) new \<Longrightarrow>
      so_compare_and_set S st expected new = (r, st') \<Longrightarrow>
      inv st' \<and> obj st' = obj st \<and> (head_of st' = head_of st \<or> head_of st = expected \<and> head_of st' = Some new) \<and>
      (r = Inr () \<longrightarrow> head_of st = expected \<and> head_of st' = Some new)"
begin

lemma advance_ref_contract:
  assumes "inv st" "wf_commit_id new" "advance_ref S st expected new = (r, st')"
  shows "inv st' \<and> obj st' = obj st \<and>
    (head_of st' = head_of st \<or> head_of st = expected \<and> head_of st' = Some new \<and> rooted L (obj st) new) \<and>
    (r = Inr () \<longrightarrow> head_of st = expected \<and> head_of st' = Some new)"
proof (cases "\<exists>cm. so_get_commit S st new = Inr (Some cm)")
  case True
  then obtain cm where cm: "so_get_commit S st new = Inr (Some cm)" by blast
  then have root: "rooted L (obj st) new"
    using get_commit [OF assms(1,2)] inv_history [OF assms(1)] unfolding history_ok_def by blast
  have "so_compare_and_set S st expected new = (r, st')" using assms(3) cm by (simp add: advance_ref_def)
  from compare_and_set [OF assms(1,2) root this] show ?thesis using root by auto
next
  case False
  then have "st' = st \<and> r \<noteq> Inr ()"
    using assms(3) by (auto simp: advance_ref_def split: sum.splits option.splits)
  then show ?thesis using assms(1) by auto
qed

lemma commit_contract:
  assumes "inv st" "pred_option wf_commit_id (cr_expected_head req)"
    "utf8 (cr_author req)" "utf8 (cr_message req)" "utf8 (cr_event_time req)"
    "\<And>recorded. now = Inr recorded \<Longrightarrow> utf8 recorded"
    and commit: "ledger_commit L S now st req = (r, st')"
  shows "inv st' \<and> grows (obj st) (obj st') \<and>
    (head_of st' = head_of st \<or>
     head_of st = cr_expected_head req \<and>
     (\<exists>c recorded. head_of st' = Some c \<and> now = Inr recorded \<and> stored_commit L (obj st') c (request_commit L req recorded))) \<and>
    (\<forall>c. r = Inr c \<longrightarrow> head_of st = cr_expected_head req \<and> head_of st' = Some c \<and>
       (\<exists>recorded. now = Inr recorded \<and> stored_commit L (obj st') c (request_commit L req recorded)))"
proof -
  have libs: "libs_ok L" by (rule inv_libs [OF assms(1)])
  let ?pid = "patch_id_of (lib_hash L) (cr_patch req)"
  have wfp: "wf_content_id (patch_cid ?pid)" using libs by (simp add: patch_id_of_def libs_ok_def for_bytes_wf)
  obtain r1 st1 where p1: "so_put_content S st (patch_cid ?pid) (patch_canonical_bytes (cr_patch req)) = (r1, st1)"
    by (rule prod.exhaust)
  note s1 = put_content [OF assms(1) wfp p1]
  show ?thesis
  proof (cases "\<exists>recorded. r1 = Inr () \<and> now = Inr recorded")
    case False
    then have "st' = st1 \<and> (\<forall>c. r \<noteq> Inr c)"
      using commit by (auto simp: ledger_commit_def p1 Let_def split: sum.splits)
    then show ?thesis using s1 by auto
  next
    case True
    then obtain recorded where now: "now = Inr recorded" "r1 = Inr ()" by blast
    let ?cm = "request_commit L req recorded"
    have wf: "wf_any ?cm" "normal_any ?cm = ?cm"
      using assms(2-6) now wfp by (auto simp: request_commit_def wf_v1_def split: option.splits)
    obtain r2 st2 where p2: "so_put_commit S st1 ?cm = (r2, st2)" by (rule prod.exhaust)
    note s2 = put_commit [OF conjunct1 [OF s1] wf(1) p2]
    show ?thesis
    proof (cases r2)
      case (Inl e)
      then have "st' = st2 \<and> (\<forall>c. r \<noteq> Inr c)"
        using commit now by (auto simp: ledger_commit_def p1 p2 Let_def)
      then show ?thesis using s1 s2 unfolding grows_def by auto
    next
      case (Inr c)
      then have c: "wf_commit_id c" "stored_commit L (obj st2) c ?cm" using s2 wf(2) by auto
      obtain r3 where p3: "advance_ref S st2 (cr_expected_head req) c = (r3, st')"
        and r: "r = (case r3 of Inl e \<Rightarrow> Inl e | Inr _ \<Rightarrow> Inr c)"
        using commit now Inr by (auto simp: ledger_commit_def p1 p2 Let_def split: prod.splits sum.splits)
      have st2: "inv st2" "head_of st2 = head_of st" "grows (obj st) (obj st2)"
        using s1 s2 unfolding grows_def by auto
      note s3 = advance_ref_contract [OF st2(1) c(1) p3]
      have "stored_commit L (obj st') c ?cm" using s3 c(2) by simp
      then show ?thesis using s3 st2 now(1) by (auto simp: r split: sum.splits)
    qed
  qed
qed

lemma collect_chain_sound:
  assumes "inv st" "rooted L (obj st) c"
    and "collect_chain S l st seen (Some c) = Inr chain"
  shows "\<exists>ps. first_parents L (obj st) c ps \<and> list_all2 (stored_patch L (obj st)) chain ps \<and>
    length chain + fcard seen \<le> rc_max_depth l"
  using assms(2,3)
proof (induction arbitrary: seen chain rule: rooted.induct)
  case (rooted_commit c cm p)
  have wfc: "wf_commit_id c" using stored_commit_wf(1) [OF inv_libs [OF assms(1)] rooted_commit.hyps(1)] .
  obtain cm' rest where new: "c |\<notin>| seen" and depth: "fcard (finsert c seen) \<le> rc_max_depth l"
    and get: "so_get_commit S st c = Inr (Some cm')" and chain: "chain = any_patch cm' # rest"
    and rec: "collect_chain S l st (finsert c seen) (case any_parents cm' of [] \<Rightarrow> None | p # _ \<Rightarrow> Some p) = Inr rest"
    using rooted_commit.prems
    by (auto simp: collect_chain.simps(2) [of S l st seen c] rbind_eq_Inr ok_or_eq_Inr check_depth_def fail_if_eq_Inr
        split: if_splits)
  have cm': "cm' = cm"
    using get_commit [OF assms(1) wfc get] rooted_commit.hyps(1) stored_commit_unique by blast
  have card: "fcard (finsert c seen) = Suc (fcard seen)" using new by (simp add: fcard_finsert_disjoint)
  show ?case
  proof (cases "any_parents cm")
    case Nil
    then have "rest = []" using rec by (simp add: cm' collect_chain.simps(1))
    then show ?thesis
      using first_parents_root [OF rooted_commit.hyps(1,2) Nil] rooted_commit.hyps(2) depth card
      by (auto simp: chain cm')
  next
    case (Cons q qs)
    then have "collect_chain S l st (finsert c seen) (Some q) = Inr rest" using rec by (simp add: cm')
    from rooted_commit.IH [OF _ this] obtain ps where ps: "first_parents L (obj st) q ps"
      "list_all2 (stored_patch L (obj st)) rest ps" "length rest + fcard (finsert c seen) \<le> rc_max_depth l"
      using Cons by auto
    then show ?thesis
      using first_parents_step [OF rooted_commit.hyps(1,2) Cons ps(1)] rooted_commit.hyps(2) card
      by (auto simp: chain cm')
  qed
qed

lemma collect_chain_total:
  assumes "inv st" "reads_ok" "rooted L (obj st) c"
    and "\<And>x. x |\<in>| seen \<Longrightarrow> (parent_of L (obj st))\<^sup>+\<^sup>+ c x"
  shows "(\<exists>chain. collect_chain S l st seen (Some c) = Inr chain) \<or>
    (\<exists>m. collect_chain S l st seen (Some c) = Inl (ResourceLimit m))"
  using assms(3,4)
proof (induction arbitrary: seen rule: rooted.induct)
  case (rooted_commit c cm p)
  have root: "rooted L (obj st) c" using rooted.rooted_commit rooted_commit.hyps by blast
  have new: "c |\<notin>| seen" using rooted_commit.prems rooted_acyclic [OF root] by blast
  have wfc: "wf_commit_id c" using stored_commit_wf(1) [OF inv_libs [OF assms(1)] rooted_commit.hyps(1)] .
  have get: "so_get_commit S st c = Inr (Some cm)" by (rule get_commit_ok [OF assms(1) wfc assms(2) rooted_commit.hyps(1)])
  show ?case
  proof (cases "fcard (finsert c seen) > rc_max_depth l \<or> any_parents cm = []")
    case True
    then show ?thesis
      by (cases "rc_max_depth l < fcard (finsert c seen)")
        (auto simp: collect_chain.simps new get check_depth_def fail_if_simps)
  next
    case False
    then obtain q qs where qs: "any_parents cm = q # qs" by (cases "any_parents cm") auto
    have "parent_of L (obj st) q c" using rooted_commit.hyps(1) qs by (auto simp: parent_of_def)
    then have below: "(parent_of L (obj st))\<^sup>+\<^sup>+ q x" if "x |\<in>| finsert c seen" for x
      using that rooted_commit.prems by (auto intro: tranclp_into_tranclp2)
    have "(\<exists>chain. collect_chain S l st (finsert c seen) (Some q) = Inr chain) \<or>
        (\<exists>m. collect_chain S l st (finsert c seen) (Some q) = Inl (ResourceLimit m))"
      by (rule rooted_commit.IH) (use qs below in simp_all)
    with qs show ?thesis
      using False by (auto simp: collect_chain.simps(2) [of S l st seen c] new get check_depth_def fail_if_simps)
  qed
qed

lemma replay_chain_sound:
  assumes "inv st" "list_all2 (stored_patch L (obj st)) pids ps"
    and "replay_chain L S l st (X, state_bytes X) pids = Inr (Y, b)"
  shows "Y = foldl apply_patch X ps \<and> (pids \<noteq> [] \<longrightarrow> fcard Y \<le> rc_max_quads l \<and> state_bytes Y \<le> rc_max_bytes l)"
  using assms(2,3)
proof (induction arbitrary: X rule: list_all2_induct)
  case (Cons pid pids p ps)
  have wf: "wf_content_id (patch_cid pid)" using stored_patch_wf [OF inv_libs [OF assms(1)] Cons.hyps(1)] .
  obtain bs p' where get: "so_get_content S st (patch_cid pid) = Inr (Some bs)"
    and valid: "validate_patch_bytes L pid bs = Inr p'"
    and within: "fcard (apply_patch X p') \<le> rc_max_quads l" "state_bytes (apply_patch X p') \<le> rc_max_bytes l"
    and rest: "replay_chain L S l st (apply_patch X p', state_bytes (apply_patch X p')) pids = Inr (Y, b)"
    using Cons.prems
    by (auto simp: rbind_eq_Inr ok_or_eq_Inr apply_bounded_exact Let_def check_state_Inr)
  have "p' = p"
    using get_content [OF assms(1) wf get] valid Cons.hyps(1) by (auto simp: stored_patch_def)
  then show ?case using Cons.IH [OF rest] within rest by (cases pids) auto
qed simp

lemma replay_chain_total:
  assumes "inv st" "reads_ok" "list_all2 (stored_patch L (obj st)) pids ps"
  shows "(\<exists>r. replay_chain L S l st (X, state_bytes X) pids = Inr r) \<or>
    (\<exists>m. replay_chain L S l st (X, state_bytes X) pids = Inl (ResourceLimit m))"
  using assms(3)
proof (induction arbitrary: X rule: list_all2_induct)
  case (Cons pid pids p ps)
  have wf: "wf_content_id (patch_cid pid)" using stored_patch_wf [OF inv_libs [OF assms(1)] Cons.hyps(1)] .
  obtain bs where "obj st (patch_cid pid) = Some bs" and valid: "validate_patch_bytes L pid bs = Inr p"
    using Cons.hyps(1) by (auto simp: stored_patch_def)
  then have "so_get_content S st (patch_cid pid) = Inr (Some bs)"
    using get_content_ok [OF assms(1) wf assms(2)] by simp
  then show ?case
    using Cons.IH [of "apply_patch X p"] valid
    by (auto simp: apply_bounded_exact Let_def check_state_def)
qed simp

lemma state_at_contract:
  assumes "inv st" "wf_commit_id c" "state_at_bounded L S l st c = Inr X"
  shows "\<exists>ps. first_parents L (obj st) c ps \<and> X = state_after ps \<and> length ps \<le> rc_max_depth l \<and>
    fcard X \<le> rc_max_quads l \<and> state_bytes X \<le> rc_max_bytes l"
proof -
  obtain chain b where chain: "collect_chain S l st {||} (Some c) = Inr chain"
    and replay: "replay_chain L S l st ({||}, 0) (rev chain) = Inr (X, b)"
    using assms(3) by (auto simp: state_at_bounded_def rbind_eq_Inr)
  obtain cm where "so_get_commit S st c = Inr (Some cm)" and nonempty: "chain \<noteq> []"
    using chain by (auto simp: collect_chain.simps(2) rbind_eq_Inr ok_or_eq_Inr split: if_splits)
  then have "rooted L (obj st) c"
    using get_commit [OF assms(1,2)] inv_history [OF assms(1)] unfolding history_ok_def by blast
  from collect_chain_sound [OF assms(1) this chain] obtain ps where ps: "first_parents L (obj st) c ps"
    "list_all2 (stored_patch L (obj st)) chain ps" "length chain \<le> rc_max_depth l" by auto
  have "list_all2 (stored_patch L (obj st)) (rev chain) (rev ps)" using ps(2) by simp
  moreover have "replay_chain L S l st ({||}, state_bytes {||}) (rev chain) = Inr (X, b)"
    using replay by (simp add: state_bytes_def)
  ultimately have "X = foldl apply_patch {||} (rev ps) \<and>
      (rev chain \<noteq> [] \<longrightarrow> fcard X \<le> rc_max_quads l \<and> state_bytes X \<le> rc_max_bytes l)"
    using replay_chain_sound [OF assms(1)] by blast
  then show ?thesis using ps nonempty list_all2_lengthD [OF ps(2)] by (auto simp: state_after_def)
qed

lemma state_at_total:
  assumes "inv st" "reads_ok" "rooted L (obj st) c"
  shows "(\<exists>X. state_at_bounded L S l st c = Inr X) \<or> (\<exists>m. state_at_bounded L S l st c = Inl (ResourceLimit m))"
proof (cases "\<exists>chain. collect_chain S l st {||} (Some c) = Inr chain")
  case True
  then obtain chain where chain: "collect_chain S l st {||} (Some c) = Inr chain" by blast
  from collect_chain_sound [OF assms(1,3) chain] obtain ps
    where "list_all2 (stored_patch L (obj st)) (rev chain) (rev ps)" by auto
  from replay_chain_total [OF assms(1,2) this, of l "{||}"] show ?thesis
    by (auto simp: state_at_bounded_def chain state_bytes_def)
next
  case False
  then show ?thesis
    using collect_chain_total [OF assms, of "{||}" l] by (auto simp: state_at_bounded_def)
qed

end

section \<open>The filesystem backend\<close>

definition io_reads_ok :: "io_env \<Rightarrow> bool" where
  "io_reads_ok io \<longleftrightarrow> (\<forall>cid. io_fault io (ReadObject cid) = None)"

lemma store_ok_parts:
  assumes "store_ok L st"
  shows "libs_ok L" "tree_ok L st" "history_ok L (objects st)" "head_ok L st"
  using assms by (simp_all add: store_ok_def)

lemma head_id_rooted:
  assumes "store_ok L st" "head_id st = Some c"
  shows "wf_commit_id c \<and> rooted L (objects st) c"
  using assms head_id_line by (fastforce simp: store_ok_def head_ok_def head_id_def)

lemma file_put_content_contract:
  assumes "store_ok L st" "wf_content_id cid" "file_put_content L io st cid bs = (r, st')"
  shows "store_ok L st' \<and> head_id st' = head_id st \<and> grows (objects st) (objects st') \<and>
    (r = Inr () \<longrightarrow> objects st' cid = Some bs)"
proof -
  note spec = file_put_content_spec [OF store_ok_parts(1-3) [OF assms(1)] assms(2,3)]
  then show ?thesis using store_ok_grow [OF assms(1) spec(1-4)] by (simp add: head_id_def)
qed

lemma put_commit_contract:
  assumes "store_ok L st" "wf_any cm" "put_commit_sync L io st cm = (r, st')"
  shows "store_ok L st' \<and> head_id st' = head_id st \<and> grows (objects st) (objects st') \<and>
    (\<forall>c. r = Inr c \<longrightarrow> wf_commit_id c \<and> stored_commit L (objects st') c (normal_any cm))"
proof -
  note spec = put_commit_spec [OF store_ok_parts(1-3) [OF assms(1)] assms(2,3)]
  then show ?thesis using store_ok_grow [OF assms(1) spec(1-4)] by (simp add: head_id_def)
qed

interpretation fsb: ledger_backend L "file_ops L io" "store_ok L" objects head_id "io_reads_ok io" for L io
proof (unfold_locales, unfold file_ops_def io_reads_ok_def store_ops.simps)
  fix st st' :: file_store and c new expected cm cid bs found h r q
  assume ok: "store_ok L st"
  note parts = store_ok_parts [OF ok]
  show "libs_ok L" "history_ok L (objects st)" by (fact parts)+
  show "wf_commit_id c \<and> rooted L (objects st) c" if "head_id st = Some c"
    by (rule head_id_rooted [OF ok that])
  show "found = objects st cid" if "wf_content_id cid" "get_object_sync L io st cid = Inr found"
    using get_object_spec [OF parts(1,2) that(1), of io] that(2) by (auto split: option.splits)
  show "get_object_sync L io st cid = Inr (objects st cid)"
    if "wf_content_id cid" "\<forall>cid. io_fault io (ReadObject cid) = None"
    using get_object_spec [OF parts(1,2) that(1), of io] that(2) by simp
  show "stored_commit L (objects st) c cm" if "wf_commit_id c" "get_commit_sync L io st c = Inr (Some cm)"
    by (rule get_commit_spec(1) [OF parts(1,2) that])
  show "get_commit_sync L io st c = Inr (Some cm)"
    if "wf_commit_id c" "\<forall>cid. io_fault io (ReadObject cid) = None" "stored_commit L (objects st) c cm"
    using get_commit_spec(2) [OF parts(1,2) that(1)] that(2,3) by blast
  show "h = head_id st" if "head_sync io st = Inr h"
    using that head_sync_spec [OF parts(4), of io] by (auto simp: rbind_eq_Inr)
  show "store_ok L st' \<and> head_id st' = head_id st \<and> grows (objects st) (objects st') \<and>
      (r = Inr () \<longrightarrow> objects st' cid = Some bs)"
    if "wf_content_id cid" "file_put_content L io st cid bs = (r, st')"
    by (rule file_put_content_contract [OF ok that])
  show "store_ok L st' \<and> head_id st' = head_id st \<and> grows (objects st) (objects st') \<and>
      (\<forall>c. q = Inr c \<longrightarrow> wf_commit_id c \<and> stored_commit L (objects st') c (normal_any cm))"
    if "wf_any cm" "put_commit_sync L io st cm = (q, st')"
    by (rule put_commit_contract [OF ok that])
  show "store_ok L st' \<and> objects st' = objects st \<and>
      (head_id st' = head_id st \<or> head_id st = expected \<and> head_id st' = Some new) \<and>
      (r = Inr () \<longrightarrow> head_id st = expected \<and> head_id st' = Some new)"
    if "wf_commit_id new" "rooted L (objects st) new" "compare_and_set_sync io st expected new = (r, st')"
    using compare_and_set_spec [OF ok that(2,1,3)] by simp
qed

section \<open>Properties of the ledger on the filesystem\<close>

text \<open>
  Every state of the store that clients can produce: from the empty store by any sequence of operations, each
  under its own pattern of failing system calls.
\<close>

inductive reachable :: "'t libs \<Rightarrow> file_store \<Rightarrow> bool" for L :: "'t libs" where
  reach_empty: "reachable L empty_store"
| reach_content: "reachable L st \<Longrightarrow> wf_content_id cid \<Longrightarrow>
    reachable L (snd (so_put_content (file_ops L io) st cid bs))"
| reach_put_commit: "reachable L st \<Longrightarrow> wf_any cm \<Longrightarrow> reachable L (snd (so_put_commit (file_ops L io) st cm))"
| reach_advance: "reachable L st \<Longrightarrow> wf_commit_id new \<Longrightarrow>
    reachable L (snd (advance_ref (file_ops L io) st expected new))"
| reach_commit: "reachable L st \<Longrightarrow> pred_option wf_commit_id (cr_expected_head req) \<Longrightarrow>
    utf8 (cr_author req) \<Longrightarrow> utf8 (cr_message req) \<Longrightarrow> utf8 (cr_event_time req) \<Longrightarrow>
    (\<And>recorded. now = Inr recorded \<Longrightarrow> utf8 recorded) \<Longrightarrow>
    reachable L (snd (ledger_commit L (file_ops L io) now st req))"

lemma reachable_ok:
  assumes "libs_ok L" "reachable L st"
  shows "store_ok L st"
  using assms(2)
proof induction
  case reach_empty
  then show ?case by (rule empty_store_ok [OF assms(1)])
next
  case (reach_content st cid io bs)
  then show ?case using fsb.put_content [OF reach_content.IH reach_content.hyps(2) surjective_pairing] by simp
next
  case (reach_put_commit st cm io)
  then show ?case using fsb.put_commit [OF reach_put_commit.IH reach_put_commit.hyps(2) surjective_pairing] by simp
next
  case (reach_advance st new io expected)
  then show ?case using fsb.advance_ref_contract [OF reach_advance.IH reach_advance.hyps(2) surjective_pairing] by simp
next
  case (reach_commit st req now io)
  then show ?case
    using fsb.commit_contract [OF reach_commit.IH reach_commit.hyps(2-6) surjective_pairing] by simp
qed

section \<open>A first commit\<close>

text \<open>A digest that tells commits from other content is enough to run a commit on the empty store.\<close>

definition first_libs :: "civil libs" where
  "first_libs =
     \<lparr>lib_hash = (\<lambda>bs. replicate 64 (if is_commit_family bs then CHR ''c'' else CHR ''a'')),
      lib_time = canonical_reader, lib_nquads = demo_nquads\<rparr>"

definition first_request :: commit_request where
  "first_request =
     \<lparr>cr_expected_head = None, cr_patch = Patch [], cr_author = ''ann'', cr_message = ''init'',
      cr_event_time = ''t0''\<rparr>"

definition first_result :: "(ledger_error + commit_id) \<times> file_store" where
  "first_result = ledger_commit first_libs (file_ops first_libs quiet_io) (Inr ''t1'') empty_store first_request"

lemma first_libs_ok: "libs_ok first_libs"
  by (simp add: libs_ok_def first_libs_def canonical_reader_ok demo_nquads_ok hex_digest_def lower_hex_def
      list_all_iff byte_class_defs)

lemma first_bytes: "\<exists>bs. any_canonical_bytes (request_commit first_libs first_request ''t1'') = Inr bs"
proof -
  have "length (patch_id_str (patch_id_of (lib_hash first_libs) (Patch []))) \<le> 4096"
    by (simp add: patch_id_of_def for_bytes_def first_libs_def SHA256_PREFIX_def)
  then have "\<exists>b. encode_all encode_field
      [patch_id_str (patch_id_of (lib_hash first_libs) (Patch [])), ''ann'', ''init'', ''t0'', ''t1''] = Inr b"
    by (intro encode_all_total) (auto simp: encode_field_short)
  then show ?thesis
    by (auto simp: request_commit_def first_request_def v1_canonical_bytes_def v1_validate_shape_def same_parents_def
        fail_if_simps encode_all_def)
qed

lemma first_patch_stored:
  "\<exists>st. file_put_content first_libs quiet_io empty_store (patch_cid (patch_id_of (lib_hash first_libs) (Patch [])))
      (patch_canonical_bytes (Patch [])) = (Inr (), st) \<and> store_ok first_libs st \<and> head_id st = None \<and>
    objects st = [patch_cid (patch_id_of (lib_hash first_libs) (Patch [])) \<mapsto> patch_canonical_bytes (Patch [])]"
proof -
  let ?bs = "patch_canonical_bytes (Patch [])" and ?cid = "patch_cid (patch_id_of (lib_hash first_libs) (Patch []))"
  have ok: "store_ok first_libs empty_store" by (rule empty_store_ok [OF first_libs_ok])
  have cid: "for_bytes (lib_hash first_libs) ?bs = ?cid" by (simp add: patch_id_of_def)
  then have wf: "wf_content_id ?cid" using first_libs_ok for_bytes_wf by (metis libs_ok_def)
  have none: "objects empty_store = Map.empty" by (auto simp: objects_def empty_store_def shard_entries_def)
  have "\<not> is_commit_family ?bs" by code_simp
  then have put: "file_put_content first_libs quiet_io empty_store ?cid ?bs =
      put_object_sync first_libs quiet_io empty_store ?cid ?bs"
    by (simp add: file_put_content_def reject_commit_bytes_as_content_def)
  have "fst (put_object_sync first_libs quiet_io empty_store ?cid ?bs) = Inr ()"
    by (rule quiet_put_succeeds [OF ok cid]) (simp add: none)
  then obtain st where st: "file_put_content first_libs quiet_io empty_store ?cid ?bs = (Inr (), st)"
    by (metis put prod.collapse)
  note contract = file_put_content_contract [OF ok wf st]
  have "objects st = [?cid \<mapsto> ?bs]"
    using put_object_spec(3,4) [OF store_ok_parts(1,2) [OF ok] wf st [unfolded put]] by (auto simp: none)
  then show ?thesis using st contract by (simp add: head_id_def empty_store_def)
qed

lemma first_patch_valid:
  "validate_patch_bytes first_libs (patch_id_of (lib_hash first_libs) (Patch [])) (patch_canonical_bytes (Patch [])) =
    Inr (Patch [])"
  using patch_read_written [OF demo_nquads_ok, of "Patch []"]
  by (simp add: validate_patch_bytes_def patch_id_of_def wf_patch_def wf_patch_quads_def conflict_free_def)
    (simp add: first_libs_def)

lemma first_commit_stored:
  assumes "store_ok first_libs st"
    and "objects st = [patch_cid (patch_id_of (lib_hash first_libs) (Patch [])) \<mapsto> patch_canonical_bytes (Patch [])]"
  shows "\<exists>c st'. put_commit_sync first_libs quiet_io st (request_commit first_libs first_request ''t1'') = (Inr c, st')"
proof -
  let ?pid = "patch_id_of (lib_hash first_libs) (Patch [])" and ?cm = "request_commit first_libs first_request ''t1''"
  note parts = store_ok_parts [OF assms(1)]
  obtain bs where bs: "any_canonical_bytes ?cm = Inr bs" using first_bytes by blast
  let ?cid = "for_bytes (lib_hash first_libs) bs"
  have pid: "for_bytes (lib_hash first_libs) (patch_canonical_bytes (Patch [])) = patch_cid ?pid"
    by (simp add: patch_id_of_def)
  then have wf: "wf_patch_id ?pid" using parts(1) for_bytes_wf by (metis libs_ok_def)
  have "get_object_sync first_libs quiet_io st (patch_cid ?pid) = Inr (Some (patch_canonical_bytes (Patch [])))"
    using get_object_spec [OF parts(1,2) wf, of quiet_io] by (simp add: assms(2) quiet_no_fault)
  moreover have "any_parents ?cm = []" "any_patch ?cm = ?pid" by (simp_all add: request_commit_def first_request_def)
  ultimately have check: "check_commit first_libs quiet_io st ?cm = Inr (bs, CommitId ?cid)"
    by (simp add: check_commit_def bs any_id_alt first_patch_valid)
  have "?cid \<noteq> patch_cid ?pid"
    unfolding pid [symmetric]
    using any_bytes_commit_family [OF bs] by (auto simp: for_bytes_def first_libs_def) code_simp
  then have "fst (put_object_sync first_libs quiet_io st ?cid bs) = Inr ()"
    by (intro quiet_put_succeeds [OF assms(1)]) (simp_all add: assms(2))
  then obtain st' where "put_object_sync first_libs quiet_io st ?cid bs = (Inr (), st')" by (metis prod.collapse)
  then show ?thesis by (auto simp: put_commit_sync_def check)
qed

lemma first_commit:
  "\<exists>c st. first_result = (Inr c, st) \<and> wf_commit_id c \<and>
    stored_patch first_libs (objects st) (patch_id_of (lib_hash first_libs) (Patch [])) (Patch [])"
proof -
  let ?pid = "patch_id_of (lib_hash first_libs) (Patch [])" and ?cm = "request_commit first_libs first_request ''t1''"
  obtain st1 where st1: "file_put_content first_libs quiet_io empty_store (patch_cid ?pid) (patch_canonical_bytes (Patch [])) =
      (Inr (), st1)" "store_ok first_libs st1" "head_id st1 = None"
    "objects st1 = [patch_cid ?pid \<mapsto> patch_canonical_bytes (Patch [])]" using first_patch_stored by blast
  obtain c st2 where put: "put_commit_sync first_libs quiet_io st1 ?cm = (Inr c, st2)"
    using first_commit_stored [OF st1(2,4)] by blast
  have wf: "wf_any ?cm"
    using first_libs_ok
    by (simp add: request_commit_def first_request_def wf_v1_def patch_id_of_def libs_ok_def for_bytes_wf ascii_utf8 is_ascii_def)
  note c = put_commit_contract [OF st1(2) wf put]
  have "get_commit_sync first_libs quiet_io st2 c = Inr (Some (normal_any ?cm))"
    using get_commit_spec(2) [OF store_ok_parts(1,2), of first_libs st2 st2] c by (simp add: quiet_no_fault)
  moreover have "head_sync quiet_io st2 = Inr None"
    using head_sync_spec [OF store_ok_parts(4), of first_libs st2 quiet_io] c st1(3) by (simp add: io_try_def quiet_no_fault)
  ultimately have "fst (advance_ref (file_ops first_libs quiet_io) st2 None c) = Inr ()"
    by (simp add: advance_ref_def file_ops_def compare_and_set_sync_def io_try_def quiet_no_fault)
  then obtain st3 where advance: "advance_ref (file_ops first_libs quiet_io) st2 None c = (Inr (), st3)"
    by (metis prod.collapse)
  moreover have "cr_patch first_request = Patch []" "cr_expected_head first_request = None"
    by (simp_all add: first_request_def)
  ultimately have "first_result = (Inr c, st3)"
    using st1(1) put by (simp add: first_result_def ledger_commit_def file_ops_def Let_def)
  moreover have "grows (objects st1) (objects st3)"
    using fsb.advance_ref_contract [OF _ _ advance] c by simp
  then have "stored_patch first_libs (objects st3) ?pid (Patch [])"
    by (rule stored_grows(2)) (simp add: stored_patch_def st1(4) first_patch_valid)
  ultimately show ?thesis using c by blast
qed

lemma first_utf8: "utf8 (cr_author first_request)" "utf8 (cr_message first_request)" "utf8 (cr_event_time first_request)"
  "utf8 ''t1''" "pred_option wf_commit_id (cr_expected_head first_request)"
  by (simp_all add: first_request_def ascii_utf8 is_ascii_def)

lemma first_store:
  obtains c where "ledger_commit first_libs (file_ops first_libs quiet_io) (Inr ''t1'') empty_store first_request =
      (Inr c, snd first_result)"
    "wf_commit_id c" "store_ok first_libs (snd first_result)" "head_id (snd first_result) = Some c"
    "stored_commit first_libs (objects (snd first_result)) c (request_commit first_libs first_request ''t1'')"
    "stored_patch first_libs (objects (snd first_result)) (patch_id_of (lib_hash first_libs) (Patch [])) (Patch [])"
proof -
  obtain c st where c: "first_result = (Inr c, st)" "wf_commit_id c"
    "stored_patch first_libs (objects st) (patch_id_of (lib_hash first_libs) (Patch [])) (Patch [])"
    using first_commit by blast
  have st: "snd first_result = st" by (simp add: c(1))
  note commit = c(1) [unfolded first_result_def]
  have "\<And>recorded. (Inr ''t1'' :: string + string) = Inr recorded \<Longrightarrow> utf8 recorded" using first_utf8(4) by auto
  from fsb.commit_contract [OF empty_store_ok [OF first_libs_ok] first_utf8(5,1-3) this commit]
  show ?thesis using that [unfolded st, OF commit c(2)] c(3) by auto
qed

text \<open>
  C31. On every store that clients can produce, whichever system calls fail at any moment: each object is
  stored under its own digest; the history of every stored commit is complete, valid and acyclic (all
  ancestors and all their patches are stored); and the head, if any, is such a commit.
\<close>

theorem reachable_history_invariant:
  assumes "libs_ok L" "reachable L st"
  shows "(\<forall>cid bs. objects st cid = Some bs \<longrightarrow> for_bytes (lib_hash L) bs = cid) \<and>
    (\<forall>c cm. stored_commit L (objects st) c cm \<longrightarrow> rooted L (objects st) c \<and> \<not> (parent_of L (objects st))\<^sup>+\<^sup>+ c c) \<and>
    (\<forall>c. head_id st = Some c \<longrightarrow> rooted L (objects st) c)"
proof -
  have ok: "store_ok L st" by (rule reachable_ok [OF assms])
  note parts = store_ok_parts [OF ok]
  show ?thesis
    using objects_digest [OF parts(1,2)] parts(3) rooted_acyclic head_id_rooted [OF ok]
    unfolding history_ok_def by blast
qed

theorem reachable_history_invariant_witness:
  "\<exists>c. reachable first_libs (snd first_result) \<and> head_id (snd first_result) = Some c \<and>
    rooted first_libs (objects (snd first_result)) c"
proof -
  obtain c where c: "head_id (snd first_result) = Some c" by (rule first_store)
  have reach: "reachable first_libs (snd first_result)"
    unfolding first_result_def by (rule reach_commit [OF reach_empty]) (use first_utf8 in auto)
  from reachable_history_invariant [OF first_libs_ok reach] c reach show ?thesis by blast
qed

text \<open>
  C32. Committing moves the head by compare-and-set: success means that the head was the expected one and now
  is the new commit, stored with the requested content, the time of recording and the expected head as its
  only parent. A commit that reports an error has left the head where it was or has moved it from the
  expected head to the complete new commit, never elsewhere. No object is ever lost or changed.
\<close>

theorem ledger_commit_spec:
  assumes "store_ok L st" "pred_option wf_commit_id (cr_expected_head req)"
    "utf8 (cr_author req)" "utf8 (cr_message req)" "utf8 (cr_event_time req)"
    "\<And>recorded. now = Inr recorded \<Longrightarrow> utf8 recorded"
    and "ledger_commit L (file_ops L io) now st req = (r, st')"
  shows "store_ok L st' \<and> grows (objects st) (objects st') \<and>
    (head_id st' = head_id st \<or>
     head_id st = cr_expected_head req \<and>
     (\<exists>c recorded. head_id st' = Some c \<and> now = Inr recorded \<and> stored_commit L (objects st') c (request_commit L req recorded))) \<and>
    (\<forall>c. r = Inr c \<longrightarrow> head_id st = cr_expected_head req \<and> head_id st' = Some c \<and>
       (\<exists>recorded. now = Inr recorded \<and> stored_commit L (objects st') c (request_commit L req recorded)))"
  by (rule fsb.commit_contract [OF assms])

theorem ledger_commit_spec_witness:
  "\<exists>c. ledger_commit first_libs (file_ops first_libs quiet_io) (Inr ''t1'') empty_store first_request =
      (Inr c, snd first_result) \<and>
    head_id (snd first_result) = Some c \<and>
    stored_commit first_libs (objects (snd first_result)) c (request_commit first_libs first_request ''t1'')"
proof -
  obtain c where c: "ledger_commit first_libs (file_ops first_libs quiet_io) (Inr ''t1'') empty_store first_request =
      (Inr c, snd first_result)" by (rule first_store)
  have "\<And>recorded. (Inr ''t1'' :: string + string) = Inr recorded \<Longrightarrow> utf8 recorded" using first_utf8(4) by auto
  from ledger_commit_spec [OF empty_store_ok [OF first_libs_ok] first_utf8(5,1-3) this c] c
  show ?thesis by auto
qed

text \<open>
  C33. Reconstruction is replay: a state returned for a commit is the result of applying, from the empty
  state, the patches of its first-parent history in order, and it respects every limit.
\<close>

theorem state_at_is_replay:
  assumes "store_ok L st" "wf_commit_id c" "state_at_bounded L (file_ops L io) l st c = Inr X"
  shows "\<exists>ps. first_parents L (objects st) c ps \<and> X = state_after ps \<and> length ps \<le> rc_max_depth l \<and>
    fcard X \<le> rc_max_quads l \<and> state_bytes X \<le> rc_max_bytes l"
  by (rule fsb.state_at_contract [OF assms])

lemma first_state:
  assumes "stored_commit first_libs (objects st) c (request_commit first_libs first_request ''t1'')"
    and "stored_patch first_libs (objects st) (patch_id_of (lib_hash first_libs) (Patch [])) (Patch [])"
    and "store_ok first_libs st"
  shows "state_at_bounded first_libs (file_ops first_libs quiet_io) RECONSTRUCTION_DEVELOPMENT st c = Inr {||}"
proof -
  let ?cm = "request_commit first_libs first_request ''t1''" and ?pid = "patch_id_of (lib_hash first_libs) (Patch [])"
    and ?S = "file_ops first_libs quiet_io"
  note libs = store_ok_parts(1) [OF assms(3)]
  have io: "io_reads_ok quiet_io" by (simp add: io_reads_ok_def quiet_no_fault)
  have cm: "any_parents ?cm = []" "any_patch ?cm = ?pid" by (simp_all add: request_commit_def first_request_def)
  have "so_get_commit ?S st c = Inr (Some ?cm)"
    by (rule fsb.get_commit_ok [OF assms(3) stored_commit_wf(1) [OF libs assms(1)] io assms(1)])
  then have chain: "collect_chain ?S RECONSTRUCTION_DEVELOPMENT st {||} (Some c) = Inr [?pid]"
    by (simp add: collect_chain.simps cm check_depth_def fail_if_simps RECONSTRUCTION_DEVELOPMENT_def
        fcard_finsert_disjoint fcard_fempty)
  obtain bs where "objects st (patch_cid ?pid) = Some bs" and valid: "validate_patch_bytes first_libs ?pid bs = Inr (Patch [])"
    using assms(2) by (auto simp: stored_patch_def)
  then have "so_get_content ?S st (patch_cid ?pid) = Inr (Some bs)"
    using fsb.get_content_ok [OF assms(3) stored_patch_wf [OF libs assms(2)] io] by simp
  then have "replay_chain first_libs ?S RECONSTRUCTION_DEVELOPMENT st ({||}, 0) [?pid] = Inr ({||}, 0)"
    by (simp add: valid apply_bounded_def check_state_def fcard_fempty)
  then show ?thesis by (simp add: state_at_bounded_def chain)
qed

theorem state_at_is_replay_witness:
  "\<exists>c. state_at_bounded first_libs (file_ops first_libs quiet_io) RECONSTRUCTION_DEVELOPMENT (snd first_result) c = Inr {||} \<and>
    (\<exists>ps. first_parents first_libs (objects (snd first_result)) c ps \<and> {||} = state_after ps)"
proof -
  obtain c where c: "wf_commit_id c" "store_ok first_libs (snd first_result)"
    "stored_commit first_libs (objects (snd first_result)) c (request_commit first_libs first_request ''t1'')"
    "stored_patch first_libs (objects (snd first_result)) (patch_id_of (lib_hash first_libs) (Patch [])) (Patch [])"
    by (rule first_store)
  from state_at_is_replay [OF c(2,1) first_state [OF c(3,4,2)]] first_state [OF c(3,4,2)] show ?thesis by blast
qed

text \<open>
  C34. Reconstruction always ends, and for a stored commit it fails for no other reason than a limit as long
  as reads succeed: no object is missing, no patch is invalid, and no cycle is found.
\<close>

theorem state_at_returns:
  assumes "store_ok L st" "io_reads_ok io" "stored_commit L (objects st) c cm"
  shows "(\<exists>X. state_at_bounded L (file_ops L io) l st c = Inr X) \<or>
    (\<exists>m. state_at_bounded L (file_ops L io) l st c = Inl (ResourceLimit m))"
proof -
  have "rooted L (objects st) c"
    using store_ok_parts(3) [OF assms(1)] assms(3) unfolding history_ok_def by blast
  then show ?thesis by (rule fsb.state_at_total [OF assms(1,2)])
qed

theorem state_at_returns_witness:
  "\<exists>c. io_reads_ok quiet_io \<and> head_id (snd first_result) = Some c \<and>
    ((\<exists>X. state_at_bounded first_libs (file_ops first_libs quiet_io) RECONSTRUCTION_DEVELOPMENT (snd first_result) c = Inr X) \<or>
     (\<exists>m. state_at_bounded first_libs (file_ops first_libs quiet_io) RECONSTRUCTION_DEVELOPMENT (snd first_result) c =
        Inl (ResourceLimit m)))"
proof -
  obtain c where c: "store_ok first_libs (snd first_result)" "head_id (snd first_result) = Some c"
    "stored_commit first_libs (objects (snd first_result)) c (request_commit first_libs first_request ''t1'')"
    by (rule first_store)
  have io: "io_reads_ok quiet_io" by (simp add: io_reads_ok_def quiet_no_fault)
  from state_at_returns [OF c(1) io c(3), of RECONSTRUCTION_DEVELOPMENT] c(2) io show ?thesis by blast
qed

end
