(* ===== verification/Spec2Isabelle.thy ===== *)
theory Spec2Isabelle
  imports Core_Commit Rdf_Delta Dag_Merge_Base Dag_Windows Merge_ThreeWay Projection_Plan Store_Ledger
begin

text \<open>
  Verification of the cognitive ledger.
\<close>

end
